(* ===== verification/Zstore_Prelude.thy ===== *)
theory Zstore_Prelude
  imports Main "HOL-Library.Word"
begin

text \<open>
  Shared vocabulary of the development: the machine integer types of
  \<^verbatim>\<open>src/src/include/utils.h\<close> (\<open>u8\<close> .. \<open>u64\<close>), the faults a C++ execution can end in, the
  result type of fallible code with its sequencing, little-endian byte encodings, and the list
  and option lemmas that several components use.

  A C \<open>int\<close> is an HOL \<open>int\<close> (no C \<open>int\<close> computation of the program leaves the 32-bit range);
  an unsigned integer is a \<open>word\<close> of its width, so its arithmetic wraps as in C++.
\<close>

section \<open>Machine integers\<close>

type_synonym u64 = "64 word"
type_synonym u32 = "32 word"
type_synonym u16 = "16 word"
type_synonym u8 = "8 word"

named_theorems res_simps \<open>sequencing of fallible code\<close>
named_theorems codec_simps \<open>byte encodings and their lengths\<close>

section \<open>Faults and fallible code\<close>

text \<open>
  \<open>AssertFail\<close> is a failed \<^verbatim>\<open>assert\<close>; \<open>OutOfBounds\<close> a memory access outside an object;
  \<open>NullDeref\<close> a null pointer dereference; \<open>InvalidArgument\<close> the exception of that name;
  \<open>DivByZero\<close> an integer division by zero; \<open>Uninitialised\<close> a read of an indeterminate value;
  \<open>UseAfterFree\<close> an access through a freed pointer; \<open>OutOfRange\<close> the exception of a conversion
  that does not fit; \<open>InvalidFree\<close> the deletion of a pointer that \<^verbatim>\<open>new\<close> did not return;
  \<open>BadResult\<close> the exception of \<^verbatim>\<open>value()\<close> on a failed outcome;
  \<open>LengthError\<close> the exception of a string of impossible length; \<open>SystemError\<close> that of a library
  function that reports an error code;
  \<open>ExitCall\<close> a call of \<^verbatim>\<open>exit\<close>. \<open>Unfinished\<close> is not a fault of the program: it says that a loop
  which need not end has not ended within the rounds it was given.
\<close>

datatype fault = AssertFail | OutOfBounds | NullDeref | InvalidArgument | DivByZero
  | Uninitialised | UseAfterFree | InvalidFree | OutOfRange | BadResult | LengthError | SystemError | ExitCall | Unfinished

type_synonym 'a res = "fault + 'a"

definition bindR :: "'a res \<Rightarrow> ('a \<Rightarrow> 'b res) \<Rightarrow> 'b res" where
  "bindR m f = (case m of Inl e \<Rightarrow> Inl e | Inr a \<Rightarrow> f a)"

definition cassert :: "bool \<Rightarrow> unit res" where
  "cassert b = (if b then Inr () else Inl AssertFail)"

lemma bindR_Inl [simp, res_simps]: "bindR (Inl e) f = Inl e"
  by (simp add: bindR_def)

lemma bindR_Inr [simp, res_simps]: "bindR (Inr a) f = f a"
  by (simp add: bindR_def)

lemma cassert_True [simp, res_simps]: "cassert True = Inr ()"
  by (simp add: cassert_def)

lemma cassert_False [simp, res_simps]: "cassert False = Inl AssertFail"
  by (simp add: cassert_def)

lemma bindR_eq_Inr: "bindR m f = Inr y \<longleftrightarrow> (\<exists>a. m = Inr a \<and> f a = Inr y)"
  by (cases m) auto

lemma bindR_eq_Inl: "bindR m f = Inl e \<longleftrightarrow> m = Inl e \<or> (\<exists>a. m = Inr a \<and> f a = Inl e)"
  by (cases m) auto

lemma cassert_eq_Inr: "cassert b = Inr u \<longleftrightarrow> b"
  by (simp add: cassert_def)

lemma bindR_assoc: "bindR (bindR m f) g = bindR m (\<lambda>a. bindR (f a) g)"
  by (cases m) auto

text \<open>Running a fallible step over a list, threading a state: the shape of the source's loops.\<close>

fun foldR :: "('a \<Rightarrow> 's \<Rightarrow> 's res) \<Rightarrow> 'a list \<Rightarrow> 's \<Rightarrow> 's res" where
  "foldR f [] s = Inr s"
| "foldR f (x # xs) s = bindR (f x s) (foldR f xs)"

lemma foldR_append: "foldR f (xs @ ys) s = bindR (foldR f xs s) (foldR f ys)"
proof (induction xs arbitrary: s)
  case Nil
  then show ?case by simp
next
  case (Cons x xs)
  then show ?case by (cases "f x s") simp_all
qed

lemma foldR_invariant:
  assumes "foldR f xs s = Inr t" and "P s"
    and "\<And>x s t. x \<in> set xs \<Longrightarrow> P s \<Longrightarrow> f x s = Inr t \<Longrightarrow> P t"
  shows "P t"
  using assms
proof (induction xs arbitrary: s)
  case Nil
  then show ?case by simp
next
  case (Cons x xs)
  from Cons.prems(1) obtain s' where s': "f x s = Inr s'" "foldR f xs s' = Inr t"
    by (auto simp: bindR_eq_Inr)
  then have "P s'" using Cons.prems(2,3) by auto
  with s' show ?case using Cons.IH Cons.prems(3) by auto
qed

text \<open>
  Total correctness of fallible code: \<open>okR m P\<close> says that \<open>m\<close> does not fault and that its value
  satisfies \<open>P\<close>. The equation for \<open>bindR\<close> turns a sequence of calls into nested goals, which the
  rules \<open>ok_rules\<close> of the operations solve through \<open>okR_mono\<close>.
\<close>

named_theorems ok_rules \<open>total-correctness rules of the operations\<close>

definition okR :: "'a res \<Rightarrow> ('a \<Rightarrow> bool) \<Rightarrow> bool" where
  "okR m P \<longleftrightarrow> (case m of Inl e \<Rightarrow> False | Inr x \<Rightarrow> P x)"

lemma okR_Inr [simp]: "okR (Inr x) P = P x"
  by (simp add: okR_def)

lemma okR_Inl [simp]: "\<not> okR (Inl e) P"
  by (simp add: okR_def)

lemma okR_bindR [simp]: "okR (bindR m f) P = okR m (\<lambda>x. okR (f x) P)"
  by (cases m) simp_all

lemma okR_cassert [simp]: "okR (cassert b) P = (b \<and> P ())"
  by (cases b) simp_all

lemma okR_mono: "okR m P \<Longrightarrow> (\<And>x. P x \<Longrightarrow> Q x) \<Longrightarrow> okR m Q"
  by (cases m) simp_all

lemma okR_iff: "okR m P \<longleftrightarrow> (\<exists>x. m = Inr x \<and> P x)"
  by (cases m) auto

lemma okRI: "m = Inr x \<Longrightarrow> P x \<Longrightarrow> okR m P"
  by simp

lemma okRE: "okR m P \<Longrightarrow> (\<And>x. m = Inr x \<Longrightarrow> P x \<Longrightarrow> thesis) \<Longrightarrow> thesis"
  by (cases m) auto

lemma okR_foldR:
  assumes "P [] s" and "\<And>pre x post s. xs = pre @ x # post \<Longrightarrow> P pre s \<Longrightarrow> okR (f x s) (P (pre @ [x]))"
  shows "okR (foldR f xs s) (P xs)"
proof -
  have "okR (foldR f ys s) (P xs)" if "xs = pre @ ys" "P pre s" for pre ys s
    using that
  proof (induction ys arbitrary: pre s)
    case Nil
    then show ?case by simp
  next
    case (Cons y ys)
    have "okR (f y s) (P (pre @ [y]))" using assms(2) Cons.prems by blast
    then show ?case unfolding foldR.simps okR_bindR
      by (rule okR_mono) (use Cons in auto)
  qed
  with assms(1) show ?thesis by (metis append_Nil)
qed

text \<open>Partial correctness: if \<open>m\<close> does not fault, its value satisfies \<open>P\<close>.\<close>

definition postR :: "'a res \<Rightarrow> ('a \<Rightarrow> bool) \<Rightarrow> bool" where
  "postR m P \<longleftrightarrow> (\<forall>x. m = Inr x \<longrightarrow> P x)"

lemma postR_Inr [simp]: "postR (Inr x) P = P x"
  by (simp add: postR_def)

lemma postR_Inl [simp]: "postR (Inl e) P"
  by (simp add: postR_def)

lemma postR_bindR [simp]: "postR (bindR m f) P = postR m (\<lambda>x. postR (f x) P)"
  by (cases m) simp_all

lemma postR_mono: "postR m P \<Longrightarrow> (\<And>x. P x \<Longrightarrow> Q x) \<Longrightarrow> postR m Q"
  by (simp add: postR_def)

lemma postR_any: "(\<And>x. P x) \<Longrightarrow> postR m P"
  by (simp add: postR_def)

lemma postR_bind_any: "(\<And>x. postR (f x) P) \<Longrightarrow> postR (bindR m f) P"
  by (cases m) simp_all

lemma postR_conj: "postR m P \<Longrightarrow> postR m Q \<Longrightarrow> postR m (\<lambda>x. P x \<and> Q x)"
  by (simp add: postR_def)

lemma postR_D: "postR m P \<Longrightarrow> m = Inr x \<Longrightarrow> P x"
  by (simp add: postR_def)

lemma okR_postR: "okR m P \<Longrightarrow> postR m P"
  by (cases m) simp_all

lemma postR_foldR:
  assumes "P [] s" and "\<And>pre x post s. xs = pre @ x # post \<Longrightarrow> P pre s \<Longrightarrow> postR (f x s) (P (pre @ [x]))"
  shows "postR (foldR f xs s) (P xs)"
proof -
  have "postR (foldR f ys s) (P xs)" if "xs = pre @ ys" "P pre s" for pre ys s
    using that
  proof (induction ys arbitrary: pre s)
    case Nil
    then show ?case by simp
  next
    case (Cons y ys)
    have "postR (f y s) (P (pre @ [y]))" using assms(2) Cons.prems by blast
    then show ?case unfolding foldR.simps postR_bindR
      by (rule postR_mono) (use Cons in auto)
  qed
  with assms(1) show ?thesis by (metis append_Nil)
qed

section \<open>Little-endian bytes\<close>

fun le_bytes :: "nat \<Rightarrow> nat \<Rightarrow> u8 list" where
  "le_bytes 0 x = []"
| "le_bytes (Suc n) x = of_nat (x mod 256) # le_bytes n (x div 256)"

fun le_value :: "u8 list \<Rightarrow> nat" where
  "le_value [] = 0"
| "le_value (b # bs) = unat b + 256 * le_value bs"

lemma length_le_bytes [simp, codec_simps]: "length (le_bytes n x) = n"
  by (induction n arbitrary: x) auto

lemma unat_bound: "unat (w :: 'a::len word) < 2 ^ LENGTH('a)"
  by (rule unsigned_less)

lemma ucast_back [simp]:
  "ucast (ucast (b :: u8) :: u32) = b" "ucast (ucast (w :: u32) :: u64) = w"
  by (simp_all add: ucast_up_ucast_id is_up)

lemma unat_of_int:
  "0 \<le> i \<Longrightarrow> i < 2 ^ LENGTH('a) \<Longrightarrow> unat (of_int i :: 'a::len word) = nat i"
  by (simp add: unat_eq_nat_uint uint_word_of_int_eq take_bit_int_eq_self)

lemma unat_of_nat_byte: "x < 256 \<Longrightarrow> unat (of_nat x :: u8) = x"
  by (simp add: unat_of_nat)

lemma le_value_le_bytes: "le_value (le_bytes n x) = x mod 256 ^ n"
proof (induction n arbitrary: x)
  case 0
  then show ?case by simp
next
  case (Suc n)
  have "unat (of_nat (x mod 256) :: u8) = x mod 256"
    by (rule unat_of_nat_byte) simp
  then show ?case
    using Suc by (simp add: mod_mult2_eq)
qed

lemma le_value_bound: "le_value bs < 256 ^ length bs"
proof (induction bs)
  case Nil
  then show ?case by simp
next
  case (Cons b bs)
  have "unat b < 256" using unat_bound [of b] by simp
  moreover have "Suc (le_value bs) \<le> 256 ^ length bs" using Cons by simp
  then have "256 * Suc (le_value bs) \<le> 256 * 256 ^ length bs" by (rule mult_le_mono2)
  ultimately show ?case by simp
qed

lemma le_bytes_le_value: "le_bytes (length bs) (le_value bs) = bs"
proof (induction bs)
  case Nil
  then show ?case by simp
next
  case (Cons b bs)
  have b: "unat b < 256" using unat_bound [of b] by simp
  then have "(unat b + 256 * le_value bs) mod 256 = unat b" by simp
  moreover from b have "(unat b + 256 * le_value bs) div 256 = le_value bs" by simp
  ultimately show ?case using Cons by simp
qed

text \<open>The byte representations of the fixed-width integers, as \<^verbatim>\<open>memcpy\<close> sees them on x86-64.\<close>

definition le16 :: "u16 \<Rightarrow> u8 list" where "le16 w = le_bytes 2 (unat w)"
definition le32 :: "u32 \<Rightarrow> u8 list" where "le32 w = le_bytes 4 (unat w)"
definition le64 :: "u64 \<Rightarrow> u8 list" where "le64 w = le_bytes 8 (unat w)"
definition un_le16 :: "u8 list \<Rightarrow> u16" where "un_le16 bs = of_nat (le_value bs)"
definition un_le32 :: "u8 list \<Rightarrow> u32" where "un_le32 bs = of_nat (le_value bs)"
definition un_le64 :: "u8 list \<Rightarrow> u64" where "un_le64 bs = of_nat (le_value bs)"

lemma length_le [simp, codec_simps]:
  "length (le16 a) = 2" "length (le32 b) = 4" "length (le64 c) = 8"
  by (simp_all add: le16_def le32_def le64_def)

lemma un_le16_le16 [simp, codec_simps]: "un_le16 (le16 w) = w"
  using unat_bound [of w] by (simp add: un_le16_def le16_def le_value_le_bytes)

lemma un_le32_le32 [simp, codec_simps]: "un_le32 (le32 w) = w"
  using unat_bound [of w] by (simp add: un_le32_def le32_def le_value_le_bytes)

lemma un_le64_le64 [simp, codec_simps]: "un_le64 (le64 w) = w"
  using unat_bound [of w] by (simp add: un_le64_def le64_def le_value_le_bytes)

section \<open>Memory as byte lists\<close>

text \<open>
  A read of \<open>n\<close> bytes at offset \<open>off\<close> of a buffer; outside the buffer it is undefined behaviour,
  which the model reports as a fault.
\<close>

definition mem_read :: "u8 list \<Rightarrow> nat \<Rightarrow> nat \<Rightarrow> u8 list res" where
  "mem_read buf off n = (if off + n \<le> length buf then Inr (take n (drop off buf)) else Inl OutOfBounds)"

definition mem_write :: "u8 list \<Rightarrow> nat \<Rightarrow> u8 list \<Rightarrow> u8 list res" where
  "mem_write buf off bs =
     (if off + length bs \<le> length buf
      then Inr (take off buf @ bs @ drop (off + length bs) buf) else Inl OutOfBounds)"

lemma mem_read_length: "mem_read buf off n = Inr bs \<Longrightarrow> length bs = n"
  by (auto simp: mem_read_def split: if_splits)

lemma mem_write_length: "mem_write buf off bs = Inr buf' \<Longrightarrow> length buf' = length buf"
  by (auto simp: mem_write_def split: if_splits)

lemma mem_read_append [simp]:
  "length xs = off \<Longrightarrow> length ys = n \<Longrightarrow> mem_read (xs @ ys @ zs) off n = Inr ys"
  by (auto simp: mem_read_def)

lemma mem_read_prefix [simp]:
  "length ys = n \<Longrightarrow> mem_read (ys @ zs) 0 n = Inr ys"
  by (simp add: mem_read_def)

lemma mem_write_append:
  "length ys = length bs \<Longrightarrow> length xs = off \<Longrightarrow> mem_write (xs @ ys @ zs) off bs = Inr (xs @ bs @ zs)"
  by (auto simp: mem_write_def)

lemma mem_write_fresh:
  "length xs = off \<Longrightarrow> length bs \<le> k \<Longrightarrow>
   mem_write (xs @ replicate k x) off bs = Inr ((xs @ bs) @ replicate (k - length bs) x)"
  by (simp add: mem_write_def)

lemma mem_write_fresh_all:
  "length xs = off \<Longrightarrow> length bs = k \<Longrightarrow> mem_write (xs @ replicate k x) off bs = Inr (xs @ bs)"
  by (simp add: mem_write_def)

section \<open>Lists\<close>

lemma concat_slices:
  "k * n \<le> length xs \<Longrightarrow> concat (map (\<lambda>i. take n (drop (i * n) xs)) [0..<k]) = take (k * n) xs"
proof (induction k)
  case 0
  then show ?case by simp
next
  case (Suc k)
  then have "concat (map (\<lambda>i. take n (drop (i * n) xs)) [0..<k]) = take (k * n) xs" by simp
  then show ?case by (simp add: take_add add.commute [of n])
qed

section \<open>Decimal numerals\<close>

text \<open>\<^verbatim>\<open>std::to_string\<close> of a number, and the value of a string of digits.\<close>

definition is_digit :: "char \<Rightarrow> bool" where
  "is_digit ch \<longleftrightarrow> 48 \<le> (of_char ch :: nat) \<and> (of_char ch :: nat) \<le> 57"

fun dec_string :: "nat \<Rightarrow> string" where
  "dec_string n = (if n < 10 then [char_of (48 + n)] else dec_string (n div 10) @ [char_of (48 + n mod 10)])"

declare dec_string.simps [simp del]

definition dec_value :: "string \<Rightarrow> nat" where
  "dec_value ds = foldl (\<lambda>n ch. 10 * n + (of_char ch - 48)) 0 ds"

text \<open>Decimal numerals read back as the number they print.\<close>

lemma digit_char:
  assumes "d < 10"
  shows "(of_char (char_of (48 + d) :: char) :: nat) = 48 + d"
  using assms by simp

lemma dec_value_snoc: "dec_value (s @ [ch]) = 10 * dec_value s + (of_char ch - 48)"
  by (simp add: dec_value_def)

lemma dec_string_props:
  "dec_string n \<noteq> [] \<and> list_all is_digit (dec_string n) \<and> dec_value (dec_string n) = n"
proof (induction n rule: dec_string.induct)
  case (1 n)
  show ?case
  proof (cases "n < 10")
    case True
    then have "dec_string n = [char_of (48 + n)]" by (subst dec_string.simps) simp
    with True show ?thesis by (simp add: is_digit_def dec_value_def)
  next
    case False
    then have "dec_string n = dec_string (n div 10) @ [char_of (48 + n mod 10)]" by (subst dec_string.simps) simp
    moreover have "(of_char (char_of (48 + n mod 10) :: char) :: nat) = 48 + n mod 10" by (rule digit_char) simp
    ultimately show ?thesis using 1 False by (simp add: is_digit_def dec_value_snoc)
  qed
qed

lemma dec_string_inj: "dec_string m = dec_string n \<Longrightarrow> m = n"
  using dec_string_props by metis

lemma dec_string_length: "length (dec_string n) \<le> n div 10 + 1"
proof (induction n rule: dec_string.induct)
  case (1 n)
  show ?case
  proof (cases "n < 10")
    case True
    then show ?thesis by (subst dec_string.simps) simp
  next
    case False
    then have "length (dec_string n) = length (dec_string (n div 10)) + 1" by (subst dec_string.simps) simp
    moreover have "length (dec_string (n div 10)) \<le> n div 10 div 10 + 1" using 1 False by simp
    moreover have "n div 10 div 10 + 1 \<le> n div 10" using False by linarith
    ultimately show ?thesis by simp
  qed
qed

end
