(* ===== verification/Zstore_Conf.thy ===== *)
theory Zstore_Conf
  imports Zstore_Prelude
begin

text \<open>
  The configuration singleton (\<^verbatim>\<open>src/src/include/configuration.h\<close>) and the small helpers of
  \<^verbatim>\<open>src/src/include/utils.h\<close> and \<^verbatim>\<open>src/src/include/common.h\<close>.

  The class \<^verbatim>\<open>Conf\<close> has one instance whose fields are only changed by its setters, so every
  definition of the development that reads it takes the record \<open>conf\<close> as an argument;
  \<open>conf_default\<close> holds the values the source gives its fields. \<open>conf_wf\<close> collects what the rest
  of the code relies on; \<open>conf_default\<close> satisfies it.
\<close>

section \<open>Configuration\<close>

record conf =
  gZoneDist :: u64
  gZoneCap :: u64
  gStorageSpaceInBytes :: u64
  gNumIoThreads :: int
  gNumHttpThreads :: int
  gIoThreadCoreIdBase :: u32
  gHttpThreadCoreIdBase :: u32
  gMetadataSize :: int
  gDeviceSupportMetadata :: bool
  gBlockSize :: int
  gRdmaBufferSize :: int
  gContextPoolSize :: int
  gChunkSize :: u64
  gNumOfTargets :: int
  gNumOfDevices :: int
  gSamplingRate :: int
  gZookeeperUrl :: string
  gNumofGw :: int
  gReplayWorkload :: bool
  gCurrentZone :: int
  gQpairSize :: int
  gObjectSizeInBytes :: u32
  gDebug :: bool
  gExperimental :: bool

definition conf_default :: conf where
  "conf_default = \<lparr>
     gZoneDist = 524288,
     gZoneCap = 275456,
     gStorageSpaceInBytes = 1024 * 1024 * 1024 * 1024,
     gNumIoThreads = 1,
     gNumHttpThreads = 6,
     gIoThreadCoreIdBase = 1,
     gHttpThreadCoreIdBase = 1 + 1,
     gMetadataSize = 0,
     gDeviceSupportMetadata = False,
     gBlockSize = 4096,
     gRdmaBufferSize = 128,
     gContextPoolSize = 4096 * 10,
     gChunkSize = 4096 * 32,
     gNumOfTargets = 3,
     gNumOfDevices = 2,
     gSamplingRate = 0,
     gZookeeperUrl = ''12.12.12.1:2181'',
     gNumofGw = 2,
     gReplayWorkload = False,
     gCurrentZone = 65,
     gQpairSize = 256,
     gObjectSizeInBytes = 4096 * 32,
     gDebug = False,
     gExperimental = False\<rparr>"

text \<open>The getters that convert or compute. The others read one field of the record.\<close>

definition GetZoneId :: "conf \<Rightarrow> u64" where
  "GetZoneId c = of_int (gCurrentZone c)"

definition GetIoThreadCoreId :: "conf \<Rightarrow> u32 \<Rightarrow> u32" where
  "GetIoThreadCoreId c thread_id = gIoThreadCoreIdBase c + thread_id"

definition GetHttpThreadCoreId :: "conf \<Rightarrow> u32 \<Rightarrow> u32" where
  "GetHttpThreadCoreId c thread_id = gHttpThreadCoreIdBase c + thread_id"

definition SetBlockSize :: "int \<Rightarrow> conf \<Rightarrow> conf" where
  "SetBlockSize blockSize c = c\<lparr>gBlockSize := blockSize\<rparr>"

definition SetNumOfTargets :: "int \<Rightarrow> conf \<Rightarrow> conf" where
  "SetNumOfTargets new_targets c = c\<lparr>gNumOfTargets := new_targets\<rparr>"

definition SetDeviceSupportMetadata :: "bool \<Rightarrow> conf \<Rightarrow> conf" where
  "SetDeviceSupportMetadata flag c = c\<lparr>gDeviceSupportMetadata := flag\<rparr>"

definition SetStorageSpaceInBytes :: "u64 \<Rightarrow> conf \<Rightarrow> conf" where
  "SetStorageSpaceInBytes n c = c\<lparr>gStorageSpaceInBytes := n\<rparr>"

text \<open>
  The block size in the types the code divides by: a \<open>Length\<close> or a \<open>u32\<close> divided by the \<open>int\<close>
  block size is an unsigned 32-bit division.
\<close>

definition block_size32 :: "conf \<Rightarrow> u32" where
  "block_size32 c = of_int (gBlockSize c)"

definition bytes_to_blocks :: "conf \<Rightarrow> u32 \<Rightarrow> u32" where
  "bytes_to_blocks c n = n div block_size32 c"

text \<open>
  The buffer size that the context pool and the checkpoint choose: an object, or a chunk
  when objects are larger than the transfer limit.
\<close>

definition request_buffer_size :: "conf \<Rightarrow> u64" where
  "request_buffer_size c =
     (if ucast (gObjectSizeInBytes c) > gChunkSize c then gChunkSize c
      else ucast (gObjectSizeInBytes c))"

text \<open>What the code relies on: positive block, chunk and zone sizes, block-aligned transfers,
  a zone capacity below the zone distance.\<close>

definition conf_wf :: "conf \<Rightarrow> bool" where
  "conf_wf c \<longleftrightarrow>
     0 < gBlockSize c \<and> gBlockSize c < 2 ^ 31 \<and> 0 < gChunkSize c \<and> 0 < gObjectSizeInBytes c \<and>
     unat (gChunkSize c) < 2 ^ 32 \<and>
     nat (gBlockSize c) dvd unat (gChunkSize c) \<and> nat (gBlockSize c) dvd unat (gObjectSizeInBytes c) \<and>
     0 < gZoneDist c \<and> gZoneCap c < gZoneDist c \<and> 0 < gNumIoThreads c"

lemma conf_default_wf: "conf_wf conf_default"
  by (simp add: conf_wf_def conf_default_def)

lemma request_buffer_size_le:
  "request_buffer_size c \<le> gChunkSize c" "request_buffer_size c \<le> ucast (gObjectSizeInBytes c)"
  by (auto simp: request_buffer_size_def not_less)

lemma request_buffer_size_default [simp]: "request_buffer_size conf_default = 131072"
  by (simp add: request_buffer_size_def conf_default_def)

lemma unat_bytes_to_blocks:
  assumes "conf_wf c"
  shows "unat (bytes_to_blocks c n) = unat n div nat (gBlockSize c)"
proof -
  have "uint (block_size32 c) = gBlockSize c"
    using assms by (simp add: block_size32_def conf_wf_def uint_word_of_int_eq take_bit_int_eq_self)
  then have "unat (block_size32 c) = nat (gBlockSize c)"
    by (simp add: unat_eq_nat_uint)
  then show ?thesis
    by (simp add: bytes_to_blocks_def unat_div_distrib)
qed

section \<open>Alignment helpers\<close>

definition round_up :: "u64 \<Rightarrow> u64 \<Rightarrow> u64" where
  "round_up val align = (val + align - 1) div align * align"

definition round_down :: "u64 \<Rightarrow> u64 \<Rightarrow> u64" where
  "round_down val align = val div align * align"

lemma nat_round_down: "(a::nat) div b * b \<le> a \<and> b dvd a div b * b"
  by simp

lemma nat_round_up:
  assumes "0 < (b::nat)"
  shows "a \<le> (a + b - 1) div b * b" "(a + b - 1) div b * b < a + b"
proof -
  have "(a + b - 1) = (a + b - 1) div b * b + (a + b - 1) mod b" by simp
  moreover have "(a + b - 1) mod b < b" using assms by simp
  ultimately show "a \<le> (a + b - 1) div b * b" using assms by linarith
  have "(a + b - 1) div b * b \<le> a + b - 1" by simp
  then show "(a + b - 1) div b * b < a + b" using assms by linarith
qed

lemma unat_round_down: "unat (round_down val align) = unat val div unat align * unat align"
proof -
  have "unat val div unat align * unat align \<le> unat val" by simp
  then have "unat val div unat align * unat align < 2 ^ 64"
    by (rule order.strict_trans1) (use unat_bound [of val] in simp)
  then show ?thesis
    by (simp add: round_down_def unat_word_ariths(2) unat_div_distrib)
qed

lemma unat_round_up:
  assumes "0 < align" and "unat val + unat align \<le> 2 ^ 64"
  shows "unat (round_up val align) = (unat val + unat align - 1) div unat align * unat align"
proof -
  have pos: "0 < unat align" using assms(1) by (simp add: word_less_nat_alt)
  have "val + align - 1 = of_nat (unat val + unat align - 1)"
    using pos by (simp add: of_nat_diff)
  then have "unat (val + align - 1) = (unat val + unat align - 1) mod 2 ^ 64"
    by (simp only: unat_of_nat) simp
  moreover have "unat val + unat align - 1 < 2 ^ 64" using assms(2) pos by linarith
  ultimately have sum: "unat (val + align - 1) = unat val + unat align - 1" by simp
  have "(unat val + unat align - 1) div unat align * unat align \<le> unat val + unat align - 1"
    by simp
  then have "(unat val + unat align - 1) div unat align * unat align < 2 ^ 64"
    using assms(2) pos by linarith
  then show ?thesis
    using sum by (simp add: round_up_def unat_word_ariths(2) unat_div_distrib)
qed

section \<open>Result codes and time differences\<close>

datatype ZstoreError = Success | ValueNotExisting | IoError

text \<open>
  \<^verbatim>\<open>Result<void>\<close> and \<^verbatim>\<open>Result<int>\<close> are sums of an error code and a value. A non-positive
  code is success.
\<close>

definition errcode_to_result :: "int \<Rightarrow> int + unit" where
  "errcode_to_result rc = (if rc > 0 then Inl rc else Inr ())"

definition result_to_rc :: "int + unit \<Rightarrow> int" where
  "result_to_rc r = (case r of Inr _ \<Rightarrow> 0 | Inl e \<Rightarrow> e)"

definition result_int_to_rc :: "int + int \<Rightarrow> int" where
  "result_int_to_rc r = (case r of Inr v \<Rightarrow> v | Inl e \<Rightarrow> e)"

lemma result_to_rc_errcode: "result_to_rc (errcode_to_result rc) = max rc 0"
  by (simp add: result_to_rc_def errcode_to_result_def)

text \<open>Time points are nanosecond counts; \<^verbatim>\<open>duration_cast\<close> truncates towards zero.\<close>

definition trunc_div :: "int \<Rightarrow> int \<Rightarrow> int" where
  "trunc_div n d = (let q = \<bar>n\<bar> div \<bar>d\<bar> in if (n < 0) = (d < 0) then q else - q)"

definition tdiff_us :: "int \<Rightarrow> int \<Rightarrow> int" where
  "tdiff_us end_t start_t = \<bar>trunc_div (end_t - start_t) 1000\<bar>"

definition tdiff_ns :: "int \<Rightarrow> int \<Rightarrow> int" where
  "tdiff_ns end_t start_t = \<bar>end_t - start_t\<bar>"

lemma tdiff_us_eq: "tdiff_us e s = tdiff_ns e s div 1000"
  by (simp add: tdiff_us_def tdiff_ns_def trunc_div_def Let_def)

section \<open>Properties\<close>

text \<open>
  Rounding to a positive alignment gives multiples of it: down, the largest one not above the
  value; up, the smallest one not below it, unless the sum leaves 64 bits.
\<close>

lemma rounding_bounds:
  assumes "0 < align"
  shows "unat align dvd unat (round_down v align) \<and> unat (round_down v align) \<le> unat v \<and>
    unat v < unat (round_down v align) + unat align \<and>
    (unat v + unat align \<le> 2 ^ 64 \<longrightarrow> unat align dvd unat (round_up v align) \<and>
       unat v \<le> unat (round_up v align) \<and> unat (round_up v align) < unat v + unat align)"
proof -
  have pos: "0 < unat align" using assms by (simp add: word_less_nat_alt)
  then have "unat v mod unat align < unat align" by simp
  moreover have "unat v div unat align * unat align + unat v mod unat align = unat v" by simp
  ultimately have "unat v < unat v div unat align * unat align + unat align" by linarith
  then show ?thesis
    using unat_round_up [OF assms, of v] nat_round_up [OF pos, of "unat v"] by (simp add: unat_round_down)
qed

lemma rounding_bounds_example:
  "unat (round_up 4097 4096 :: u64) = 8192 \<and> 4096 dvd unat (round_down 4097 4096 :: u64)"
  using rounding_bounds [of 4096 4097] by (simp add: round_up_def)

end
