(* ===== verification/Zstore_Interfaces.thy ===== *)
theory Zstore_Interfaces
  imports Zstore_Prelude
begin

text \<open>
  The contracts between the components, as locales: fixed-width byte codecs, the zone allocator
  of a device, the pool of request contexts, the object map of the controller, the simulation of a
  specification by fallible steps, and interleaved steps with an invariant, possibly with work that
  runs out. Each locale is interpreted on the model's own definitions in the theory of the
  component that provides it.
\<close>

section \<open>Fixed-width codecs\<close>

text \<open>
  \<open>enc\<close> lays a valid value out in \<open>width\<close> bytes and \<open>dec\<close> reads it back. The lemmas place
  encoded values inside a larger buffer and read the i-th of a sequence.
\<close>

locale codec =
  fixes enc :: "'a \<Rightarrow> u8 list" and dec :: "u8 list \<Rightarrow> 'a" and width :: nat
    and valid :: "'a \<Rightarrow> bool"
  assumes length_enc: "valid x \<Longrightarrow> length (enc x) = width"
    and dec_enc: "valid x \<Longrightarrow> dec (enc x) = x"
begin

lemma enc_inject: "valid x \<Longrightarrow> valid y \<Longrightarrow> enc x = enc y \<longleftrightarrow> x = y"
  using dec_enc by metis

lemma read_enc:
  "valid x \<Longrightarrow> length xs = off \<Longrightarrow> mem_read (xs @ enc x @ ys) off width = Inr (enc x)"
  by (simp add: length_enc)

lemma length_enc_seq: "list_all valid xs \<Longrightarrow> length (concat (map enc xs)) = width * length xs"
  by (induction xs) (simp_all add: length_enc)

lemma read_enc_seq:
  assumes "i < length xs" and "length pre = off" and "list_all valid xs"
  shows "mem_read (pre @ concat (map enc xs) @ rest) (off + i * width) width = Inr (enc (xs ! i))"
proof -
  have xs: "xs = take i xs @ xs ! i # drop (Suc i) xs"
    using assms(1) by (rule id_take_nth_drop)
  have "concat (map enc xs) =
      concat (map enc (take i xs)) @ enc (xs ! i) @ concat (map enc (drop (Suc i) xs))"
    by (subst xs) simp
  moreover have "list_all valid (take i xs)" "valid (xs ! i)"
    using assms(1,3) by (auto simp: list_all_iff dest: in_set_takeD)
  moreover from this have "length (concat (map enc (take i xs))) = i * width"
    using assms(1) by (simp add: length_enc_seq)
  ultimately show ?thesis
    using read_enc [of "xs ! i" "pre @ concat (map enc (take i xs))" "off + i * width"
        "concat (map enc (drop (Suc i) xs)) @ rest"] assms(2)
    by simp
qed

end

section \<open>The zone allocator\<close>

text \<open>
  \<open>avail\<close> is the set of free zones, \<open>total\<close> their number overall. Opening takes the lowest free
  zone and fails only when none is free; returning a zone of the device frees it again.
\<close>

locale zone_allocator =
  fixes avail :: "'d \<Rightarrow> nat set" and total :: "'d \<Rightarrow> nat"
    and open_zone :: "'d \<Rightarrow> (nat \<times> 'd) res" and return_zone :: "nat \<Rightarrow> 'd \<Rightarrow> 'd"
    and invar :: "'d \<Rightarrow> bool"
  assumes avail_total: "invar d \<Longrightarrow> avail d \<subseteq> {..<total d}"
    and open_empty: "avail d = {} \<Longrightarrow> open_zone d = Inl AssertFail"
    and open_min: "invar d \<Longrightarrow> avail d \<noteq> {} \<Longrightarrow>
      \<exists>d'. open_zone d = Inr (Min (avail d), d') \<and> invar d' \<and>
           avail d' = avail d - {Min (avail d)} \<and> total d' = total d"
    and return_spec: "invar d \<Longrightarrow> z < total d \<Longrightarrow>
      invar (return_zone z d) \<and> avail (return_zone z d) = insert z (avail d) \<and>
      total (return_zone z d) = total d"
begin

lemma finite_avail: "invar d \<Longrightarrow> finite (avail d)"
  using avail_total finite_subset by blast

lemma open_zone_cases:
  assumes "invar d" and "open_zone d = Inr (z, d')"
  shows "z = Min (avail d)" "z \<in> avail d" "invar d'" "avail d' = avail d - {z}" "total d' = total d"
proof -
  have ne: "avail d \<noteq> {}" using assms(2) open_empty by fastforce
  with assms open_min show "z = Min (avail d)" "invar d'" "avail d' = avail d - {z}"
    "total d' = total d" by fastforce+
  then show "z \<in> avail d" using ne Min_in finite_avail assms(1) by metis
qed

lemma open_return:
  assumes "invar d" and "open_zone d = Inr (z, d')"
  shows "avail (return_zone z d') = avail d"
proof -
  note o = open_zone_cases [OF assms]
  have "z < total d'" using o avail_total [OF assms(1)] by auto
  with o return_spec [of d' z] show ?thesis by auto
qed

text \<open>Opening \<open>n\<close> zones in a row yields \<open>n\<close> different zones, and is possible exactly when
  \<open>n\<close> are free.\<close>

fun open_many :: "nat \<Rightarrow> 'd \<Rightarrow> (nat list \<times> 'd) res" where
  "open_many 0 d = Inr ([], d)"
| "open_many (Suc n) d =
     bindR (open_zone d) (\<lambda>(z, d'). bindR (open_many n d') (\<lambda>(zs, d''). Inr (z # zs, d'')))"

lemma open_many_Inr:
  assumes "invar d" and "open_many n d = Inr (zs, d')"
  shows "distinct zs \<and> length zs = n \<and> set zs \<subseteq> avail d \<and> avail d' = avail d - set zs \<and> invar d'"
  using assms
proof (induction n arbitrary: d zs)
  case 0
  then show ?case by simp
next
  case (Suc n)
  from Suc.prems(2) obtain z d1 zs1 where st: "open_zone d = Inr (z, d1)"
      "open_many n d1 = Inr (zs1, d')" "zs = z # zs1"
    by (auto simp: bindR_eq_Inr)
  note o = open_zone_cases [OF Suc.prems(1) st(1)]
  from Suc.IH [OF o(3) st(2)] o st(3) show ?case by auto
qed

lemma open_many_enough:
  "invar d \<Longrightarrow> n \<le> card (avail d) \<Longrightarrow> \<exists>zs d'. open_many n d = Inr (zs, d')"
proof (induction n arbitrary: d)
  case 0
  then show ?case by simp
next
  case (Suc n)
  then have ne: "avail d \<noteq> {}" by auto
  then obtain d1 where d1: "open_zone d = Inr (Min (avail d), d1)" "invar d1"
      "avail d1 = avail d - {Min (avail d)}"
    using open_min Suc.prems(1) by blast
  have "Min (avail d) \<in> avail d" using ne finite_avail Suc.prems(1) by simp
  then have "n \<le> card (avail d1)"
    using Suc.prems d1(3) finite_avail by (simp add: card_Diff_singleton)
  with Suc.IH d1 show ?case by fastforce
qed

end

section \<open>The pool of request contexts\<close>

text \<open>
  \<open>invar p H\<close> says that the pool \<open>p\<close> is consistent when the contexts in \<open>H\<close> are in use. Acquiring
  always succeeds and yields a context that nobody uses; whoever uses a context can give it back.
\<close>

locale context_pool =
  fixes acquire :: "'p \<Rightarrow> (nat \<times> 'p) res" and release :: "nat \<Rightarrow> 'p \<Rightarrow> 'p res"
    and invar :: "'p \<Rightarrow> nat set \<Rightarrow> bool"
  assumes acquire_fresh: "invar p H \<Longrightarrow> \<exists>i p'. acquire p = Inr (i, p') \<and> i \<notin> H \<and> invar p' (insert i H)"
    and release_held: "invar p H \<Longrightarrow> i \<in> H \<Longrightarrow> \<exists>p'. release i p = Inr p' \<and> invar p' (H - {i})"
begin

lemma acquire_cases:
  assumes "invar p H" and "acquire p = Inr (i, p')"
  shows "i \<notin> H" "invar p' (insert i H)"
  using acquire_fresh [OF assms(1)] assms(2) by auto

lemma acquire_total: "invar p H \<Longrightarrow> \<exists>i p'. acquire p = Inr (i, p')"
  using acquire_fresh by blast

fun acquire_many :: "nat \<Rightarrow> 'p \<Rightarrow> (nat list \<times> 'p) res" where
  "acquire_many 0 p = Inr ([], p)"
| "acquire_many (Suc n) p =
     bindR (acquire p) (\<lambda>(i, p'). bindR (acquire_many n p') (\<lambda>(is, p''). Inr (i # is, p'')))"

fun release_many :: "nat list \<Rightarrow> 'p \<Rightarrow> 'p res" where
  "release_many [] p = Inr p"
| "release_many (i # is) p = bindR (release i p) (release_many is)"

lemma acquire_many_spec:
  "invar p H \<Longrightarrow> \<exists>is p'. acquire_many n p = Inr (is, p') \<and> length is = n \<and> distinct is \<and>
     set is \<inter> H = {} \<and> invar p' (set is \<union> H)"
proof (induction n arbitrary: p H)
  case 0
  then show ?case by simp
next
  case (Suc n)
  obtain i p1 where a: "acquire p = Inr (i, p1)" "i \<notin> H" "invar p1 (insert i H)"
    using acquire_fresh [OF Suc.prems] by blast
  obtain "is" p2 where b: "acquire_many n p1 = Inr (is, p2)" "length is = n" "distinct is"
      "set is \<inter> insert i H = {}" "invar p2 (set is \<union> insert i H)"
    using Suc.IH [OF a(3)] by blast
  have "set (i # is) \<union> H = set is \<union> insert i H" by auto
  with a b show ?case by (intro exI [of _ "i # is"] exI [of _ p2]) auto
qed

lemma release_many_spec:
  "invar p H \<Longrightarrow> distinct is \<Longrightarrow> set is \<subseteq> H \<Longrightarrow>
     \<exists>p'. release_many is p = Inr p' \<and> invar p' (H - set is)"
proof (induction "is" arbitrary: p H)
  case Nil
  then show ?case by simp
next
  case (Cons i "is")
  obtain p1 where a: "release i p = Inr p1" "invar p1 (H - {i})"
    using release_held Cons.prems by (meson list.set_intros(1) subsetD)
  obtain p2 where "release_many is p1 = Inr p2" "invar p2 (H - {i} - set is)"
    using Cons.IH [OF a(2)] Cons.prems by auto
  moreover have "H - {i} - set is = H - set (i # is)" by auto
  ultimately show ?case using a(1) by auto
qed

text \<open>A request that takes \<open>n\<close> contexts and gives them back in any order leaves the pool as
  consistent as it found it, and no step of it fails.\<close>

lemma acquire_release_many:
  assumes "invar p H"
  shows "\<exists>is p'. acquire_many n p = Inr (is, p') \<and> length is = n \<and> distinct is \<and> set is \<inter> H = {} \<and>
    (\<forall>js. set js = set is \<and> distinct js \<longrightarrow> (\<exists>p''. release_many js p' = Inr p'' \<and> invar p'' H))"
proof -
  obtain "is" p' where a: "acquire_many n p = Inr (is, p')" "length is = n" "distinct is"
      "set is \<inter> H = {}" "invar p' (set is \<union> H)"
    using acquire_many_spec [OF assms] by blast
  have "\<exists>p''. release_many js p' = Inr p'' \<and> invar p'' H" if "set js = set is" "distinct js" for js
  proof -
    have "set is \<union> H - set js = H" using a(4) that(1) by auto
    then show ?thesis using release_many_spec [OF a(5) that(2)] that(1) by auto
  qed
  with a show ?thesis by blast
qed

end

section \<open>The object map\<close>

text \<open>
  Put, delete and lookup by key. The lemmas speak about runs of operations: a lookup returns what
  the last operation on its key left.
\<close>

datatype ('k, 'v) map_op = MPut 'k 'v | MDelete 'k

fun op_key :: "('k, 'v) map_op \<Rightarrow> 'k" where
  "op_key (MPut k v) = k"
| "op_key (MDelete k) = k"

fun op_effect :: "('k, 'v) map_op \<Rightarrow> 'v option" where
  "op_effect (MPut k v) = Some v"
| "op_effect (MDelete k) = None"

locale object_map =
  fixes put :: "'k \<Rightarrow> 'v \<Rightarrow> 's \<Rightarrow> 's" and del :: "'k \<Rightarrow> 's \<Rightarrow> 's" and get :: "'s \<Rightarrow> 'k \<Rightarrow> 'v option"
  assumes get_put: "get (put k v s) k' = (if k' = k then Some v else get s k')"
    and get_del: "get (del k s) k' = (if k' = k then None else get s k')"
begin

fun run_op :: "('k, 'v) map_op \<Rightarrow> 's \<Rightarrow> 's" where
  "run_op (MPut k v) s = put k v s"
| "run_op (MDelete k) s = del k s"

lemma get_run_op: "get (run_op x s) k = (if k = op_key x then op_effect x else get s k)"
  by (cases x) (simp_all add: get_put get_del)

lemma get_run: 
  "get (fold run_op xs s) k =
     (case filter (\<lambda>x. op_key x = k) xs of [] \<Rightarrow> get s k | ys \<Rightarrow> op_effect (last ys))"
proof (induction xs rule: rev_induct)
  case Nil
  then show ?case by simp
next
  case (snoc x xs)
  then show ?case
    by (auto simp: get_run_op split: list.splits)
qed

end

section \<open>Simulation\<close>

text \<open>
  A server handles one request at a time, \<open>step\<close>, and may fault. \<open>spec\<close> says what is answered and
  how the abstract state changes. The law is that on consistent states the server does not fault
  and agrees with the specification; then it does so for every sequence of requests.
\<close>

fun run_steps :: "('q \<Rightarrow> 's \<Rightarrow> ('r \<times> 's) res) \<Rightarrow> 'q list \<Rightarrow> 's \<Rightarrow> ('r list \<times> 's) res" where
  "run_steps step [] s = Inr ([], s)"
| "run_steps step (q # qs) s =
     bindR (step q s) (\<lambda>(r, s'). bindR (run_steps step qs s') (\<lambda>(rs, s''). Inr (r # rs, s'')))"

fun run_spec :: "('q \<Rightarrow> 'a \<Rightarrow> 'r \<times> 'a) \<Rightarrow> 'q list \<Rightarrow> 'a \<Rightarrow> 'r list \<times> 'a" where
  "run_spec spec [] a = ([], a)"
| "run_spec spec (q # qs) a = (let (r, a') = spec q a; (rs, a'') = run_spec spec qs a' in (r # rs, a''))"

locale simulation =
  fixes step :: "'q \<Rightarrow> 's \<Rightarrow> ('r \<times> 's) res" and spec :: "'q \<Rightarrow> 'a \<Rightarrow> 'r \<times> 'a"
    and abs :: "'s \<Rightarrow> 'a" and invar :: "'s \<Rightarrow> bool" and admissible :: "'q \<Rightarrow> bool"
  assumes simulates: "invar s \<Longrightarrow> admissible q \<Longrightarrow>
    \<exists>r s'. step q s = Inr (r, s') \<and> invar s' \<and> spec q (abs s) = (r, abs s')"
begin

lemma run_simulates:
  "invar s \<Longrightarrow> list_all admissible qs \<Longrightarrow>
     \<exists>rs s'. run_steps step qs s = Inr (rs, s') \<and> invar s' \<and> run_spec spec qs (abs s) = (rs, abs s')"
proof (induction qs arbitrary: s)
  case Nil
  then show ?case by simp
next
  case (Cons q qs)
  obtain r s1 where s1: "step q s = Inr (r, s1)" "invar s1" "spec q (abs s) = (r, abs s1)"
    using simulates [OF Cons.prems(1), of q] Cons.prems(2) by auto
  obtain rs s2 where "run_steps step qs s1 = Inr (rs, s2)" "invar s2" "run_spec spec qs (abs s1) = (rs, abs s2)"
    using Cons.IH [OF s1(2)] Cons.prems(2) by auto
  with s1 show ?case by (intro exI [of _ "r # rs"] exI [of _ s2]) simp
qed

end

section \<open>Interleaved steps\<close>

text \<open>The atomic steps of concurrent threads, an initial state and an invariant that steps keep.\<close>

locale step_system =
  fixes step :: "'s \<Rightarrow> 's \<Rightarrow> bool" and init :: 's and inv :: "'s \<Rightarrow> bool"
  assumes inv_init: "inv init" and inv_step: "step s s' \<Longrightarrow> inv s \<Longrightarrow> inv s'"
begin

lemma inv_steps: "step\<^sup>*\<^sup>* s s' \<Longrightarrow> inv s \<Longrightarrow> inv s'"
  by (induction rule: rtranclp_induct) (auto intro: inv_step)

lemma inv_reachable: "step\<^sup>*\<^sup>* init s \<Longrightarrow> inv s"
  using inv_steps inv_init by blast

end

text \<open>
  While work is left some step reduces it and keeps \<open>frame\<close>, the part of the state that the
  outstanding work does not concern. Then the work can be finished.
\<close>

locale draining = step_system +
  fixes work :: "'s \<Rightarrow> nat" and frame :: "'s \<Rightarrow> 'k"
  assumes progress: "inv s \<Longrightarrow> work s \<noteq> 0 \<Longrightarrow> \<exists>s'. step s s' \<and> work s' < work s \<and> frame s' = frame s"
begin

lemma drains: "inv s \<Longrightarrow> \<exists>s'. step\<^sup>*\<^sup>* s s' \<and> inv s' \<and> work s' = 0 \<and> frame s' = frame s"
proof (induction "work s" arbitrary: s rule: less_induct)
  case less
  show ?case
  proof (cases "work s = 0")
    case True
    then show ?thesis using less.prems by blast
  next
    case False
    then obtain s' where s': "step s s'" "work s' < work s" "frame s' = frame s"
      using progress less.prems by blast
    obtain s'' where "step\<^sup>*\<^sup>* s' s''" "inv s''" "work s'' = 0" "frame s'' = frame s'"
      using less.hyps [OF s'(2) inv_step [OF s'(1) less.prems]] by blast
    then show ?thesis using s' by (metis converse_rtranclp_into_rtranclp)
  qed
qed

end

end
