(* ===== verification/Zstore_Object.thy ===== *)
theory Zstore_Object
  imports Zstore_Conf Zstore_Interfaces
begin

text \<open>
  Objects, log entries and chunk lists: \<^verbatim>\<open>src/src/object.cc\<close> and
  \<^verbatim>\<open>src/src/include/object.h\<close>.

  Hash strings (\<open>hashToCString\<close>, \<open>stringToHashKey\<close>), the on-disk layout of objects
  (\<open>WriteZstoreObjectToBuffer\<close>, \<open>ReadBufferToZstoreObject\<close>), the serialised chunk list
  (\<open>serializeMap\<close>, \<open>deserializeMap\<close>) and the splitting of large objects into chunks. Structures
  are copied by \<^verbatim>\<open>memcpy\<close>, so their x86-64 layout is written out, padding included; the padding
  bytes and the contents of uninitialised memory are parameters. SHA-256 is OpenSSL's and is the
  parameter \<open>H\<close>.
\<close>

type_synonym ObjectKeyHash = "u8 list"

definition hash_wf :: "ObjectKeyHash \<Rightarrow> bool" where
  "hash_wf h \<longleftrightarrow> length h = 32"

definition string_bytes :: "string \<Rightarrow> u8 list" where
  "string_bytes s = map of_char s"

section \<open>Hash strings\<close>

definition computeSHA256 :: "(u8 list \<Rightarrow> u8 list) \<Rightarrow> string \<Rightarrow> ObjectKeyHash" where
  "computeSHA256 H data = H (string_bytes data)"

definition hex_digit :: "nat \<Rightarrow> char" where
  "hex_digit n = ''0123456789abcdef'' ! n"

text \<open>The \<open>%x\<close> conversion of a non-negative number and its zero-padding to two digits.\<close>

fun hex_string :: "nat \<Rightarrow> string" where
  "hex_string n = (if n < 16 then [hex_digit n] else hex_string (n div 16) @ [hex_digit (n mod 16)])"

declare hex_string.simps [simp del]

definition hex02 :: "nat \<Rightarrow> string" where
  "hex02 n = replicate (2 - length (hex_string n)) CHR ''0'' @ hex_string n"

definition hashToCString :: "ObjectKeyHash \<Rightarrow> string" where
  "hashToCString hashKey = concat (map (\<lambda>b. hex02 (unat b)) hashKey)"

text \<open>
  \<^verbatim>\<open>istringstream(s) >> hex >> byte\<close>: white space is skipped; when nothing is left, the variable
  is not assigned; otherwise an optional sign, an optional \<open>0x\<close> prefix and the longest run of hex
  digits are converted, and a text without digits stores zero. The code only reads texts of two
  characters, whose value never overflows.
\<close>

definition is_space :: "char \<Rightarrow> bool" where
  "is_space ch \<longleftrightarrow> ch = CHR '' '' \<or> (9 \<le> (of_char ch :: nat) \<and> (of_char ch :: nat) \<le> 13)"

definition hex_value :: "char \<Rightarrow> nat option" where
  "hex_value ch =
     (let n = of_char ch in
      if 48 \<le> n \<and> n \<le> 57 then Some (n - 48)
      else if 97 \<le> n \<and> n \<le> 102 then Some (n - 87)
      else if 65 \<le> n \<and> n \<le> 70 then Some (n - 55)
      else None)"

definition hex_run :: "string \<Rightarrow> nat" where
  "hex_run s = foldl (\<lambda>acc ch. acc * 16 + the (hex_value ch)) 0 (takeWhile (\<lambda>ch. hex_value ch \<noteq> None) s)"

definition strip_0x :: "string \<Rightarrow> string" where
  "strip_0x s = (case s of a # b # r \<Rightarrow> if a = CHR ''0'' \<and> (b = CHR ''x'' \<or> b = CHR ''X'') then r else s | _ \<Rightarrow> s)"

definition parse_hex :: "string \<Rightarrow> u32 res" where
  "parse_hex s =
     (case dropWhile is_space s of
        [] \<Rightarrow> Inl Uninitialised
      | ch # r \<Rightarrow>
          (if ch = CHR ''-'' then Inr (- of_nat (hex_run (strip_0x r)))
           else if ch = CHR ''+'' then Inr (of_nat (hex_run (strip_0x r)))
           else Inr (of_nat (hex_run (strip_0x (ch # r))))))"

fun parse_pairs :: "string \<Rightarrow> u8 list res" where
  "parse_pairs (a # b # r) =
     bindR (parse_hex [a, b]) (\<lambda>byte. bindR (parse_pairs r) (\<lambda>bs. Inr (ucast byte # bs)))"
| "parse_pairs _ = Inr []"

definition stringToHashKey :: "string \<Rightarrow> ObjectKeyHash res" where
  "stringToHashKey hexString =
     (if length hexString \<noteq> 64 then Inl InvalidArgument else parse_pairs hexString)"

definition arrayToSeed :: "ObjectKeyHash \<Rightarrow> u32" where
  "arrayToSeed hashKey = foldl (\<lambda>seed b. seed * 31 + ucast b) 0 hashKey"

definition sha256 :: "(u8 list \<Rightarrow> u8 list) \<Rightarrow> string \<Rightarrow> string" where
  "sha256 H input = foldl (\<lambda>ss b. ss @ hex02 (unat b)) [] (H (string_bytes input))"

lemma hex_digits:
  "list_all (\<lambda>n. hex_value (hex_digit n) = Some n \<and> \<not> is_space (hex_digit n) \<and>
     hex_digit n \<notin> {CHR ''-'', CHR ''+'', CHR ''x'', CHR ''X''}) [0..<16]"
  by code_simp

lemma hex_digit_value [simp]: "n < 16 \<Longrightarrow> hex_value (hex_digit n) = Some n"
  using hex_digits by (simp add: list_all_iff)

lemma hex_digit_plain:
  "n < 16 \<Longrightarrow> \<not> is_space (hex_digit n) \<and> hex_digit n \<noteq> CHR ''-'' \<and> hex_digit n \<noteq> CHR ''+'' \<and>
    hex_digit n \<noteq> CHR ''x'' \<and> hex_digit n \<noteq> CHR ''X''"
  using hex_digits by (simp add: list_all_iff)

lemma hex02_byte: "n < 256 \<Longrightarrow> hex02 n = [hex_digit (n div 16), hex_digit (n mod 16)]"
  by (simp add: hex02_def hex_string.simps [of n] hex_string.simps [of "n div 16"] hex_digit_def
      less_mult_imp_div_less)

lemma parse_hex02:
  assumes "n < 256"
  shows "parse_hex (hex02 n) = Inr (of_nat n)"
proof -
  have d: "n div 16 < 16" "n mod 16 < 16" using assms by auto
  note p = hex_digit_plain [OF d(1)] hex_digit_plain [OF d(2)]
  have "strip_0x [hex_digit (n div 16), hex_digit (n mod 16)] =
      [hex_digit (n div 16), hex_digit (n mod 16)]"
    using p by (simp add: strip_0x_def)
  moreover have "hex_run [hex_digit (n div 16), hex_digit (n mod 16)] = n"
    using d by (simp add: hex_run_def)
  ultimately show ?thesis
    using p assms by (simp add: parse_hex_def hex02_byte)
qed

lemma hashToCString_Cons [simp]:
  "hashToCString (b # bs) = hex02 (unat b) @ hashToCString bs"
  by (simp add: hashToCString_def)

lemma byte_bound: "unat (b :: u8) < 256"
  using unat_bound [of b] by simp

lemma length_hashToCString: "length (hashToCString h) = 2 * length h"
  by (induction h) (simp_all add: hex02_byte [OF byte_bound], simp add: hashToCString_def)

lemma parse_pairs_hashToCString: "parse_pairs (hashToCString h) = Inr h"
proof (induction h)
  case Nil
  then show ?case by (simp add: hashToCString_def)
next
  case (Cons b bs)
  have "hex02 (unat b) = [hex_digit (unat b div 16), hex_digit (unat b mod 16)]"
    by (rule hex02_byte) (rule byte_bound)
  moreover have "parse_hex (hex02 (unat b)) = Inr (of_nat (unat b))"
    by (rule parse_hex02) (rule byte_bound)
  moreover have "ucast (of_nat (unat b) :: u32) = b"
    by simp
  ultimately show ?case using Cons by simp
qed

lemma sha256_eq: "sha256 H s = hashToCString (computeSHA256 H s)"
proof -
  have "foldl (\<lambda>ss b. ss @ hex02 (unat b)) acc bs = acc @ hashToCString bs" for acc and bs :: "u8 list"
    by (induction bs arbitrary: acc) (simp_all, simp add: hashToCString_def)
  then show ?thesis by (simp add: sha256_def computeSHA256_def)
qed

lemma arrayToSeed_horner:
  "arrayToSeed h = of_nat (\<Sum>i<length h. 31 ^ (length h - Suc i) * unat (h ! i))"
proof (induction h rule: rev_induct)
  case Nil
  then show ?case by (simp add: arrayToSeed_def)
next
  case (snoc b h)
  have "(\<Sum>i<length (h @ [b]). 31 ^ (length (h @ [b]) - Suc i) * unat ((h @ [b]) ! i))
      = (\<Sum>i<length h. 31 * (31 ^ (length h - Suc i) * unat (h ! i))) + unat b"
    by (auto simp: nth_append Suc_diff_Suc mult.assoc [symmetric] simp flip: power_Suc intro!: sum.cong)
  also have "\<dots> = 31 * (\<Sum>i<length h. 31 ^ (length h - Suc i) * unat (h ! i)) + unat b"
    by (simp add: sum_distrib_left)
  finally show ?case
    using snoc by (simp add: arrayToSeed_def mult.commute)
qed

section \<open>Log entries and objects\<close>

text \<open>
  The scoped enumeration \<^verbatim>\<open>LogEntryType\<close> has the underlying type \<open>u8\<close> and may hold any byte that
  is read from a buffer; its named values are constants.
\<close>

type_synonym LogEntryType = u8

definition kInvalid :: LogEntryType where "kInvalid = 0"
definition kData :: LogEntryType where "kData = 1"
definition kHeader :: LogEntryType where "kHeader = 2"
definition kSpliter :: LogEntryType where "kSpliter = 3"

record LogEntry =
  le_type :: LogEntryType
  next_offset :: u64
  seqnum :: u64
  chunk_seqnum :: u64
  next_entry :: u64
  le_key_size :: u16
  le_key_hash :: "u8 list"

definition new_LogEntry :: "u8 list \<Rightarrow> LogEntry" where
  "new_LogEntry junk = \<lparr>le_type = kInvalid, next_offset = 0, seqnum = 0, chunk_seqnum = 0,
     next_entry = 0, le_key_size = 0, le_key_hash = junk\<rparr>"

text \<open>\<open>sizeof(LogEntry)\<close> is 112: a byte, 7 of padding, four 8-byte words, a 2-byte word, 65
  characters and 5 of padding.\<close>

definition sizeof_LogEntry :: nat where "sizeof_LogEntry = 112"
definition sizeof_ZstoreObject :: nat where "sizeof_ZstoreObject = 200"

definition LogEntry_size :: "u32 \<Rightarrow> u64" where
  "LogEntry_size value_size = of_nat sizeof_LogEntry + ucast value_size"

definition ZstoreObject_size :: "u16 \<Rightarrow> u64 \<Rightarrow> u64" where
  "ZstoreObject_size o_key_size o_datalen = of_nat sizeof_ZstoreObject + ucast o_key_size + o_datalen"

definition pad_to :: "nat \<Rightarrow> u8 list \<Rightarrow> u8 list" where
  "pad_to n xs = take n (xs @ replicate n 0)"

lemma length_pad_to [simp, codec_simps]: "length (pad_to n xs) = n"
  by (simp add: pad_to_def)

definition encode_LogEntry :: "u8 list \<Rightarrow> LogEntry \<Rightarrow> u8 list" where
  "encode_LogEntry pad e =
     [le_type e] @ pad_to 7 pad @ le64 (next_offset e) @ le64 (seqnum e) @ le64 (chunk_seqnum e) @
     le64 (next_entry e) @ le16 (le_key_size e) @ le_key_hash e @ pad_to 5 pad"

definition decode_LogEntry :: "u8 list \<Rightarrow> LogEntry" where
  "decode_LogEntry bs =
     \<lparr>le_type = bs ! 0, next_offset = un_le64 (take 8 (drop 8 bs)),
      seqnum = un_le64 (take 8 (drop 16 bs)), chunk_seqnum = un_le64 (take 8 (drop 24 bs)),
      next_entry = un_le64 (take 8 (drop 32 bs)), le_key_size = un_le16 (take 2 (drop 40 bs)),
      le_key_hash = take 65 (drop 42 bs)\<rparr>"

definition LogEntry_wf :: "LogEntry \<Rightarrow> bool" where
  "LogEntry_wf e \<longleftrightarrow> length (le_key_hash e) = 65"

lemma length_encode_LogEntry [codec_simps]:
  "LogEntry_wf e \<Longrightarrow> length (encode_LogEntry pad e) = sizeof_LogEntry"
  by (simp add: encode_LogEntry_def LogEntry_wf_def sizeof_LogEntry_def)

lemma decode_encode_LogEntry: "LogEntry_wf e \<Longrightarrow> decode_LogEntry (encode_LogEntry pad e) = e"
  by (simp add: decode_LogEntry_def encode_LogEntry_def LogEntry_wf_def)

interpretation log_codec: codec "encode_LogEntry pad" decode_LogEntry sizeof_LogEntry LogEntry_wf for pad
  by unfold_locales (simp_all add: length_encode_LogEntry decode_encode_LogEntry)

interpretation u64_codec: codec le64 un_le64 8 "\<lambda>_. True"
  by unfold_locales simp_all

interpretation u16_codec: codec le16 un_le16 2 "\<lambda>_. True"
  by unfold_locales simp_all

text \<open>The body is a raw pointer: null, a live allocation with its bytes, or freed.\<close>

datatype body_ptr = NullBody | HeapBody "u8 list" | FreedBody

record ZstoreObject =
  o_entry :: LogEntry
  o_datalen :: u64
  o_body :: body_ptr
  o_key_size :: u16
  o_key_hash :: "u8 list"

definition new_ZstoreObject :: "u8 list \<Rightarrow> ZstoreObject" where
  "new_ZstoreObject junk = \<lparr>o_entry = new_LogEntry junk, o_datalen = 0, o_body = NullBody, o_key_size = 0,
     o_key_hash = junk\<rparr>"

definition object_wf :: "ZstoreObject \<Rightarrow> bool" where
  "object_wf obj \<longleftrightarrow> LogEntry_wf (o_entry obj) \<and> length (o_key_hash obj) = 65 \<and>
     (case o_body obj of HeapBody b \<Rightarrow> unat (o_datalen obj) = length b \<and> b \<noteq> []
      | NullBody \<Rightarrow> o_datalen obj = 0 | FreedBody \<Rightarrow> False)"

text \<open>\<open>malloc_ok n\<close> tells whether \<^verbatim>\<open>malloc(n)\<close> succeeds; \<open>buf\<close> is the memory behind the pointer and
  \<open>buffer_size\<close> what the caller says of it.\<close>

definition ReadBufferToZstoreObject ::
  "(u64 \<Rightarrow> bool) \<Rightarrow> u8 list \<Rightarrow> u64 \<Rightarrow> ZstoreObject \<Rightarrow> (bool \<times> ZstoreObject) res" where
  "ReadBufferToZstoreObject malloc_ok buf buffer_size obj0 =
     (if buffer_size < of_nat sizeof_LogEntry then Inr (False, obj0)
      else bindR (mem_read buf 0 sizeof_LogEntry) (\<lambda>e.
        let obj1 = obj0\<lparr>o_entry := decode_LogEntry e\<rparr> in
        bindR (mem_read buf 112 65) (\<lambda>kh.
          let obj2 = obj1\<lparr>o_key_hash := kh\<rparr> in
          if 177 + 2 > buffer_size then Inr (False, obj2)
          else bindR (mem_read buf 177 2) (\<lambda>ks.
            let obj3 = obj2\<lparr>o_key_size := un_le16 ks\<rparr> in
            if 179 + 8 > buffer_size then Inr (False, obj3)
            else bindR (mem_read buf 179 8) (\<lambda>dl.
              let n = un_le64 dl; obj4 = obj3\<lparr>o_datalen := n\<rparr> in
              if n > 0 then
                (if \<not> malloc_ok n then Inr (False, obj4\<lparr>o_body := NullBody\<rparr>)
                 else if 187 + n > buffer_size then Inr (False, obj4\<lparr>o_body := FreedBody\<rparr>)
                 else bindR (mem_read buf 187 (unat n)) (\<lambda>b.
                        Inr (True, obj4\<lparr>o_body := HeapBody b\<rparr>)))
              else Inr (True, obj4))))))"

definition WriteZstoreObjectToBuffer :: "u8 list \<Rightarrow> ZstoreObject \<Rightarrow> u8 list res" where
  "WriteZstoreObjectToBuffer pad obj =
     (let total_size = of_nat sizeof_LogEntry + 65 + 2 + 8 + o_datalen obj;
          buffer = replicate (unat total_size) 0
      in bindR (mem_write buffer 0 (encode_LogEntry pad (o_entry obj))) (\<lambda>buffer.
         bindR (mem_write buffer 112 (o_key_hash obj)) (\<lambda>buffer.
         bindR (mem_write buffer 177 (le16 (o_key_size obj))) (\<lambda>buffer.
         bindR (mem_write buffer 179 (le64 (o_datalen obj))) (\<lambda>buffer.
         if o_datalen obj > 0 \<and> o_body obj \<noteq> NullBody
         then (case o_body obj of
                 HeapBody b \<Rightarrow> bindR (mem_read b 0 (unat (o_datalen obj))) (mem_write buffer 187)
               | _ \<Rightarrow> Inl UseAfterFree)
         else Inr buffer)))))"

text \<open>The bytes of the fixed part, in the order the code writes them.\<close>

definition object_header :: "u8 list \<Rightarrow> ZstoreObject \<Rightarrow> u8 list" where
  "object_header pad obj =
     encode_LogEntry pad (o_entry obj) @ o_key_hash obj @ le16 (o_key_size obj) @ le64 (o_datalen obj)"

definition body_bytes :: "ZstoreObject \<Rightarrow> u8 list" where
  "body_bytes obj = (case o_body obj of HeapBody b \<Rightarrow> b | _ \<Rightarrow> [])"

lemma length_object_header: "object_wf obj \<Longrightarrow> length (object_header pad obj) = 187"
  by (simp add: object_header_def object_wf_def length_encode_LogEntry sizeof_LogEntry_def)

lemma WriteZstoreObjectToBuffer_eq:
  assumes wf: "object_wf obj" and fits: "187 + unat (o_datalen obj) < 2 ^ 64"
  shows "WriteZstoreObjectToBuffer pad obj = Inr (object_header pad obj @ body_bytes obj)"
proof -
  let ?n = "unat (o_datalen obj)"
  let ?e = "encode_LogEntry pad (o_entry obj)"
  let ?h = "?e @ o_key_hash obj"
  have total: "unat (of_nat sizeof_LogEntry + 65 + 2 + 8 + o_datalen obj) = 187 + ?n"
    using fits by (simp add: sizeof_LogEntry_def unat_word_ariths(1))
  have le: "length ?e = 112" "length (o_key_hash obj) = 65"
    using wf by (simp_all add: object_wf_def length_encode_LogEntry sizeof_LogEntry_def)
  have w1: "mem_write (replicate (187 + ?n) 0) 0 ?e = Inr (?e @ replicate (75 + ?n) 0)"
    using mem_write_fresh [of "[]" 0 ?e "187 + ?n" 0] le by simp
  have w2: "mem_write (?e @ replicate (75 + ?n) 0) 112 (o_key_hash obj) = Inr (?h @ replicate (10 + ?n) 0)"
    using mem_write_fresh [of ?e 112 "o_key_hash obj" "75 + ?n" 0] le by simp
  have w3: "mem_write (?h @ replicate (10 + ?n) 0) 177 (le16 (o_key_size obj)) =
      Inr ((?h @ le16 (o_key_size obj)) @ replicate (8 + ?n) 0)"
    using mem_write_fresh [of ?h 177 "le16 (o_key_size obj)" "10 + ?n" 0] le by simp
  have w4: "mem_write ((?h @ le16 (o_key_size obj)) @ replicate (8 + ?n) 0) 179 (le64 (o_datalen obj)) =
      Inr (object_header pad obj @ replicate ?n 0)"
    using mem_write_fresh [of "?h @ le16 (o_key_size obj)" 179 "le64 (o_datalen obj)" "8 + ?n" 0] le
    by (simp add: object_header_def)
  have red: "WriteZstoreObjectToBuffer pad obj =
      (let buffer = object_header pad obj @ replicate ?n 0 in
       if o_datalen obj > 0 \<and> o_body obj \<noteq> NullBody
       then (case o_body obj of
               HeapBody b \<Rightarrow> bindR (mem_read b 0 ?n) (mem_write buffer 187)
             | _ \<Rightarrow> Inl UseAfterFree)
       else Inr buffer)"
    by (simp only: WriteZstoreObjectToBuffer_def Let_def total w1 w2 w3 w4 bindR_Inr)
  show ?thesis
  proof (cases "o_body obj")
    case (HeapBody b)
    then have b: "length b = ?n" "b \<noteq> []" "o_datalen obj > 0"
      using wf by (auto simp: object_wf_def word_less_nat_alt)
    have "mem_write (object_header pad obj @ replicate ?n 0) 187 b = Inr (object_header pad obj @ b)"
      using mem_write_fresh_all [of "object_header pad obj" 187 b ?n 0] length_object_header [OF wf] b(1)
      by simp
    then show ?thesis
      using HeapBody b by (simp add: red mem_read_def body_bytes_def)
  next
    case NullBody
    then have "?n = 0" using wf by (simp add: object_wf_def)
    then show ?thesis
      using NullBody by (simp add: red body_bytes_def)
  next
    case FreedBody
    then show ?thesis using wf by (simp add: object_wf_def)
  qed
qed

text \<open>The four fixed reads of \<^verbatim>\<open>ReadBufferToZstoreObject\<close> on a written buffer.\<close>

lemma object_header_reads:
  assumes "object_wf obj"
  shows "mem_read (object_header pad obj @ rest) 0 112 = Inr (encode_LogEntry pad (o_entry obj))"
    and "mem_read (object_header pad obj @ rest) 112 65 = Inr (o_key_hash obj)"
    and "mem_read (object_header pad obj @ rest) 177 2 = Inr (le16 (o_key_size obj))"
    and "mem_read (object_header pad obj @ rest) 179 8 = Inr (le64 (o_datalen obj))"
    and "mem_read (object_header pad obj @ b) 187 (length b) = Inr b"
proof -
  let ?e = "encode_LogEntry pad (o_entry obj)"
  have l: "length ?e = 112" "length (o_key_hash obj) = 65"
    using assms by (simp_all add: object_wf_def length_encode_LogEntry sizeof_LogEntry_def)
  show "mem_read (object_header pad obj @ rest) 0 112 = Inr ?e"
    unfolding object_header_def append_assoc by (rule mem_read_prefix) (rule l(1))
  show "mem_read (object_header pad obj @ rest) 112 65 = Inr (o_key_hash obj)"
    unfolding object_header_def append_assoc by (rule mem_read_append) (simp_all add: l)
  show "mem_read (object_header pad obj @ rest) 177 2 = Inr (le16 (o_key_size obj))"
    using u16_codec.read_enc [where x = "o_key_size obj" and xs = "?e @ o_key_hash obj" and
        off = 177 and ys = "le64 (o_datalen obj) @ rest"] l
    by (simp add: object_header_def)
  show "mem_read (object_header pad obj @ rest) 179 8 = Inr (le64 (o_datalen obj))"
    using u64_codec.read_enc [where x = "o_datalen obj" and xs = "?e @ o_key_hash obj @ le16 (o_key_size obj)"
        and off = 179 and ys = rest] l
    by (simp add: object_header_def)
  show "mem_read (object_header pad obj @ b) 187 (length b) = Inr b"
    using mem_read_append [of "object_header pad obj" 187 b "length b" "[]"]
      length_object_header [OF assms] by simp
qed

lemma Read_written_object:
  assumes wf: "object_wf obj" and fits: "187 + unat (o_datalen obj) < 2 ^ 64"
    and malloc: "malloc_ok (o_datalen obj)"
  shows "ReadBufferToZstoreObject malloc_ok (object_header pad obj @ body_bytes obj)
      (of_nat (187 + unat (o_datalen obj))) obj0 =
    Inr (True, if o_body obj = NullBody then obj\<lparr>o_body := o_body obj0\<rparr> else obj)"
proof -
  note r = object_header_reads [OF wf, of pad]
  have dec: "decode_LogEntry (encode_LogEntry pad (o_entry obj)) = o_entry obj"
    using wf by (simp add: object_wf_def decode_encode_LogEntry)
  have size: "of_nat (187 + unat (o_datalen obj)) = 187 + o_datalen obj" by simp
  have ge: "(112 :: u64) \<le> 187 + o_datalen obj" "(179 :: u64) \<le> 187 + o_datalen obj"
      "(187 :: u64) \<le> 187 + o_datalen obj"
    using fits by (simp_all add: word_le_nat_alt unat_word_ariths(1))
  let ?buf = "object_header pad obj @ body_bytes obj"
  let ?o = "obj0\<lparr>o_entry := o_entry obj, o_key_hash := o_key_hash obj, o_key_size := o_key_size obj,
      o_datalen := o_datalen obj\<rparr>"
  have nl: "\<not> 187 + o_datalen obj < 112" "\<not> 187 + o_datalen obj < 177 + 2" "\<not> 187 + o_datalen obj < 179 + 8"
    using ge by (simp_all add: not_less)
  have red: "ReadBufferToZstoreObject malloc_ok ?buf (187 + o_datalen obj) obj0 =
      (if o_datalen obj > 0 then bindR (mem_read ?buf 187 (unat (o_datalen obj))) (\<lambda>b.
         Inr (True, ?o\<lparr>o_body := HeapBody b\<rparr>)) else Inr (True, ?o))"
    by (simp only: ReadBufferToZstoreObject_def sizeof_LogEntry_def of_nat_numeral nl if_False Let_def
        r(1-4) bindR_Inr dec un_le16_le16 un_le64_le64 malloc not_True_eq_False order.irrefl)
  have upd: "obj0\<lparr>o_entry := o_entry obj, o_key_hash := o_key_hash obj, o_key_size := o_key_size obj,
      o_datalen := o_datalen obj, o_body := o_body obj\<rparr> = obj"
    by (cases obj0; cases obj) simp
  have upd0: "obj0\<lparr>o_entry := o_entry obj, o_key_hash := o_key_hash obj, o_key_size := o_key_size obj,
      o_datalen := 0\<rparr> = obj\<lparr>o_body := o_body obj0\<rparr>" if "o_datalen obj = 0"
    using that by (cases obj0; cases obj) simp
  show ?thesis
  proof (cases "o_body obj")
    case (HeapBody b)
    then have b: "length b = unat (o_datalen obj)" "o_datalen obj > 0"
      using wf by (auto simp: object_wf_def word_less_nat_alt)
    then have rb: "mem_read (object_header pad obj @ b) 187 (unat (o_datalen obj)) = Inr b"
      using r(5) [of b] by simp
    show ?thesis
      unfolding size red using HeapBody b(2) rb upd by (simp add: body_bytes_def)
  next
    case NullBody
    then have "o_datalen obj = 0" using wf by (simp add: object_wf_def)
    then show ?thesis
      unfolding size red using NullBody upd0 by simp
  next
    case FreedBody
    then show ?thesis using wf by (simp add: object_wf_def)
  qed
qed

text \<open>Faults of the reader: none on a buffer of the stated size that is too small for a log entry or
  holds at least entry and key hash; an out-of-bounds read in between.\<close>

lemma mem_read_within: "off + n \<le> length buf \<Longrightarrow> \<exists>bs. mem_read buf off n = Inr bs \<and> length bs = n"
  by (auto simp: mem_read_def)

lemma Read_no_fault:
  assumes len: "length buf = unat buffer_size" and small: "unat buffer_size < 2 ^ 63"
    and malloc: "\<And>n. malloc_ok n \<Longrightarrow> unat n < 2 ^ 63"
    and range: "buffer_size < 112 \<or> 177 \<le> buffer_size"
  shows "\<exists>ok obj. ReadBufferToZstoreObject malloc_ok buf buffer_size obj0 = Inr (ok, obj)"
proof (cases "buffer_size < 112")
  case True
  then show ?thesis by (auto simp: ReadBufferToZstoreObject_def sizeof_LogEntry_def)
next
  case False
  then have n: "177 \<le> length buf" "\<not> buffer_size < 112"
    using range len by (simp_all add: word_le_nat_alt)
  obtain e kh where r1: "mem_read buf 0 112 = Inr e" "mem_read buf 112 65 = Inr kh"
    using n(1) mem_read_within [of 0 112 buf] mem_read_within [of 112 65 buf] by auto
  show ?thesis
  proof (cases "187 \<le> length buf")
    case False
    obtain ks where "179 \<le> length buf \<longrightarrow> mem_read buf 177 2 = Inr ks"
      using mem_read_within [of 177 2 buf] by auto
    then show ?thesis
      using False n r1 len
      by (auto simp: ReadBufferToZstoreObject_def sizeof_LogEntry_def Let_def word_le_nat_alt word_less_nat_alt)
  next
    case True
    obtain ks dl where r2: "mem_read buf 177 2 = Inr ks" "mem_read buf 179 8 = Inr dl"
      using True mem_read_within [of 177 2 buf] mem_read_within [of 179 8 buf] by auto
    let ?n = "un_le64 dl"
    have "187 + unat ?n \<le> length buf" if "malloc_ok ?n" "\<not> buffer_size < 187 + ?n"
    proof -
      have "unat (187 + ?n) = 187 + unat ?n"
        using malloc [OF that(1)] by (simp add: unat_word_ariths(1))
      then show ?thesis using that(2) len by (simp add: word_less_nat_alt)
    qed
    then have "\<exists>bs. malloc_ok ?n \<longrightarrow> \<not> buffer_size < 187 + ?n \<longrightarrow> mem_read buf 187 (unat ?n) = Inr bs"
      using mem_read_within by blast
    then show ?thesis
      using True n r1 r2 len
      by (auto simp: ReadBufferToZstoreObject_def sizeof_LogEntry_def Let_def word_less_nat_alt)
  qed
qed

lemma Read_key_hash_out_of_bounds:
  assumes "length buf = unat buffer_size" and "112 \<le> buffer_size" and "buffer_size < 177"
  shows "ReadBufferToZstoreObject malloc_ok buf buffer_size obj0 = Inl OutOfBounds"
  using assms by (simp add: ReadBufferToZstoreObject_def sizeof_LogEntry_def mem_read_def
      word_le_nat_alt word_less_nat_alt)

section \<open>Chunk lists\<close>

text \<open>\<^verbatim>\<open>std::map<u64, LbaTuple>\<close>: an association list in increasing key order.\<close>

type_synonym ChunkList = "(u64 \<times> u64 \<times> u32) list"

definition chunk_list_wf :: "ChunkList \<Rightarrow> bool" where
  "chunk_list_wf m \<longleftrightarrow> sorted_wrt (<) (map fst m)"

fun cl_insert :: "u64 \<Rightarrow> u64 \<times> u32 \<Rightarrow> ChunkList \<Rightarrow> ChunkList" where
  "cl_insert k v [] = [(k, v)]"
| "cl_insert k v ((k', v') # r) =
     (if k < k' then (k, v) # (k', v') # r
      else if k = k' then (k, v) # r
      else (k', v') # cl_insert k v r)"

fun write_chunks :: "nat \<Rightarrow> ChunkList \<Rightarrow> u8 list \<Rightarrow> u8 list res" where
  "write_chunks off [] buf = Inr buf"
| "write_chunks off ((key, first, second) # r) buf =
     bindR (mem_write buf off (le64 key)) (\<lambda>buf.
     bindR (mem_write buf (off + 8) (le64 first)) (\<lambda>buf.
     bindR (mem_write buf (off + 16) (le64 (ucast second))) (\<lambda>buf.
       write_chunks (off + 24) r buf)))"

text \<open>\<open>junk\<close> is what \<^verbatim>\<open>malloc\<close> returned.\<close>

definition serializeMap :: "conf \<Rightarrow> u8 list \<Rightarrow> ChunkList \<Rightarrow> u64 \<Rightarrow> u8 list res" where
  "serializeMap c junk m bufferSize =
     bindR (cassert (bufferSize = gChunkSize c)) (\<lambda>_.
     bindR (mem_write (pad_to (unat bufferSize) junk) 0 (le64 (of_nat (length m))))
       (write_chunks 8 m))"

fun read_chunks :: "nat \<Rightarrow> nat \<Rightarrow> u8 list \<Rightarrow> ChunkList \<Rightarrow> ChunkList res" where
  "read_chunks 0 off buf m = Inr m"
| "read_chunks (Suc n) off buf m =
     bindR (mem_read buf off 8) (\<lambda>key.
     bindR (mem_read buf (off + 8) 8) (\<lambda>first.
     bindR (mem_read buf (off + 16) 8) (\<lambda>second.
       read_chunks n (off + 24) buf
         (cl_insert (un_le64 key) (un_le64 first, ucast (un_le64 second)) m))))"

definition deserializeMap :: "u8 list \<Rightarrow> ChunkList res" where
  "deserializeMap buffer =
     bindR (mem_read buffer 0 8) (\<lambda>mapSize. read_chunks (unat (un_le64 mapSize)) 8 buffer [])"

fun dummy_chunks :: "conf \<Rightarrow> nat \<Rightarrow> ChunkList" where
  "dummy_chunks c 0 = []"
| "dummy_chunks c (Suc n) = cl_insert (of_nat n) (of_nat n, ucast (gChunkSize c)) (dummy_chunks c n)"

definition deserializeDummyMap :: "conf \<Rightarrow> string \<Rightarrow> u64 \<Rightarrow> ChunkList" where
  "deserializeDummyMap c data num_chunks = dummy_chunks c (unat num_chunks)"

definition encode_chunk :: "u64 \<times> u64 \<times> u32 \<Rightarrow> u8 list" where
  "encode_chunk x = (case x of (key, first, second) \<Rightarrow> le64 key @ le64 first @ le64 (ucast second))"

definition decode_chunk :: "u8 list \<Rightarrow> u64 \<times> u64 \<times> u32" where
  "decode_chunk bs = (un_le64 (take 8 bs), un_le64 (take 8 (drop 8 bs)), ucast (un_le64 (drop 16 bs)))"

interpretation chunk_codec: codec encode_chunk decode_chunk 24 "\<lambda>_. True"
  by unfold_locales (auto simp: encode_chunk_def decode_chunk_def)

lemma write_chunks_eq:
  "length pre = off \<Longrightarrow> 24 * length m \<le> length rest \<Longrightarrow>
   write_chunks off m (pre @ rest) = Inr (pre @ concat (map encode_chunk m) @ drop (24 * length m) rest)"
proof (induction m arbitrary: off pre rest)
  case Nil
  then show ?case by simp
next
  case (Cons x m)
  obtain key first second where x: "x = (key, first, second)" by (cases x)
  define r1 r2 r3 r4 where rs: "r1 = take 8 rest" "r2 = take 8 (drop 8 rest)"
    "r3 = take 8 (drop 16 rest)" "r4 = drop 24 rest"
  have "drop 16 rest = r3 @ r4"
    using append_take_drop_id [of 8 "drop 16 rest"] by (simp add: rs)
  then have "drop 8 rest = r2 @ r3 @ r4"
    using append_take_drop_id [of 8 "drop 8 rest"] by (simp add: rs)
  then have rest: "rest = r1 @ r2 @ r3 @ r4"
    using append_take_drop_id [of 8 rest] by (simp add: rs)
  have len: "length r1 = 8" "length r2 = 8" "length r3 = 8" "24 * length m \<le> length r4"
    using Cons.prems(2) by (simp_all add: rs)
  have w1: "mem_write (pre @ rest) off (le64 key) = Inr ((pre @ le64 key) @ r2 @ r3 @ r4)"
    using mem_write_append [of r1 "le64 key" pre off "r2 @ r3 @ r4"] len Cons.prems(1) by (simp add: rest)
  have w2: "mem_write ((pre @ le64 key) @ r2 @ r3 @ r4) (off + 8) (le64 first) =
      Inr ((pre @ le64 key @ le64 first) @ r3 @ r4)"
    using mem_write_append [of r2 "le64 first" "pre @ le64 key" "off + 8" "r3 @ r4"] len Cons.prems(1) by simp
  have w3: "mem_write ((pre @ le64 key @ le64 first) @ r3 @ r4) (off + 16) (le64 (ucast second)) =
      Inr ((pre @ encode_chunk x) @ r4)"
    using mem_write_append [of r3 "le64 (ucast second)" "pre @ le64 key @ le64 first" "off + 16" r4]
      len Cons.prems(1) by (simp add: x encode_chunk_def)
  have "write_chunks (off + 24) m ((pre @ encode_chunk x) @ r4) =
      Inr ((pre @ encode_chunk x) @ concat (map encode_chunk m) @ drop (24 * length m) r4)"
    using Cons.prems(1) len(4) by (intro Cons.IH) (simp_all add: chunk_codec.length_enc)
  then have "write_chunks off (x # m) (pre @ rest) =
      Inr ((pre @ encode_chunk x) @ concat (map encode_chunk m) @ drop (24 * length m) r4)"
    by (simp only: x write_chunks.simps w1 w2 w3 [unfolded x] bindR_Inr)
  then show ?case by (simp add: rs add.commute)
qed

lemma read_chunks_eq:
  "length pre = off \<Longrightarrow>
   read_chunks (length m) off (pre @ concat (map encode_chunk m) @ rest) acc =
     Inr (foldl (\<lambda>acc (k, v). cl_insert k v acc) acc m)"
proof (induction m arbitrary: off pre acc)
  case Nil
  then show ?case by simp
next
  case (Cons x m)
  obtain key first second where x: "x = (key, first, second)" by (cases x)
  let ?tl = "concat (map encode_chunk m) @ rest"
  let ?buf = "pre @ concat (map encode_chunk (x # m)) @ rest"
  have buf: "?buf = pre @ le64 key @ le64 first @ le64 (ucast second) @ ?tl"
    by (simp add: x encode_chunk_def)
  have r1: "mem_read ?buf off 8 = Inr (le64 key)"
    unfolding buf using Cons.prems by (intro u64_codec.read_enc) simp
  have r2: "mem_read ?buf (off + 8) 8 = Inr (le64 first)"
    unfolding buf using u64_codec.read_enc [where x = first and xs = "pre @ le64 key" and off = "off + 8"]
      Cons.prems by simp
  have r3: "mem_read ?buf (off + 16) 8 = Inr (le64 (ucast second))"
    unfolding buf using u64_codec.read_enc [where x = "ucast second" and xs = "pre @ le64 key @ le64 first"
        and off = "off + 16"] Cons.prems by simp
  have "read_chunks (length m) (off + 24) ((pre @ encode_chunk x) @ ?tl) (cl_insert key (first, second) acc) =
      Inr (foldl (\<lambda>acc (k, v). cl_insert k v acc) (cl_insert key (first, second) acc) m)"
    using Cons.prems by (intro Cons.IH) (simp add: chunk_codec.length_enc)
  moreover have "(pre @ encode_chunk x) @ ?tl = ?buf" by simp
  ultimately show ?case
    by (simp only: length_Cons read_chunks.simps r1 r2 r3 bindR_Inr un_le64_le64 ucast_back) (simp add: x)
qed

lemma cl_insert_last:
  "\<forall>x \<in> set m. fst x < k \<Longrightarrow> cl_insert k v m = m @ [(k, v)]"
  by (induction m) auto

lemma foldl_cl_insert:
  "chunk_list_wf (acc @ m) \<Longrightarrow> foldl (\<lambda>acc (k, v). cl_insert k v acc) acc m = acc @ m"
proof (induction m arbitrary: acc)
  case Nil
  then show ?case by simp
next
  case (Cons x m)
  have "cl_insert (fst x) (snd x) acc = acc @ [x]"
    using Cons.prems by (subst cl_insert_last) (auto simp: chunk_list_wf_def sorted_wrt_append)
  moreover have "chunk_list_wf ((acc @ [x]) @ m)" using Cons.prems by simp
  ultimately show ?case using Cons.IH by (simp add: case_prod_beta)
qed

lemma serializeMap_eq:
  assumes "bufferSize = gChunkSize c" and "8 + 24 * length m \<le> unat bufferSize"
  shows "\<exists>rest. serializeMap c junk m bufferSize =
      Inr (le64 (of_nat (length m)) @ concat (map encode_chunk m) @ rest) \<and>
    length (le64 (of_nat (length m)) @ concat (map encode_chunk m) @ rest) = unat bufferSize"
proof -
  define buf where "buf = pad_to (unat bufferSize) junk"
  have len: "length buf = unat bufferSize" by (simp add: buf_def)
  have "mem_write buf 0 (le64 (of_nat (length m))) = Inr (le64 (of_nat (length m)) @ drop 8 buf)"
    using assms(2) len by (simp add: mem_write_def)
  moreover have "write_chunks 8 m (le64 (of_nat (length m)) @ drop 8 buf) =
      Inr (le64 (of_nat (length m)) @ concat (map encode_chunk m) @ drop (24 * length m) (drop 8 buf))"
    using assms(2) len by (intro write_chunks_eq) simp_all
  moreover have "length (concat (map encode_chunk m)) = 24 * length m"
    by (rule chunk_codec.length_enc_seq) (simp add: list_all_iff)
  moreover have "cassert (bufferSize = gChunkSize c) = Inr ()" using assms(1) by simp
  ultimately show ?thesis
    using assms(2) len
    by (intro exI [of _ "drop (24 * length m) (drop 8 buf)"])
       (simp add: serializeMap_def flip: buf_def)
qed

lemma deserializeMap_eq:
  assumes "chunk_list_wf m" and "length m < 2 ^ 64"
  shows "deserializeMap (le64 (of_nat (length m)) @ concat (map encode_chunk m) @ rest) = Inr m"
  using assms read_chunks_eq [of "le64 (of_nat (length m))" 8 m rest "[]"] foldl_cl_insert [of "[]" m]
  by (simp add: deserializeMap_def unat_of_nat)

section \<open>Splitting objects into chunks\<close>

text \<open>
  \<open>b\<close> is the body of the object; chunk \<open>i\<close> copies the bytes from \<open>i * chunk.datalen\<close> on.
  \<open>malloc_ok\<close> as above; the result of \<^verbatim>\<open>malloc\<close> is not checked by the code.
\<close>

fun split_loop ::
  "conf \<Rightarrow> (u64 \<Rightarrow> bool) \<Rightarrow> u8 list \<Rightarrow> ZstoreObject \<Rightarrow> u8 list \<Rightarrow> nat \<Rightarrow> nat \<Rightarrow> u64 \<Rightarrow> ZstoreObject list res" where
  "split_loop c malloc_ok junk obj b i 0 remaining = Inr []"
| "split_loop c malloc_ok junk obj b i (Suc n) remaining =
     (let (dl, remaining') =
            (if remaining \<ge> gChunkSize c then (gChunkSize c, remaining - gChunkSize c)
             else (remaining, remaining))
      in if \<not> malloc_ok dl then Inl NullDeref
         else bindR (mem_read b (i * unat dl) (unat dl)) (\<lambda>bs.
           let chunk = (new_ZstoreObject junk)\<lparr>
                 o_entry := (new_LogEntry junk)\<lparr>le_type := kData, seqnum := seqnum (o_entry obj),
                            chunk_seqnum := of_nat i + 1\<rparr>,
                 o_datalen := dl, o_body := HeapBody bs, o_key_size := o_key_size obj\<rparr>
           in bindR (split_loop c malloc_ok junk obj b (Suc i) n remaining') (\<lambda>r. Inr (chunk # r))))"

definition splitObjectIntoChunks ::
  "conf \<Rightarrow> (u64 \<Rightarrow> bool) \<Rightarrow> u8 list \<Rightarrow> ZstoreObject \<Rightarrow> ZstoreObject list res" where
  "splitObjectIntoChunks c malloc_ok junk obj =
     bindR (cassert (o_datalen obj = ucast (gObjectSizeInBytes c))) (\<lambda>_.
       if gChunkSize c = 0 then Inl DivByZero
       else let num_chunks = unat (o_datalen obj div gChunkSize c) in
            if num_chunks = 0 then Inr []
            else case o_body obj of
              NullBody \<Rightarrow> Inl NullDeref
            | FreedBody \<Rightarrow> Inl UseAfterFree
            | HeapBody b \<Rightarrow> split_loop c malloc_ok junk obj b 0 num_chunks (o_datalen obj))"

text \<open>\<^verbatim>\<open>mergeChunksIntoObject\<close> takes the body by value and its code is commented out: the caller's
  body does not change.\<close>

definition mergeChunksIntoObject :: "'ctx list \<Rightarrow> string \<Rightarrow> string" where
  "mergeChunksIntoObject chunk_vec req_body = req_body"

text \<open>The i-th chunk a split produces: one slice of the body.\<close>

definition chunk_of :: "conf \<Rightarrow> u8 list \<Rightarrow> ZstoreObject \<Rightarrow> u8 list \<Rightarrow> nat \<Rightarrow> ZstoreObject" where
  "chunk_of c junk obj b i = (new_ZstoreObject junk)\<lparr>
     o_entry := (new_LogEntry junk)\<lparr>le_type := kData, seqnum := seqnum (o_entry obj),
                chunk_seqnum := of_nat i + 1\<rparr>,
     o_datalen := gChunkSize c,
     o_body := HeapBody (take (unat (gChunkSize c)) (drop (i * unat (gChunkSize c)) b)),
     o_key_size := o_key_size obj\<rparr>"

lemma split_loop_eq:
  assumes "malloc_ok (gChunkSize c)"
    and "unat remaining \<ge> n * unat (gChunkSize c)" and "(i + n) * unat (gChunkSize c) \<le> length b"
  shows "split_loop c malloc_ok junk obj b i n remaining = Inr (map (chunk_of c junk obj b) [i..<i + n])"
  using assms(2,3)
proof (induction n arbitrary: i remaining)
  case 0
  then show ?case by simp
next
  case (Suc n)
  let ?k = "unat (gChunkSize c)"
  have ge: "gChunkSize c \<le> remaining"
    using Suc.prems(1) by (simp add: word_le_nat_alt)
  then have "unat (remaining - gChunkSize c) = unat remaining - ?k"
    by (rule unat_sub)
  then have "split_loop c malloc_ok junk obj b (Suc i) n (remaining - gChunkSize c) =
      Inr (map (chunk_of c junk obj b) [Suc i..<Suc i + n])"
    using Suc.prems by (intro Suc.IH) simp_all
  moreover have "mem_read b (i * ?k) ?k = Inr (take ?k (drop (i * ?k) b))"
    using Suc.prems(2) by (simp add: mem_read_def algebra_simps)
  moreover have "[i..<i + Suc n] = i # [Suc i..<Suc i + n]"
    by (simp add: upt_conv_Cons)
  ultimately show ?case
    using ge assms(1) by (simp add: chunk_of_def Let_def)
qed

lemma splitObjectIntoChunks_eq:
  assumes "o_datalen obj = ucast (gObjectSizeInBytes c)" and "0 < gChunkSize c"
    and "o_body obj = HeapBody b" and "length b = unat (o_datalen obj)" and "malloc_ok (gChunkSize c)"
  shows "splitObjectIntoChunks c malloc_ok junk obj =
    Inr (map (chunk_of c junk obj b) [0..<unat (o_datalen obj) div unat (gChunkSize c)])"
proof -
  let ?n = "unat (o_datalen obj) div unat (gChunkSize c)"
  have "split_loop c malloc_ok junk obj b 0 ?n (o_datalen obj) = Inr (map (chunk_of c junk obj b) [0..<0 + ?n])"
    using assms(4,5) by (intro split_loop_eq) simp_all
  moreover have "gChunkSize c \<noteq> 0" using assms(2) by auto
  ultimately show ?thesis
    using assms(1,3) by (simp add: splitObjectIntoChunks_def unat_div_distrib Let_def)
qed

lemma concat_chunk_bodies:
  assumes "n * unat (gChunkSize c) \<le> length b"
  shows "concat (map body_bytes (map (chunk_of c junk obj b) [0..<n])) = take (n * unat (gChunkSize c)) b"
  using concat_slices [OF assms] by (simp add: chunk_of_def body_bytes_def comp_def)

section \<open>Properties\<close>

definition ex_object :: "u8 list \<Rightarrow> ZstoreObject" where
  "ex_object b = \<lparr>o_entry = (new_LogEntry (replicate 65 0))\<lparr>le_type := kData, seqnum := 42, chunk_seqnum := 24\<rparr>,
     o_datalen = of_nat (length b), o_body = HeapBody b, o_key_size = 32, o_key_hash = replicate 65 7\<rparr>"

lemma ex_object_wf: "b \<noteq> [] \<Longrightarrow> length b < 2 ^ 64 \<Longrightarrow> object_wf (ex_object b)"
  by (simp add: object_wf_def ex_object_def LogEntry_wf_def new_LogEntry_def unat_of_nat)

text \<open>
  (C11) Writing a well-formed object and reading the bytes back yields the same object: entry, key
  hash, key size, length and body. An object without a body leaves the reader's body pointer as
  it was.
\<close>

theorem object_write_read:
  assumes "object_wf obj" and "187 + unat (o_datalen obj) < 2 ^ 64" and "malloc_ok (o_datalen obj)"
  shows "bindR (WriteZstoreObjectToBuffer pad obj)
      (\<lambda>buf. ReadBufferToZstoreObject malloc_ok buf (of_nat (length buf)) obj0) =
    Inr (True, if o_body obj = NullBody then obj\<lparr>o_body := o_body obj0\<rparr> else obj)"
proof -
  have "length (body_bytes obj) = unat (o_datalen obj)"
    using assms(1) by (auto simp: object_wf_def body_bytes_def split: body_ptr.splits)
  then have "length (object_header pad obj @ body_bytes obj) = 187 + unat (o_datalen obj)"
    using length_object_header [OF assms(1)] by simp
  then show ?thesis
    using WriteZstoreObjectToBuffer_eq [OF assms(1,2)] Read_written_object [where malloc_ok = malloc_ok, OF assms] by simp
qed

theorem object_write_read_witness:
  "bindR (WriteZstoreObjectToBuffer [] (ex_object [1, 2, 3]))
     (\<lambda>buf. ReadBufferToZstoreObject (\<lambda>_. True) buf (of_nat (length buf)) (new_ZstoreObject [])) =
   Inr (True, ex_object [1, 2, 3])"
  using object_write_read [of "ex_object [1, 2, 3]" "\<lambda>_. True" "[]" "new_ZstoreObject []"] ex_object_wf [of "[1, 2, 3]"]
  by (simp add: ex_object_def)

text \<open>
  (C38) Reading an object from any buffer of the stated size never faults, as long as the buffer
  is either too short for a log entry or holds the entry and the key hash; allocations are
  assumed to stay below \<open>2 ^ 63\<close> bytes.
\<close>

theorem read_object_no_fault:
  assumes "length buf = unat buffer_size" and "unat buffer_size < 2 ^ 63"
    and "\<And>n. malloc_ok n \<Longrightarrow> unat n < 2 ^ 63" and "buffer_size < 112 \<or> 177 \<le> buffer_size"
  shows "\<exists>ok obj. ReadBufferToZstoreObject malloc_ok buf buffer_size obj0 = Inr (ok, obj)"
  by (rule Read_no_fault) (use assms in auto)

theorem read_object_no_fault_witness:
  "\<exists>ok obj. ReadBufferToZstoreObject (\<lambda>n. n < 1024) (replicate 200 9) 200 (new_ZstoreObject []) = Inr (ok, obj)"
  by (rule read_object_no_fault) (simp_all add: word_less_nat_alt)

text \<open>
  Between those sizes, from 112 to 176 bytes, the reader copies the 65-byte key hash before it
  checks the size and reads past the end of the buffer.
\<close>

lemma read_object_overruns_key_hash:
  assumes "length buf = unat buffer_size" and "112 \<le> buffer_size" and "buffer_size < 177"
  shows "ReadBufferToZstoreObject malloc_ok buf buffer_size obj0 = Inl OutOfBounds"
  by (rule Read_key_hash_out_of_bounds [OF assms])

lemma read_object_overruns_key_hash_example:
  "ReadBufferToZstoreObject (\<lambda>_. True) (replicate 120 0) 120 (new_ZstoreObject []) = Inl OutOfBounds"
  by (rule read_object_overruns_key_hash) simp_all

text \<open>A 32-byte key hash survives its conversion to a hexadecimal string and back.\<close>

lemma hash_string_roundtrip:
  assumes "hash_wf h"
  shows "stringToHashKey (hashToCString h) = Inr h"
  using assms by (simp add: stringToHashKey_def hash_wf_def length_hashToCString parse_pairs_hashToCString)

lemma hash_string_roundtrip_example:
  "stringToHashKey (hashToCString (replicate 32 171)) = Inr (replicate 32 171)"
  by (rule hash_string_roundtrip) (simp add: hash_wf_def)

text \<open>
  \<^verbatim>\<open>stringToHashKey\<close> throws exactly on strings whose length is not 64, and what it returns for
  any other string is a 32-byte hash.
\<close>

lemma length_parse_pairs: "parse_pairs s = Inr bs \<Longrightarrow> length bs = length s div 2"
  by (induction s arbitrary: bs rule: parse_pairs.induct) (auto simp: bindR_eq_Inr)

lemma parse_pairs_exception: "parse_pairs s \<noteq> Inl InvalidArgument"
  by (induction s rule: parse_pairs.induct) (auto simp: bindR_eq_Inl parse_hex_def split: list.splits if_splits)

lemma stringToHashKey_errors:
  "(stringToHashKey s = Inl InvalidArgument) = (length s \<noteq> 64) \<and>
   (\<forall>h. stringToHashKey s = Inr h \<longrightarrow> hash_wf h)"
  using parse_pairs_exception length_parse_pairs
  by (auto simp: stringToHashKey_def hash_wf_def split: if_splits)

lemma stringToHashKey_errors_example:
  "stringToHashKey ''ff'' = Inl InvalidArgument \<and>
   stringToHashKey (hashToCString (replicate 32 171)) = Inr (replicate 32 171) \<and> hash_wf (replicate 32 171)"
  using stringToHashKey_errors [of "''ff''"] stringToHashKey_errors [of "hashToCString (replicate 32 171)"]
  by (simp add: stringToHashKey_def length_hashToCString parse_pairs_hashToCString)

text \<open>
  (C18) A chunk list that fits the chunk buffer is read back unchanged by \<^verbatim>\<open>deserializeMap\<close> from the
  bytes of \<^verbatim>\<open>serializeMap\<close>, and the buffer has exactly the chunk size.
\<close>

theorem chunk_list_roundtrip:
  assumes "chunk_list_wf m" and "8 + 24 * length m \<le> unat (gChunkSize c)"
  shows "\<exists>buf. serializeMap c junk m (gChunkSize c) = Inr buf \<and> length buf = unat (gChunkSize c) \<and>
    deserializeMap buf = Inr m"
proof -
  have "length m < 2 ^ 64" using assms(2) unat_bound [of "gChunkSize c"] by simp
  with serializeMap_eq [OF refl assms(2), of junk] deserializeMap_eq [OF assms(1)] show ?thesis by fastforce
qed

theorem chunk_list_roundtrip_witness:
  "\<exists>buf. serializeMap conf_default [] [(0, 0, 42), (1, 1, 7)] (gChunkSize conf_default) = Inr buf \<and>
     deserializeMap buf = Inr [(0, 0, 42), (1, 1, 7)]"
  using chunk_list_roundtrip [of "[(0, 0, 42), (1, 1, 7)]" conf_default "[]"]
  by (auto simp: chunk_list_wf_def conf_default_def)

text \<open>
  Splitting an object of the configured size yields one chunk per full chunk size, numbered from
  one, each of the chunk size; the chunk bodies are consecutive slices that make up the object's
  body when its length is a multiple of the chunk size.
\<close>

lemma split_partitions_body:
  assumes "o_datalen obj = ucast (gObjectSizeInBytes c)" and "0 < gChunkSize c"
    and "o_body obj = HeapBody b" and "length b = unat (o_datalen obj)" and "malloc_ok (gChunkSize c)"
    and "unat (gChunkSize c) dvd length b"
  shows "\<exists>chunks. splitObjectIntoChunks c malloc_ok junk obj = Inr chunks \<and>
    length chunks = length b div unat (gChunkSize c) \<and> concat (map body_bytes chunks) = b \<and>
    (\<forall>i < length chunks. o_datalen (chunks ! i) = gChunkSize c \<and>
       chunk_seqnum (o_entry (chunks ! i)) = of_nat i + 1 \<and> seqnum (o_entry (chunks ! i)) = seqnum (o_entry obj))"
proof -
  let ?n = "length b div unat (gChunkSize c)"
  have "splitObjectIntoChunks c malloc_ok junk obj = Inr (map (chunk_of c junk obj b) [0..<?n])"
    using splitObjectIntoChunks_eq [where malloc_ok = malloc_ok, OF assms(1-5)] assms(4) by simp
  moreover have "concat (map body_bytes (map (chunk_of c junk obj b) [0..<?n])) = b"
    using concat_chunk_bodies [of ?n c b junk obj] assms(6) by simp
  ultimately show ?thesis by (auto simp: chunk_of_def)
qed

lemma split_partitions_body_example:
  "\<exists>chunks. splitObjectIntoChunks (conf_default\<lparr>gObjectSizeInBytes := 8, gChunkSize := 4\<rparr>) (\<lambda>_. True) []
       (ex_object (replicate 8 9)) = Inr chunks \<and>
     length chunks = 2 \<and> concat (map body_bytes chunks) = (replicate 8 9)"
  using split_partitions_body [of "ex_object (replicate 8 9)"
      "conf_default\<lparr>gObjectSizeInBytes := 8, gChunkSize := 4\<rparr>" "replicate 8 9" "\<lambda>_. True" "[]"]
  by (simp add: ex_object_def) blast

end
