(* ===== verification/Zstore_Device.thy ===== *)
theory Zstore_Device
  imports Zstore_Conf Zstore_Interfaces
begin

text \<open>
  Zones and devices: \<^verbatim>\<open>src/src/zone.cc\<close> and \<^verbatim>\<open>src/src/device.cc\<close> with their headers.

  A \<^verbatim>\<open>Zone *\<close> is the index of the zone in its device's array \<open>mZones\<close>; the
  \<^verbatim>\<open>std::set<Zone *>\<close> of available zones, which iterates in address order, is the sorted list
  of these indices. SPDK (the namespace geometry, the zone report, the queue pairs) is a parameter.
\<close>

section \<open>Zones\<close>

record Zone =
  mDevice :: nat
  mSlba :: u64
  mCapacity :: u32
  mSize :: u32
  mPos :: u32
  mOffset :: u32

definition Zone_Init :: "nat \<Rightarrow> u64 \<Rightarrow> u64 \<Rightarrow> u64 \<Rightarrow> Zone" where
  "Zone_Init device slba capacity sz =
     \<lparr>mDevice = device, mSlba = slba, mCapacity = ucast capacity, mSize = ucast sz,
      mPos = 0, mOffset = 0\<rparr>"

definition offset2Bytes :: "conf \<Rightarrow> Zone \<Rightarrow> u64 \<Rightarrow> u64" where
  "offset2Bytes c z offset = push_bit 12 (mSlba z) + offset * of_int (gBlockSize c)"

text \<open>\<^verbatim>\<open>Write\<close>, \<^verbatim>\<open>Read\<close>, \<^verbatim>\<open>Reset\<close> and \<^verbatim>\<open>Seal\<close> have empty bodies (their code is commented out).\<close>

definition Zone_Write :: "u32 \<Rightarrow> u32 \<Rightarrow> Zone \<Rightarrow> Zone" where
  "Zone_Write offset sz z = z"

definition Zone_Read :: "u32 \<Rightarrow> u32 \<Rightarrow> Zone \<Rightarrow> Zone" where
  "Zone_Read offset sz z = z"

definition Zone_Reset :: "Zone \<Rightarrow> Zone" where
  "Zone_Reset z = z"

definition Zone_Seal :: "Zone \<Rightarrow> Zone" where
  "Zone_Seal z = z"

definition WillBeFull :: "Zone \<Rightarrow> bool" where
  "WillBeFull z \<longleftrightarrow> mOffset z + 32 \<ge> mCapacity z"

definition IsFull :: "Zone \<Rightarrow> bool" where
  "IsFull z \<longleftrightarrow> mPos z \<ge> mCapacity z"

definition NoOngoingWrites :: "Zone \<Rightarrow> bool" where
  "NoOngoingWrites z \<longleftrightarrow> mOffset z = mPos z"

definition AdvancePos :: "Zone \<Rightarrow> Zone" where
  "AdvancePos z = z\<lparr>mPos := mPos z + 1\<rparr>"

definition AdvancePosBy :: "u32 \<Rightarrow> Zone \<Rightarrow> Zone" where
  "AdvancePosBy inc z = z\<lparr>mPos := mPos z + inc\<rparr>"

definition GetSlba :: "Zone \<Rightarrow> u32" where
  "GetSlba z = ucast (mSlba z)"

lemma WillBeFull_iff:
  "unat (mOffset z) + 32 < 2 ^ 32 \<Longrightarrow> WillBeFull z \<longleftrightarrow> unat (mCapacity z) \<le> unat (mOffset z) + 32"
  by (simp add: WillBeFull_def word_le_nat_alt unat_word_ariths(1))

lemma AdvancePosBy_funpow: "(AdvancePos ^^ n) z = AdvancePosBy (of_nat n) z"
proof (induction n)
  case 0
  then show ?case by (simp add: AdvancePosBy_def)
next
  case (Suc n)
  then show ?case by (simp add: AdvancePos_def AdvancePosBy_def add.commute add.left_commute)
qed

lemma IsFull_AdvancePosBy:
  "unat (mPos z) + unat n < 2 ^ 32 \<Longrightarrow>
   IsFull (AdvancePosBy n z) \<longleftrightarrow> unat (mCapacity z) \<le> unat (mPos z) + unat n"
  by (simp add: IsFull_def AdvancePosBy_def word_le_nat_alt unat_word_ariths(1))

section \<open>Devices\<close>

record device =
  mController :: nat
  mNamespace :: nat
  mIoQueues :: "nat list"
  mZoneSize :: u64
  mZoneCapacity :: u64
  mNumZones :: u32
  mDeviceId :: u32
  mWriteHead :: "u32 \<rightharpoonup> u64"
  mAvailableZones :: "nat list"
  mZones :: "Zone list"
  mZoneId :: u32
  mReadCounts :: "u32 \<rightharpoonup> u64"
  mTotalReadCounts :: u64
  mTotalReadSizes :: u64
  mTransportAddress :: string
  mCurrentWriteZone :: int
  mCurrentReadZone :: int

text \<open>A device right after \<^verbatim>\<open>new Device()\<close>: the fields with an initialiser, and the containers
  empty. The remaining members are set by \<^verbatim>\<open>Init\<close> before any use.\<close>

definition new_Device :: device where
  "new_Device = \<lparr>mController = 0, mNamespace = 0, mIoQueues = [], mZoneSize = 0, mZoneCapacity = 0,
     mNumZones = 0, mDeviceId = 0, mWriteHead = Map.empty, mAvailableZones = [], mZones = [],
     mZoneId = 0, mReadCounts = Map.empty, mTotalReadCounts = 0, mTotalReadSizes = 0,
     mTransportAddress = [], mCurrentWriteZone = 0, mCurrentReadZone = 0\<rparr>"

text \<open>What SPDK reports of a namespace; the queue pairs it allocates (a null pointer is \<open>None\<close>).\<close>

record spdk_ns =
  ns_id :: nat
  ns_zone_size_sectors :: u64
  ns_num_zones :: u64
  ns_md_size :: u32

fun alloc_qpairs :: "(nat \<Rightarrow> nat option) \<Rightarrow> nat \<Rightarrow> nat list res" where
  "alloc_qpairs alloc 0 = Inr []"
| "alloc_qpairs alloc (Suc n) =
     bindR (alloc_qpairs alloc n) (\<lambda>qs.
       case alloc n of None \<Rightarrow> Inl AssertFail | Some q \<Rightarrow> Inr (qs @ [q]))"

definition Device_Init ::
  "nat \<Rightarrow> spdk_ns \<Rightarrow> u32 \<Rightarrow> (nat \<Rightarrow> nat option) \<Rightarrow> conf \<Rightarrow> device \<Rightarrow> (device \<times> conf) res" where
  "Device_Init ctrlr ns zone_id alloc c d =
     (let zsize = ns_zone_size_sectors ns;
          cap = (if zsize = 2 * 1024 * 256 then 1077 * 256 else zsize);
          c' = (if gDebug c \<and> ns_md_size ns = 0 then SetDeviceSupportMetadata False c else c)
      in bindR (alloc_qpairs alloc (nat (gNumIoThreads c))) (\<lambda>qs.
         Inr (d\<lparr>mZoneId := zone_id, mController := ctrlr, mNamespace := ns_id ns,
                mZoneSize := zsize, mNumZones := ucast (ns_num_zones ns), mZoneCapacity := cap,
                mIoQueues := qs, mReadCounts := Map.empty, mTotalReadCounts := 0\<rparr>, c')))"

definition InitZones :: "nat \<Rightarrow> u32 \<Rightarrow> u32 \<Rightarrow> device \<Rightarrow> device" where
  "InitZones this numNeededZones numReservedZones d =
     (let n = min (mNumZones d) (numNeededZones + numReservedZones)
      in d\<lparr>mNumZones := n,
           mZones := map (\<lambda>i. Zone_Init this (of_nat i * mZoneSize d) (mZoneCapacity d) (mZoneSize d))
                         [0..<unat n],
           mAvailableZones := fold List.insort_insert [0..<unat n] (mAvailableZones d)\<rparr>)"

definition HasAvailableZone :: "device \<Rightarrow> bool" where
  "HasAvailableZone d \<longleftrightarrow> mAvailableZones d \<noteq> []"

definition OpenZone :: "device \<Rightarrow> (nat \<times> device) res" where
  "OpenZone d =
     (case mAvailableZones d of
        [] \<Rightarrow> Inl AssertFail
      | z # zs \<Rightarrow> Inr (z, d\<lparr>mAvailableZones := zs\<rparr>))"

definition OpenZoneBySlba :: "u64 \<Rightarrow> device \<Rightarrow> (nat \<times> device) res" where
  "OpenZoneBySlba slba d =
     (if mZoneSize d = 0 then Inl DivByZero
      else let zid = unat (ucast (slba div mZoneSize d) :: u32)
           in if zid \<in> set (mAvailableZones d)
              then Inr (zid, d\<lparr>mAvailableZones := remove1 zid (mAvailableZones d)\<rparr>)
              else Inl AssertFail)"

definition ReturnZone :: "nat \<Rightarrow> device \<Rightarrow> device" where
  "ReturnZone z d = d\<lparr>mAvailableZones := List.insort_insert z (mAvailableZones d)\<rparr>"

definition AddAvailableZone :: "nat \<Rightarrow> device \<Rightarrow> device" where
  "AddAvailableZone z d = d\<lparr>mAvailableZones := List.insort_insert z (mAvailableZones d)\<rparr>"

definition Zone_Release :: "nat \<Rightarrow> device \<Rightarrow> device" where
  "Zone_Release z d = AddAvailableZone z d"

definition OpenNextZone :: "device \<Rightarrow> device" where
  "OpenNextZone d = d\<lparr>mZoneId := mZoneId d + 1\<rparr>"

definition SetDeviceTransportAddress :: "string \<Rightarrow> device \<Rightarrow> device" where
  "SetDeviceTransportAddress addr d = d\<lparr>mTransportAddress := addr\<rparr>"

subsection \<open>The allocator invariant\<close>

text \<open>
  The available zones are distinct zones of the device, kept in increasing order; zone \<open>i\<close> of
  the array starts at logical block \<open>i * mZoneSize\<close>.
\<close>

definition zones_inv :: "device \<Rightarrow> bool" where
  "zones_inv d \<longleftrightarrow> sorted (mAvailableZones d) \<and> distinct (mAvailableZones d) \<and>
     set (mAvailableZones d) \<subseteq> {..<length (mZones d)}"

definition zone_layout :: "device \<Rightarrow> bool" where
  "zone_layout d \<longleftrightarrow> length (mZones d) = unat (mNumZones d) \<and>
     (\<forall>i < length (mZones d). mSlba (mZones d ! i) = of_nat i * mZoneSize d)"

lemma fold_insort_insert:
  fixes xs ys :: "nat list"
  shows "sorted ys \<Longrightarrow> distinct ys \<Longrightarrow>
    sorted (fold List.insort_insert xs ys) \<and> distinct (fold List.insort_insert xs ys) \<and>
    set (fold List.insort_insert xs ys) = set xs \<union> set ys"
  by (induction xs arbitrary: ys)
     (auto simp: sorted_insort_insert distinct_insort_insert set_insort_insert)

lemma InitZones_inv:
  assumes "mAvailableZones d = []"
  shows "zones_inv (InitZones this n r d)" "zone_layout (InitZones this n r d)"
proof -
  show "zones_inv (InitZones this n r d)"
    using fold_insort_insert [of "[]" "[0..<unat (min (mNumZones d) (n + r))]"] assms
    by (auto simp: zones_inv_def InitZones_def Let_def)
  show "zone_layout (InitZones this n r d)"
    by (simp add: zone_layout_def InitZones_def Let_def Zone_Init_def)
qed

lemma InitZones_available:
  assumes "mAvailableZones d = []"
  shows "set (mAvailableZones (InitZones this n r d)) = {..<length (mZones (InitZones this n r d))}"
  using fold_insort_insert [of "[]" "[0..<unat (min (mNumZones d) (n + r))]"] assms
  unfolding InitZones_def Let_def by (simp add: atLeast0LessThan)

lemma OpenZone_inv: "zones_inv d \<Longrightarrow> OpenZone d = Inr (z, d') \<Longrightarrow> zones_inv d'"
  by (auto simp: zones_inv_def OpenZone_def split: list.splits)

lemma OpenZoneBySlba_Inr:
  assumes "OpenZoneBySlba slba d = Inr (z, d')"
  shows "z \<in> set (mAvailableZones d)"
    "d' = d\<lparr>mAvailableZones := remove1 z (mAvailableZones d)\<rparr>"
  using assms unfolding OpenZoneBySlba_def Let_def by (auto split: if_split_asm)

lemma OpenZoneBySlba_inv:
  assumes "zones_inv d" and "OpenZoneBySlba slba d = Inr (z, d')"
  shows "zones_inv d'"
  using assms(1) set_remove1_subset [of z "mAvailableZones d"]
  unfolding zones_inv_def OpenZoneBySlba_Inr(2) [OF assms(2)]
  by (simp add: sorted_remove1) blast

lemma ReturnZone_inv: "zones_inv d \<Longrightarrow> z < length (mZones d) \<Longrightarrow> zones_inv (ReturnZone z d)"
  by (simp add: zones_inv_def ReturnZone_def sorted_insort_insert distinct_insort_insert
      set_insort_insert)

lemma OpenZone_Min:
  assumes "zones_inv d" and "set (mAvailableZones d) \<noteq> {}"
  shows "\<exists>d'. OpenZone d = Inr (Min (set (mAvailableZones d)), d') \<and> zones_inv d' \<and>
    set (mAvailableZones d') = set (mAvailableZones d) - {Min (set (mAvailableZones d))} \<and>
    length (mZones d') = length (mZones d)"
proof -
  obtain z zs where zs: "mAvailableZones d = z # zs"
    using assms(2) by (cases "mAvailableZones d") simp_all
  then have inv: "sorted (z # zs)" "distinct (z # zs)" using assms(1) by (simp_all add: zones_inv_def)
  have op: "OpenZone d = Inr (z, d\<lparr>mAvailableZones := zs\<rparr>)" by (simp add: OpenZone_def zs)
  have "Min (set (z # zs)) = z" using inv(1) by (intro Min_eqI) auto
  moreover have "set (z # zs) - {z} = set zs" using inv(2) by auto
  moreover have "zones_inv (d\<lparr>mAvailableZones := zs\<rparr>)" by (rule OpenZone_inv [OF assms(1) op])
  ultimately show ?thesis
    unfolding zs op by (intro exI [of _ "d\<lparr>mAvailableZones := zs\<rparr>"]) simp
qed

text \<open>The device as a provider of the zone allocator interface.\<close>

interpretation dev_zones: zone_allocator "\<lambda>d. set (mAvailableZones d)"
    "\<lambda>d. length (mZones d)" OpenZone ReturnZone zones_inv
proof unfold_locales
  fix d :: device and z d'
  show "zones_inv d \<Longrightarrow> set (mAvailableZones d) \<subseteq> {..<length (mZones d)}"
    by (simp add: zones_inv_def)
  show "set (mAvailableZones d) = {} \<Longrightarrow> OpenZone d = Inl AssertFail"
    by (simp add: OpenZone_def)
  show "zones_inv d \<Longrightarrow> set (mAvailableZones d) \<noteq> {} \<Longrightarrow>
      \<exists>d'. OpenZone d = Inr (Min (set (mAvailableZones d)), d') \<and> zones_inv d' \<and>
        set (mAvailableZones d') = set (mAvailableZones d) - {Min (set (mAvailableZones d))} \<and>
        length (mZones d') = length (mZones d)"
    by (rule OpenZone_Min)
  show "zones_inv d \<Longrightarrow> z < length (mZones d) \<Longrightarrow>
      zones_inv (ReturnZone z d) \<and>
      set (mAvailableZones (ReturnZone z d)) = insert z (set (mAvailableZones d)) \<and>
      length (mZones (ReturnZone z d)) = length (mZones d)"
    using ReturnZone_inv [of d z] by (simp add: ReturnZone_def set_insort_insert)
qed

subsection \<open>Queue pairs and erasing\<close>

text \<open>
  \<^verbatim>\<open>ConnectIoPairs\<close> connects the queue pair of every I/O thread and only prints a failure; the value
  is the list of those that were connected. \<open>connect\<close> is SPDK's answer.
\<close>

definition ConnectIoPairs :: "conf \<Rightarrow> (nat \<Rightarrow> bool) \<Rightarrow> device \<Rightarrow> nat list res" where
  "ConnectIoPairs c connect d =
     foldR (\<lambda>i qs. if i < length (mIoQueues d)
         then Inr (if connect (mIoQueues d ! i) then qs @ [mIoQueues d ! i] else qs) else Inl OutOfBounds)
       [0..<nat (gNumIoThreads c)] []"

lemma ConnectIoPairs_connects:
  assumes "nat (gNumIoThreads c) \<le> length (mIoQueues d)"
  shows "ConnectIoPairs c connect d = Inr (filter connect (take (nat (gNumIoThreads c)) (mIoQueues d)))"
proof -
  have "foldR (\<lambda>i qs. if i < length (mIoQueues d)
         then Inr (if connect (mIoQueues d ! i) then qs @ [mIoQueues d ! i] else qs) else Inl OutOfBounds) [0..<n] [] =
      Inr (filter connect (take n (mIoQueues d)))" if "n \<le> length (mIoQueues d)" for n
    using that
  proof (induction n)
    case (Suc n)
    then show ?case by (simp add: take_Suc_conv_app_nth foldR_append)
  qed simp
  from this [OF assms] show ?thesis by (simp add: ConnectIoPairs_def)
qed

text \<open>
  \<^verbatim>\<open>EraseWholeDevice\<close> submits a reset of all zones and polls until its completion was delivered; the
  result of the submission is not looked at. \<open>polls k\<close> says that the \<open>k\<close>-th poll delivers it.
\<close>

fun erase_wait :: "nat \<Rightarrow> (nat \<Rightarrow> bool) \<Rightarrow> nat \<Rightarrow> unit option" where
  "erase_wait 0 delivered k = None"
| "erase_wait (Suc fuel) delivered k = (if delivered k then Some () else erase_wait fuel delivered (Suc k))"

definition EraseWholeDevice :: "nat \<Rightarrow> bool \<Rightarrow> (nat \<Rightarrow> bool) \<Rightarrow> device \<Rightarrow> unit option res" where
  "EraseWholeDevice fuel submitted polls d =
     (if mIoQueues d = [] then Inl OutOfBounds
      else Inr (erase_wait fuel (\<lambda>k. submitted \<and> polls k) 0))"

lemma erase_wait_iff: "erase_wait fuel delivered k = Some () \<longleftrightarrow> (\<exists>j < fuel. delivered (k + j))"
proof (induction fuel arbitrary: k)
  case (Suc fuel)
  have "(\<exists>j < Suc fuel. delivered (k + j)) \<longleftrightarrow> delivered k \<or> (\<exists>j < fuel. delivered (Suc k + j))"
    by (metis (no_types, opaque_lifting) Suc_less_eq add_0_right add_Suc add_Suc_right not0_implies_Suc zero_less_Suc)
  then show ?case using Suc [of "Suc k"] by simp
qed simp

text \<open>It returns exactly when the command was accepted and its completion arrives; a refused command
  is waited for without end.\<close>

lemma EraseWholeDevice_returns:
  assumes "mIoQueues d \<noteq> []"
  shows "(\<exists>fuel. EraseWholeDevice fuel submitted polls d = Inr (Some ())) \<longleftrightarrow> submitted \<and> (\<exists>k. polls k)"
  using assms by (auto simp: EraseWholeDevice_def erase_wait_iff)

section \<open>Zone reports\<close>

text \<open>
  SPDK's zone report is a parameter: a list of descriptors. \<^verbatim>\<open>ReadZoneHeaders\<close> reads the first
  block of every zone that is full or open and has been written, keyed by its write pointer; a
  report longer than the allocated buffer is read out of bounds.
\<close>

datatype zone_state = ZS_FULL | ZS_IOPEN | ZS_EOPEN | ZS_OTHER nat

record zone_desc =
  zd_zs :: zone_state
  zd_wp :: u64
  zd_zslba :: u64

definition header_wp :: "zone_desc \<Rightarrow> u64" where
  "header_wp z =
     (if zd_zs z = ZS_FULL \<or> zd_zs z = ZS_IOPEN \<or> zd_zs z = ZS_EOPEN
      then (if zd_wp z \<noteq> zd_zslba z then zd_wp z else - 1)
      else - 1)"

fun read_zone_headers :: "(u64 \<Rightarrow> u8 list) \<Rightarrow> zone_desc list \<Rightarrow> (u64 \<rightharpoonup> u8 list) \<Rightarrow> (u64 \<rightharpoonup> u8 list)" where
  "read_zone_headers rd [] zones = zones"
| "read_zone_headers rd (z # zs) zones =
     (if header_wp z = - 1 then read_zone_headers rd zs zones
      else read_zone_headers rd zs (zones(header_wp z \<mapsto> rd (zd_zslba z))))"

definition ReadZoneHeaders ::
  "nat \<Rightarrow> (u64 \<Rightarrow> u8 list) \<Rightarrow> zone_desc list \<Rightarrow> (u64 \<rightharpoonup> u8 list) \<Rightarrow> (u64 \<rightharpoonup> u8 list) res" where
  "ReadZoneHeaders nr_zones rd report zones =
     (if length report > nr_zones then Inl OutOfBounds else Inr (read_zone_headers rd report zones))"

lemma dom_read_zone_headers:
  "dom (read_zone_headers rd zs zones) = dom zones \<union> (header_wp ` set zs - {- 1})"
  by (induction zs arbitrary: zones) auto

lemma read_zone_headers_distinct:
  assumes "distinct (map header_wp (filter (\<lambda>z. header_wp z \<noteq> - 1) zs))"
    and "z \<in> set zs" and "header_wp z \<noteq> - 1"
  shows "read_zone_headers rd zs zones (header_wp z) = Some (rd (zd_zslba z))"
  using assms
proof (induction zs arbitrary: zones)
  case Nil
  then show ?case by simp
next
  case (Cons y ys)
  have keep: "read_zone_headers rd ys m w = m w" if "w \<notin> header_wp ` set ys - {- 1}" for m w
    using that by (induction ys arbitrary: m) auto
  show ?case
  proof (cases "z \<in> set ys")
    case True
    then show ?thesis using Cons by (auto split: if_splits)
  next
    case False
    then have "y = z" using Cons.prems(2) by simp
    moreover have "header_wp z \<notin> header_wp ` set ys - {- 1}"
      using Cons.prems(1,3) \<open>y = z\<close> by auto
    ultimately show ?thesis using Cons.prems(3) keep by simp
  qed
qed

text \<open>
  \<^verbatim>\<open>GetZoneHeaders\<close> repeats the report until enough zones were seen. Round \<open>k\<close> sees
  \<open>reports k\<close>. A failed submission frees the buffer and then waits for a completion that never
  comes (in the first round) or uses the freed buffer; a report with no zones or too many frees the
  buffer and goes on using it. The result \<open>None\<close> means that the function does not return.
\<close>

record zone_report =
  zr_rc :: int
  zr_wps :: "u64 list"

fun store_heads :: "nat \<Rightarrow> u64 list \<Rightarrow> (u32 \<rightharpoonup> u64) \<Rightarrow> (u32 \<rightharpoonup> u64)" where
  "store_heads i [] heads = heads"
| "store_heads i (w # ws) heads = store_heads (Suc i) ws (heads(of_nat i \<mapsto> w))"

fun get_zone_headers ::
  "nat \<Rightarrow> (nat \<Rightarrow> zone_report) \<Rightarrow> nat \<Rightarrow> nat \<Rightarrow> nat \<Rightarrow> nat \<Rightarrow> (u32 \<rightharpoonup> u64) \<Rightarrow> (u32 \<rightharpoonup> u64) res option" where
  "get_zone_headers 0 reports max_zones zones_to_report k reported heads = None"
| "get_zone_headers (Suc fuel) reports max_zones zones_to_report k reported heads =
     (let r = reports k; nr = length (zr_wps r)
      in if zr_rc r \<noteq> 0 then (if k = 0 then None else Some (Inl UseAfterFree))
         else if nr > max_zones \<or> nr = 0 then Some (Inl UseAfterFree)
         else let n = min nr (Suc zones_to_report - reported);
                  heads' = store_heads 0 (take n (zr_wps r)) heads;
                  reported' = reported + n
              in if reported' < zones_to_report
                 then get_zone_headers fuel reports max_zones zones_to_report (Suc k) reported' heads'
                 else Some (Inr heads'))"

definition GetZoneHeaders ::
  "nat \<Rightarrow> (nat \<Rightarrow> zone_report) \<Rightarrow> nat \<Rightarrow> nat \<Rightarrow> device \<Rightarrow> device res option" where
  "GetZoneHeaders fuel reports max_zones nr_zones d =
     (case get_zone_headers fuel reports max_zones nr_zones 0 0 (mWriteHead d) of
        None \<Rightarrow> None
      | Some (Inl e) \<Rightarrow> Some (Inl e)
      | Some (Inr h) \<Rightarrow> Some (Inr (d\<lparr>mWriteHead := h\<rparr>)))"

lemma get_zone_headers_returns:
  assumes "\<And>k. zr_rc (reports k) = 0 \<and> zr_wps (reports k) \<noteq> [] \<and> length (zr_wps (reports k)) \<le> max_zones"
    and "zones_to_report < fuel + reported" and "reported \<le> zones_to_report"
  shows "\<exists>h. get_zone_headers fuel reports max_zones zones_to_report k reported heads = Some (Inr h)"
  using assms(2,3)
proof (induction fuel arbitrary: k reported heads)
  case 0
  then show ?case by simp
next
  case (Suc fuel)
  let ?wps = "zr_wps (reports k)"
  let ?n = "min (length ?wps) (Suc zones_to_report - reported)"
  have ok: "zr_rc (reports k) = 0" "length ?wps \<noteq> 0" "\<not> max_zones < length ?wps"
    using assms(1) [of k] by auto
  then have "0 < ?n" using Suc.prems(2) by simp
  then show ?case
    using Suc.IH [of "reported + ?n"] Suc.prems ok by (auto simp: Let_def)
qed

lemma store_heads_nth:
  assumes "i < length ws" and "j + length ws \<le> 2 ^ 32"
  shows "store_heads j ws heads (of_nat (j + i)) = Some (ws ! i)"
  using assms
proof (induction ws arbitrary: i j heads)
  case Nil
  then show ?case by simp
next
  case (Cons w ws)
  have other: "store_heads (Suc j) ws h (of_nat j) = h (of_nat j)" if "Suc j + length ws \<le> 2 ^ 32" for h
  proof -
    have "store_heads m ws h (of_nat j) = h (of_nat j)" if "j < m" "m + length ws \<le> 2 ^ 32" for m h
      using that
    proof (induction ws arbitrary: m h)
      case Nil
      then show ?case by simp
    next
      case (Cons v vs)
      then have "(of_nat j :: u32) \<noteq> of_nat m"
        by (simp add: word_of_nat_eq_iff take_bit_nat_eq_self)
      with Cons show ?case by simp
    qed
    with that show ?thesis by simp
  qed
  show ?case
  proof (cases i)
    case 0
    then show ?thesis using Cons.prems other by simp
  next
    case (Suc i')
    then show ?thesis using Cons.IH [of i' "Suc j"] Cons.prems by simp
  qed
qed

section \<open>Properties\<close>

definition ex_zoned :: device where
  "ex_zoned = InitZones 0 3 1 (new_Device\<lparr>mNumZones := 8, mZoneSize := 524288, mZoneCapacity := 275712\<rparr>)"

lemma ex_zoned_inv: "zones_inv ex_zoned"
  unfolding ex_zoned_def by (rule InitZones_inv) (simp add: new_Device_def)

lemma ex_zoned_available: "set (mAvailableZones ex_zoned) = {..<4}"
proof -
  have "set (mAvailableZones ex_zoned) = {..<length (mZones ex_zoned)}"
    unfolding ex_zoned_def by (rule InitZones_available) (simp add: new_Device_def)
  then show ?thesis by (simp add: ex_zoned_def InitZones_def)
qed

text \<open>
  (C19) Opening \<open>n\<close> zones of a device in a row succeeds exactly when \<open>n\<close> zones are available; it
  then yields \<open>n\<close> different available zones and leaves the others available.
\<close>

theorem open_zones_distinct:
  assumes "zones_inv d"
  shows "(\<exists>zs d'. dev_zones.open_many n d = Inr (zs, d')) = (n \<le> card (set (mAvailableZones d))) \<and>
    (\<forall>zs d'. dev_zones.open_many n d = Inr (zs, d') \<longrightarrow>
       distinct zs \<and> length zs = n \<and> set zs \<subseteq> set (mAvailableZones d) \<and>
       set (mAvailableZones d') = set (mAvailableZones d) - set zs \<and> zones_inv d')"
proof -
  have "n \<le> card (set (mAvailableZones d))" if "dev_zones.open_many n d = Inr (zs, d')" for zs d'
    using dev_zones.open_many_Inr [OF assms that] by (metis card_mono distinct_card finite_set)
  with dev_zones.open_many_enough [OF assms] dev_zones.open_many_Inr [OF assms] show ?thesis by blast
qed

theorem open_zones_distinct_witness:
  "\<exists>zs d'. dev_zones.open_many 3 ex_zoned = Inr (zs, d') \<and> distinct zs \<and> length zs = 3 \<and> zones_inv d'"
  using open_zones_distinct [OF ex_zoned_inv, of 3] ex_zoned_available by auto

text \<open>
  \<^verbatim>\<open>InitZones\<close> on a fresh device lays the zones out back to back, \<open>mZoneSize\<close> blocks apart, at
  most as many as asked for and as the device has, all of them available and empty.
\<close>

lemma InitZones_layout:
  assumes "mAvailableZones d = []"
  shows "let d' = InitZones this n r d in
    zones_inv d' \<and> set (mAvailableZones d') = {..<length (mZones d')} \<and>
    length (mZones d') = min (unat (mNumZones d)) (unat (n + r)) \<and>
    (\<forall>i < length (mZones d'). mSlba (mZones d' ! i) = of_nat i * mZoneSize d \<and>
       NoOngoingWrites (mZones d' ! i) \<and> mPos (mZones d' ! i) = 0)"
proof -
  have len: "length (mZones (InitZones this n r d)) = min (unat (mNumZones d)) (unat (n + r))"
    by (simp add: InitZones_def Let_def min_def word_le_nat_alt)
  show ?thesis
    unfolding Let_def InitZones_available [OF assms] len
    using InitZones_inv(1) [OF assms, of this n r]
    by (simp add: InitZones_def Let_def Zone_Init_def NoOngoingWrites_def min_def word_le_nat_alt)
qed

lemma InitZones_layout_example:
  "zones_inv (InitZones 0 3 1 (new_Device\<lparr>mNumZones := 8, mZoneSize := 524288\<rparr>)) \<and>
   length (mZones (InitZones 0 3 1 (new_Device\<lparr>mNumZones := 8, mZoneSize := 524288\<rparr>))) = 4"
  using InitZones_layout [of "new_Device\<lparr>mNumZones := 8, mZoneSize := 524288\<rparr>" 0 3 1]
  by (simp add: new_Device_def Let_def)

text \<open>
  When every zone report succeeds and holds at least one and at most a buffer of descriptors,
  \<^verbatim>\<open>GetZoneHeaders\<close> ends after at most one round per zone and returns write heads without a fault.
\<close>

lemma GetZoneHeaders_terminates:
  assumes "\<And>k. zr_rc (reports k) = 0 \<and> zr_wps (reports k) \<noteq> [] \<and> length (zr_wps (reports k)) \<le> max_zones"
  shows "\<exists>d'. GetZoneHeaders (Suc nr_zones) reports max_zones nr_zones d = Some (Inr d')"
proof -
  obtain h where "get_zone_headers (Suc nr_zones) reports max_zones nr_zones 0 0 (mWriteHead d) = Some (Inr h)"
    using get_zone_headers_returns [where reports = reports and fuel = "Suc nr_zones" and zones_to_report = nr_zones
        and reported = 0 and k = 0 and heads = "mWriteHead d", OF assms] by auto
  then show ?thesis by (simp only: GetZoneHeaders_def option.case sum.case) blast
qed

lemma GetZoneHeaders_terminates_example:
  "\<exists>d'. GetZoneHeaders 5 (\<lambda>_. \<lparr>zr_rc = 0, zr_wps = [7, 9]\<rparr>) 16 4 new_Device = Some (Inr d')"
  using GetZoneHeaders_terminates [of "\<lambda>_. \<lparr>zr_rc = 0, zr_wps = [7, 9]\<rparr>" 16 4 new_Device]
  by (simp add: numeral_eq_Suc)

text \<open>
  \<^verbatim>\<open>ReadZoneHeaders\<close> records exactly the zones that are full or open and have been written,
  each under its write pointer with the block at its start, when the write pointers differ.
\<close>

lemma ReadZoneHeaders_headers:
  assumes "length report \<le> nr_zones" and "distinct (map header_wp (filter (\<lambda>z. header_wp z \<noteq> - 1) report))"
  shows "\<exists>m. ReadZoneHeaders nr_zones rd report Map.empty = Inr m \<and>
    dom m = header_wp ` set report - {- 1} \<and>
    (\<forall>z \<in> set report. header_wp z \<noteq> - 1 \<longrightarrow> m (header_wp z) = Some (rd (zd_zslba z)))"
  using assms read_zone_headers_distinct [OF assms(2)] dom_read_zone_headers [of rd report Map.empty]
  by (auto simp: ReadZoneHeaders_def)

lemma ReadZoneHeaders_headers_example:
  "\<exists>m. ReadZoneHeaders 2 (\<lambda>_. [1]) [\<lparr>zd_zs = ZS_FULL, zd_wp = 9, zd_zslba = 0\<rparr>, \<lparr>zd_zs = ZS_OTHER 1, zd_wp = 20, zd_zslba = 16\<rparr>]
     Map.empty = Inr m \<and> dom m = {9}"
  using ReadZoneHeaders_headers [of "[\<lparr>zd_zs = ZS_FULL, zd_wp = 9, zd_zslba = 0\<rparr>,
      \<lparr>zd_zs = ZS_OTHER 1, zd_wp = 20, zd_zslba = 16\<rparr>]" 2 "\<lambda>_. [1]"]
  by (auto simp: header_wp_def)

end
