(* ===== verification/Zstore_Types.thy ===== *)
theory Zstore_Types
  imports Zstore_Object Zstore_Device
begin

text \<open>
  The shared data types of \<^verbatim>\<open>src/src/include/types.h\<close>: locations and map entries, device tuples,
  request contexts and their pool. A fixed C array of three locations is a triple. The pointer
  members of a request context that identify SPDK objects are identifiers; \<open>ioContext.data\<close>
  always points to the context's own buffer. The members \<^verbatim>\<open>stime\<close>, \<^verbatim>\<open>ctime\<close>, \<^verbatim>\<open>timeA\<close> and the
  management callback are never used by the code and are left out.
\<close>

record Location =
  device_id :: int
  lba :: u64

record MapEntry =
  locations :: "Location \<times> Location \<times> Location"
  len :: u32
  tombstoned :: bool

abbreviation loc0 :: "MapEntry \<Rightarrow> Location" where "loc0 e \<equiv> fst (locations e)"
abbreviation loc1 :: "MapEntry \<Rightarrow> Location" where "loc1 e \<equiv> fst (snd (locations e))"
abbreviation loc2 :: "MapEntry \<Rightarrow> Location" where "loc2 e \<equiv> snd (snd (locations e))"

type_synonym DevPair = "u8 \<times> u32"
type_synonym DevTuple = "DevPair \<times> DevPair \<times> DevPair"

text \<open>A slot of the RDMA circular buffer.\<close>

record BufferEntry =
  be_key_hash :: ObjectKeyHash
  be_epoch :: u8
  be_is_index :: bool
  be_value :: MapEntry
  be_padding :: "u8 list"

text \<open>\<^verbatim>\<open>ArrayHash\<close>: the hash the map uses for its keys, modulo \<open>2 ^ 64\<close>.\<close>

definition ArrayHash :: "ObjectKeyHash \<Rightarrow> u64" where
  "ArrayHash key = foldl (\<lambda>hash byte. hash * 31 + ucast byte) 0 key"

definition createMapEntry :: "DevTuple \<Rightarrow> u64 \<Rightarrow> u64 \<Rightarrow> u64 \<Rightarrow> u32 \<Rightarrow> MapEntry" where
  "createMapEntry tuple lba1 lba2 lba3 n =
     (case tuple of (tgt1, tgt2, tgt3) \<Rightarrow>
        \<lparr>locations = (\<lparr>device_id = uint (fst tgt1), lba = lba1\<rparr>,
                      \<lparr>device_id = uint (fst tgt2), lba = lba2\<rparr>,
                      \<lparr>device_id = uint (fst tgt3), lba = lba3\<rparr>),
         len = n, tombstoned = False\<rparr>)"

section \<open>Request contexts\<close>

record IoContext =
  io_ns :: nat
  io_qpair :: nat
  io_offset :: u64
  io_size :: u32
  io_flags :: u32

record RequestContext =
  has_ctrl :: bool
  io_thread :: "nat option"
  rc_device :: "nat option"
  zone_id :: u32
  cb_args :: "nat option"
  ioContext :: IoContext
  bufferSize :: u32
  dataBuffer :: "u8 list"
  success :: bool
  available :: bool
  is_write :: bool
  write_complete :: bool
  append_lba :: u64
  response_body :: string
  timestamp :: u64

definition Clear :: "RequestContext \<Rightarrow> RequestContext" where
  "Clear ctx = ctx\<lparr>available := True, success := False, cb_args := None, response_body := [],
     timestamp := - 1\<rparr>"

text \<open>\<^verbatim>\<open>new RequestContext()\<close>: zero-initialised.\<close>

definition zero_context :: RequestContext where
  "zero_context = \<lparr>has_ctrl = False, io_thread = None, rc_device = None, zone_id = 0, cb_args = None,
     ioContext = \<lparr>io_ns = 0, io_qpair = 0, io_offset = 0, io_size = 0, io_flags = 0\<rparr>,
     bufferSize = 0, dataBuffer = [], success = False, available = False, is_write = False,
     write_complete = False, append_lba = 0, response_body = [], timestamp = 0\<rparr>"

text \<open>
  The pool. A \<^verbatim>\<open>RequestContext *\<close> is a number: the contexts of the array \<^verbatim>\<open>contexts\<close> are
  \<open>0 ..< capacity\<close>, and each context allocated on demand gets the next unused number, which is not
  below the capacity. \<open>ctx_heap\<close> holds the live contexts.
\<close>

record RequestContextPool =
  ctx_heap :: "nat \<rightharpoonup> RequestContext"
  availableContexts :: "nat list"
  capacity :: u32
  next_ctx :: nat

end
