(* ===== verification/Zstore_Pool.thy ===== *)
theory Zstore_Pool
  imports Zstore_Types
begin

text \<open>
  The pool of request contexts (\<^verbatim>\<open>src/src/common.cc\<close>, \<^verbatim>\<open>RequestContextPool\<close>). Every operation
  runs under the global mutex, so it is one step. The pool hands out the context that was returned
  last; when it is empty and the caller insists, it allocates one, which is freed on return.

  \<open>pool_inv c p H\<close> is the invariant with the set \<open>H\<close> of contexts in use; \<open>pool_step\<close> is the
  relation of the steps of concurrent requests, each owning the contexts it acquired.
\<close>

definition fresh_context :: "conf \<Rightarrow> RequestContext \<Rightarrow> RequestContext" where
  "fresh_context c ctx = (Clear ctx)\<lparr>bufferSize := ucast (request_buffer_size c),
     dataBuffer := replicate (unat (request_buffer_size c)) 0\<rparr>"

text \<open>\<open>junk i\<close> is the uninitialised memory of the i-th array element.\<close>

definition new_RequestContextPool :: "conf \<Rightarrow> (nat \<Rightarrow> RequestContext) \<Rightarrow> u32 \<Rightarrow> RequestContextPool" where
  "new_RequestContextPool c junk cap =
     \<lparr>ctx_heap = (\<lambda>i. if i < unat cap then Some (fresh_context c (junk i)) else None),
      availableContexts = [0..<unat cap], capacity = cap, next_ctx = unat cap\<rparr>"

definition GetRequestContext ::
  "conf \<Rightarrow> bool \<Rightarrow> RequestContextPool \<Rightarrow> (nat option \<times> RequestContextPool) res" where
  "GetRequestContext c force p =
     (if availableContexts p = [] \<and> force = False then Inr (None, p)
      else if availableContexts p \<noteq> [] then
        (let i = last (availableContexts p) in
         case ctx_heap p i of
           None \<Rightarrow> Inl UseAfterFree
         | Some ctx \<Rightarrow> Inr (Some i, p\<lparr>availableContexts := butlast (availableContexts p),
             ctx_heap := (ctx_heap p)(i \<mapsto> (Clear ctx)\<lparr>available := False\<rparr>)\<rparr>))
      else
        (let i = next_ctx p;
             ctx = (Clear (zero_context\<lparr>bufferSize := ucast (request_buffer_size c),
                      dataBuffer := replicate (unat (request_buffer_size c)) 0\<rparr>))\<lparr>available := False\<rparr>
         in Inr (Some i, p\<lparr>ctx_heap := (ctx_heap p)(i \<mapsto> ctx), next_ctx := Suc i\<rparr>)))"

definition ReturnRequestContext :: "nat \<Rightarrow> RequestContextPool \<Rightarrow> RequestContextPool res" where
  "ReturnRequestContext slot p =
     (case ctx_heap p slot of
        None \<Rightarrow> Inl UseAfterFree
      | Some ctx \<Rightarrow>
          bindR (cassert (available ctx)) (\<lambda>_.
            if slot \<ge> unat (capacity p)
            then Inr (p\<lparr>ctx_heap := (ctx_heap p)(slot := None)\<rparr>)
            else bindR (cassert (length (availableContexts p) \<le> unat (capacity p))) (\<lambda>_.
                   Inr (p\<lparr>availableContexts := availableContexts p @ [slot]\<rparr>))))"

text \<open>Writing through a context pointer.\<close>

definition update_context :: "nat \<Rightarrow> (RequestContext \<Rightarrow> RequestContext) \<Rightarrow> RequestContextPool \<Rightarrow> RequestContextPool res" where
  "update_context slot f p =
     (case ctx_heap p slot of
        None \<Rightarrow> Inl UseAfterFree
      | Some ctx \<Rightarrow> Inr (p\<lparr>ctx_heap := (ctx_heap p)(slot \<mapsto> f ctx)\<rparr>))"

text \<open>How every caller gives a context back: \<^verbatim>\<open>slot->Clear()\<close>, then \<^verbatim>\<open>ReturnRequestContext\<close>.\<close>

definition clear_and_return :: "nat \<Rightarrow> RequestContextPool \<Rightarrow> RequestContextPool res" where
  "clear_and_return slot p = bindR (update_context slot Clear p) (ReturnRequestContext slot)"

definition acquire_context :: "conf \<Rightarrow> RequestContextPool \<Rightarrow> (nat \<times> RequestContextPool) res" where
  "acquire_context c p =
     bindR (GetRequestContext c True p) (\<lambda>(slot, p').
       case slot of None \<Rightarrow> Inl NullDeref | Some i \<Rightarrow> Inr (i, p'))"

section \<open>The invariant\<close>

definition context_ok :: "conf \<Rightarrow> RequestContext \<Rightarrow> bool" where
  "context_ok c ctx \<longleftrightarrow> bufferSize ctx = ucast (request_buffer_size c) \<and>
     length (dataBuffer ctx) = unat (request_buffer_size c)"

definition pool_inv :: "conf \<Rightarrow> RequestContextPool \<Rightarrow> nat set \<Rightarrow> bool" where
  "pool_inv c p H \<longleftrightarrow>
     distinct (availableContexts p) \<and>
     set (availableContexts p) \<inter> H = {} \<and>
     set (availableContexts p) \<union> (H \<inter> {..<unat (capacity p)}) = {..<unat (capacity p)} \<and>
     finite H \<and> unat (capacity p) \<le> next_ctx p \<and> H \<subseteq> {..<next_ctx p} \<and>
     dom (ctx_heap p) = {..<unat (capacity p)} \<union> H \<and>
     (\<forall>i ctx. ctx_heap p i = Some ctx \<longrightarrow> context_ok c ctx)"

lemma context_ok_simps [simp]:
  "context_ok c (Clear ctx) = context_ok c ctx"
  "context_ok c (ctx\<lparr>available := b\<rparr>) = context_ok c ctx"
  "context_ok c (fresh_context c ctx)"
  by (simp_all add: context_ok_def Clear_def fresh_context_def)

lemma new_pool_inv: "pool_inv c (new_RequestContextPool c junk cap) {}"
  by (auto simp: pool_inv_def new_RequestContextPool_def split: if_splits)

lemma pool_inv_available:
  assumes "pool_inv c p H"
  shows "set (availableContexts p) = {..<unat (capacity p)} - H"
  using assms by (auto simp: pool_inv_def)

lemma pool_inv_count:
  assumes "pool_inv c p H"
  shows "length (availableContexts p) + card (H \<inter> {..<unat (capacity p)}) = unat (capacity p)"
proof -
  have "distinct (availableContexts p)" "set (availableContexts p) \<inter> (H \<inter> {..<unat (capacity p)}) = {}"
      "set (availableContexts p) \<union> (H \<inter> {..<unat (capacity p)}) = {..<unat (capacity p)}"
    using assms by (auto simp: pool_inv_def)
  then show ?thesis
    by (metis card_Un_disjoint card_lessThan distinct_card finite_Un finite_lessThan)
qed

lemma pool_inv_held:
  assumes "pool_inv c p H" and "i \<in> H"
  shows "\<exists>ctx. ctx_heap p i = Some ctx \<and> context_ok c ctx"
proof -
  have "i \<in> dom (ctx_heap p)" using assms by (simp add: pool_inv_def)
  then obtain ctx where "ctx_heap p i = Some ctx" by blast
  then show ?thesis using assms(1) by (auto simp: pool_inv_def)
qed

lemma GetRequestContext_pop:
  assumes "pool_inv c p H" and "availableContexts p = xs @ [i]"
  shows "\<exists>ctx. ctx_heap p i = Some ctx \<and>
    GetRequestContext c force p = Inr (Some i, p\<lparr>availableContexts := xs,
      ctx_heap := (ctx_heap p)(i \<mapsto> (Clear ctx)\<lparr>available := False\<rparr>)\<rparr>)"
proof -
  have "i \<in> {..<unat (capacity p)}" using assms by (auto simp: pool_inv_def)
  then have "i \<in> dom (ctx_heap p)" using assms(1) by (simp add: pool_inv_def)
  then show ?thesis using assms(2) by (auto simp: GetRequestContext_def)
qed

lemma acquire_pool_inv:
  assumes inv: "pool_inv c p H"
  shows "\<exists>i p'. acquire_context c p = Inr (i, p') \<and> i \<notin> H \<and> pool_inv c p' (insert i H)"
proof (cases "availableContexts p = []")
  case True
  have "next_ctx p \<notin> H" "next_ctx p \<notin> {..<unat (capacity p)}"
    using inv by (auto simp: pool_inv_def)
  moreover have "insert (next_ctx p) H \<inter> {..<unat (capacity p)} = H \<inter> {..<unat (capacity p)}"
    using calculation by auto
  ultimately show ?thesis
    using inv True
    by (auto simp: acquire_context_def GetRequestContext_def Let_def pool_inv_def context_ok_def Clear_def
        lessThan_Suc)
next
  case False
  then obtain xs i where xs: "availableContexts p = xs @ [i]" by (metis rev_exhaust)
  obtain ctx where ctx: "ctx_heap p i = Some ctx" and get: "GetRequestContext c True p =
      Inr (Some i, p\<lparr>availableContexts := xs, ctx_heap := (ctx_heap p)(i \<mapsto> (Clear ctx)\<lparr>available := False\<rparr>)\<rparr>)"
    using GetRequestContext_pop [OF inv xs] by blast
  have i: "i < unat (capacity p)" "i \<notin> H" "i \<notin> set xs" "i < next_ctx p" "context_ok c ctx"
    using inv xs ctx by (auto simp: pool_inv_def)
  have "set xs \<union> (insert i H \<inter> {..<unat (capacity p)}) = {..<unat (capacity p)}"
    using inv xs i by (auto simp: pool_inv_def)
  with i show ?thesis
    using inv xs get by (auto simp: acquire_context_def pool_inv_def)
qed

lemma clear_and_return_pool_inv:
  assumes inv: "pool_inv c p H" and "i \<in> H"
  shows "\<exists>p'. clear_and_return i p = Inr p' \<and> pool_inv c p' (H - {i})"
proof -
  obtain ctx where ctx: "ctx_heap p i = Some ctx" "context_ok c ctx"
    using pool_inv_held [OF assms] by blast
  have cnt: "length (availableContexts p) \<le> unat (capacity p)"
    using pool_inv_count [OF inv] by simp
  have avail: "available (Clear ctx)" by (simp add: Clear_def)
  show ?thesis
  proof (cases "i < unat (capacity p)")
    case True
    have "set (availableContexts p) = {..<unat (capacity p)} - H"
      by (rule pool_inv_available [OF inv])
    with True show ?thesis
      using inv assms(2) ctx cnt avail
      by (auto simp: clear_and_return_def update_context_def ReturnRequestContext_def pool_inv_def)
  next
    case False
    have "(H - {i}) \<inter> {..<unat (capacity p)} = H \<inter> {..<unat (capacity p)}"
      using False by auto
    with False show ?thesis
      using inv assms(2) ctx avail
      by (auto simp: clear_and_return_def update_context_def ReturnRequestContext_def pool_inv_def)
  qed
qed

lemma update_context_pool_inv:
  assumes inv: "pool_inv c p H" and "i \<in> H" and "\<And>ctx. context_ok c ctx \<Longrightarrow> context_ok c (f ctx)"
  shows "\<exists>p'. update_context i f p = Inr p' \<and> pool_inv c p' H"
proof -
  obtain ctx where ctx: "ctx_heap p i = Some ctx" "context_ok c ctx"
    using pool_inv_held [OF assms(1,2)] by blast
  then show ?thesis
    using inv assms(2,3) by (auto simp: update_context_def pool_inv_def)
qed

interpretation ctx_pool: context_pool "acquire_context c" clear_and_return "pool_inv c" for c
  by unfold_locales (use acquire_pool_inv clear_and_return_pool_inv in blast)+

section \<open>Concurrent requests\<close>

text \<open>
  Requests run concurrently and share the pool. A state pairs the pool with the owner of each
  context in use. A request \<open>r\<close> may acquire a context, write to a context it owns (never to its
  buffer's size), and give one back.
\<close>

inductive pool_step ::
  "conf \<Rightarrow> RequestContextPool \<times> (nat \<rightharpoonup> 'r) \<Rightarrow> RequestContextPool \<times> (nat \<rightharpoonup> 'r) \<Rightarrow> bool" for c where
  get: "GetRequestContext c force p = Inr (Some i, p') \<Longrightarrow>
     pool_step c (p, own) (p', own(i \<mapsto> r))"
| get_none: "GetRequestContext c force p = Inr (None, p') \<Longrightarrow> pool_step c (p, own) (p', own)"
| use: "own i = Some r \<Longrightarrow> (\<And>ctx. context_ok c ctx \<Longrightarrow> context_ok c (f ctx)) \<Longrightarrow>
     update_context i f p = Inr p' \<Longrightarrow> pool_step c (p, own) (p', own)"
| return: "own i = Some r \<Longrightarrow> clear_and_return i p = Inr p' \<Longrightarrow>
     pool_step c (p, own) (p', own(i := None))"

inductive pool_reachable ::
  "conf \<Rightarrow> (nat \<Rightarrow> RequestContext) \<Rightarrow> u32 \<Rightarrow> RequestContextPool \<times> (nat \<rightharpoonup> 'r) \<Rightarrow> bool" for c junk cap where
  start: "pool_reachable c junk cap (new_RequestContextPool c junk cap, Map.empty)"
| step: "pool_reachable c junk cap s \<Longrightarrow> pool_step c s t \<Longrightarrow> pool_reachable c junk cap t"

inductive_cases pool_stepE: "pool_step c (p, own) t"

lemma GetRequestContext_Some:
  assumes "pool_inv c p H" and "GetRequestContext c force p = Inr (Some i, p')"
  shows "i \<notin> H" "pool_inv c p' (insert i H)"
proof -
  have "GetRequestContext c True p = Inr (Some i, p')"
    using assms(2) by (auto simp: GetRequestContext_def split: if_splits)
  then have "acquire_context c p = Inr (i, p')" by (simp add: acquire_context_def)
  with ctx_pool.acquire_cases [OF assms(1)] show "i \<notin> H" "pool_inv c p' (insert i H)" by blast+
qed

lemma GetRequestContext_None:
  "GetRequestContext c force p = Inr (None, p') \<longleftrightarrow> availableContexts p = [] \<and> \<not> force \<and> p' = p"
  by (auto simp: GetRequestContext_def Let_def split: option.splits)

lemma pool_step_inv:
  assumes "pool_step c s t" and "pool_inv c (fst s) (dom (snd s))"
  shows "pool_inv c (fst t) (dom (snd t))"
  using assms
proof (induction rule: pool_step.induct)
  case (get force p i p' own r)
  then show ?case using GetRequestContext_Some(2) [of c p "dom own" force i p'] by (simp del: fun_upd_apply)
next
  case (get_none force p p' own)
  then show ?case by (auto simp: GetRequestContext_None)
next
  case (use own i r f p p')
  then have "i \<in> dom own" by auto
  with use show ?case using update_context_pool_inv [of c p "dom own" i f] by auto
next
  case (return own i r p p')
  then have "i \<in> dom own" by auto
  with return show ?case
    using clear_and_return_pool_inv [of c p "dom own" i] by (auto simp del: fun_upd_apply)
qed

lemma pool_reachable_inv:
  "pool_reachable c junk cap s \<Longrightarrow> pool_inv c (fst s) (dom (snd s))"
proof (induction rule: pool_reachable.induct)
  case start
  then show ?case by (simp add: new_pool_inv)
next
  case (step s t)
  then show ?case using pool_step_inv by blast
qed

lemma GetRequestContext_capacity: "GetRequestContext c force p = Inr (i, p') \<Longrightarrow> capacity p' = capacity p"
  by (auto simp: GetRequestContext_def Let_def split: if_splits option.splits)

lemma update_context_capacity: "update_context i f p = Inr p' \<Longrightarrow> capacity p' = capacity p"
  by (auto simp: update_context_def split: option.splits)

lemma clear_and_return_capacity: "clear_and_return i p = Inr p' \<Longrightarrow> capacity p' = capacity p"
  by (auto simp: clear_and_return_def ReturnRequestContext_def update_context_def bindR_eq_Inr cassert_eq_Inr
      split: option.splits if_splits)

lemma pool_reachable_capacity: "pool_reachable c junk cap s \<Longrightarrow> capacity (fst s) = cap"
proof (induction rule: pool_reachable.induct)
  case start
  then show ?case by (simp add: new_RequestContextPool_def)
next
  case (step s t)
  from step(2) have "capacity (fst t) = capacity (fst s)"
    by (cases rule: pool_step.cases)
       (auto dest: GetRequestContext_capacity update_context_capacity clear_and_return_capacity)
  with step(3) show ?case by simp
qed

section \<open>Properties\<close>

definition ex_pool :: RequestContextPool where
  "ex_pool = new_RequestContextPool conf_default (\<lambda>_. zero_context) 2"

definition ex_pool1 :: RequestContextPool where
  "ex_pool1 = ex_pool\<lparr>availableContexts := [0], ctx_heap := (ctx_heap ex_pool)
     (1 \<mapsto> (Clear (fresh_context conf_default zero_context))\<lparr>available := False\<rparr>)\<rparr>"

lemma ex_get: "GetRequestContext conf_default False ex_pool = Inr (Some 1, ex_pool1)"
  by (simp add: GetRequestContext_def ex_pool1_def ex_pool_def new_RequestContextPool_def upt_rec)

lemma ex_pool_reachable: "pool_reachable conf_default (\<lambda>_. zero_context) 2 (ex_pool1, [1 \<mapsto> ()])"
  using pool_reachable.step [OF pool_reachable.start pool_step.get [OF ex_get [unfolded ex_pool_def]]]
  by fast

text \<open>
  (C7) Whatever steps concurrent requests take, a context is never available and in use at once,
  no context is available twice, every context in use is live with the buffer it was created with,
  and the available contexts and the preallocated ones in use always add up to the capacity.
\<close>

theorem pool_exclusive_and_conserved:
  assumes "pool_reachable c junk cap (p, own)"
  shows "distinct (availableContexts p) \<and> set (availableContexts p) \<inter> dom own = {} \<and>
    (\<forall>i \<in> dom own. \<exists>ctx. ctx_heap p i = Some ctx \<and> context_ok c ctx) \<and>
    length (availableContexts p) + card (dom own \<inter> {..<unat cap}) = unat cap"
proof -
  have inv: "pool_inv c p (dom own)" using pool_reachable_inv [OF assms] by simp
  moreover have "capacity p = cap" using pool_reachable_capacity [OF assms] by simp
  ultimately show ?thesis
    using pool_inv_count [OF inv] pool_inv_held [OF inv] by (auto simp: pool_inv_def)
qed

theorem pool_exclusive_and_conserved_witness:
  "set (availableContexts ex_pool1) \<inter> {1} = {} \<and> length (availableContexts ex_pool1) + card ({1} \<inter> {..<2 :: nat}) = 2"
  using pool_exclusive_and_conserved [OF ex_pool_reachable] by simp

text \<open>
  In every reachable state a request that asks for a context gets one that nobody uses, or none
  exactly when the pool is empty and it does not insist; and giving back a context in use never
  fails an assertion.
\<close>

lemma pool_get_and_return:
  assumes "pool_reachable c junk cap (p, own)"
  shows "(\<exists>r. GetRequestContext c force p = Inr r) \<and>
    (\<forall>i p'. GetRequestContext c force p = Inr (Some i, p') \<longrightarrow> own i = None) \<and>
    (\<forall>p'. GetRequestContext c force p = Inr (None, p') \<longleftrightarrow> availableContexts p = [] \<and> \<not> force \<and> p' = p) \<and>
    (\<forall>i \<in> dom own. \<exists>p'. clear_and_return i p = Inr p' \<and> pool_inv c p' (dom own - {i}))"
proof -
  have inv: "pool_inv c p (dom own)" using pool_reachable_inv [OF assms] by simp
  have "\<exists>r. GetRequestContext c force p = Inr r"
  proof (cases "availableContexts p = []")
    case True
    then show ?thesis by (simp add: GetRequestContext_def Let_def)
  next
    case False
    then obtain xs i where "availableContexts p = xs @ [i]" by (metis rev_exhaust)
    then show ?thesis using GetRequestContext_pop [OF inv] by blast
  qed
  moreover have "own i = None" if "GetRequestContext c force p = Inr (Some i, p')" for i p'
    using GetRequestContext_Some(1) [OF inv that] by auto
  ultimately show ?thesis
    using clear_and_return_pool_inv [OF inv] GetRequestContext_None by blast
qed

lemma pool_get_and_return_example:
  "(\<exists>r. GetRequestContext conf_default True ex_pool1 = Inr r) \<and> (\<exists>p'. clear_and_return 1 ex_pool1 = Inr p')"
  using pool_get_and_return [OF ex_pool_reachable, of True] by auto

end
