(* ===== verification/Zstore_Controller.thy ===== *)
theory Zstore_Controller
  imports Zstore_Pool
begin

text \<open>
  The state of \<^verbatim>\<open>ZstoreController\<close> (\<^verbatim>\<open>src/src/include/zstore_controller.h\<close>) and its object map,
  placement and population operations (\<^verbatim>\<open>src/src/zstore_controller.cc\<close>).

  The concurrent hash map is a finite partial map: every operation of it is atomic. The order in
  which \<^verbatim>\<open>visit_all\<close> visits it is a parameter, a list of its keys. \<^verbatim>\<open>std::rand\<close> after
  \<^verbatim>\<open>std::srand(seed)\<close> is the parameter \<open>rnd\<close>; SHA-256 is \<open>H\<close>. A \<^verbatim>\<open>Device *\<close> is an index into
  \<open>mDevices\<close>, with \<open>None\<close> for the null pointer. The members that hold threads, sockets and SPDK
  pollers are left out.
\<close>

record zctrl =
  mKeyExperiment :: int
  mOption :: int
  mDevHash :: "DevTuple list"
  mMap :: "ObjectKeyHash \<rightharpoonup> MapEntry"
  mInflight :: "ObjectKeyHash set"
  mBroadcast :: "ObjectKeyHash set"
  mRequestContextPool :: RequestContextPool
  mReplayRequestContextPool :: "u32 \<rightharpoonup> RequestContextPool"
  mTotalCounts :: u64
  mManagementCounts :: u64
  mDevices :: "device list"
  mZkConnected :: int
  mZkExpired :: int
  nodeName :: string
  leaderNodeName :: string
  mEpoch :: u8
  mGateway :: u8
  mN :: int
  mContextPoolSize :: int
  mRandReadMapSize :: int
  mCkptMapSize :: int
  mCkptRecentMapSize :: int
  mCkpt :: bool
  mHasRunCkpt :: bool
  mSelfIp :: string

section \<open>Devices\<close>

definition device_at :: "zctrl \<Rightarrow> nat \<Rightarrow> nat option res" where
  "device_at z i = (if i < length (mDevices z) then Inr (Some i) else Inl OutOfBounds)"

definition GetDevice :: "string \<Rightarrow> zctrl \<Rightarrow> nat option res" where
  "GetDevice target_dev z =
     (if target_dev = ''Zstore2Dev1'' then device_at z 0
      else if target_dev = ''Zstore2Dev2'' then device_at z 1
      else if target_dev = ''Zstore3Dev1'' then device_at z 2
      else if target_dev = ''Zstore3Dev2'' then device_at z 3
      else if target_dev = ''Zstore4Dev1'' then device_at z 4
      else if target_dev = ''Zstore4Dev2'' then device_at z 5
      else if target_dev = ''Zstore5Dev1'' then device_at z 6
      else if target_dev = ''Zstore5Dev2'' then device_at z 7
      else Inr None)"

text \<open>The \<open>int\<close> argument converts to \<^verbatim>\<open>unsigned long\<close>.\<close>

definition GetDeviceById :: "int \<Rightarrow> zctrl \<Rightarrow> nat option" where
  "GetDeviceById index z =
     (let i = unat (of_int index :: u64) in if i \<ge> length (mDevices z) then None else Some i)"

text \<open>The remainder of C, which has the sign of the dividend.\<close>

definition c_rem :: "int \<Rightarrow> int \<Rightarrow> int" where
  "c_rem a b = a - trunc_div a b * b"

definition getDevice :: "int \<Rightarrow> string" where
  "getDevice i =
     (if c_rem i 6 = 0 then ''Zstore2Dev1''
      else if c_rem i 6 = 1 then ''Zstore2Dev2''
      else if c_rem i 6 = 2 then ''Zstore3Dev1''
      else if c_rem i 6 = 3 then ''Zstore3Dev2''
      else if c_rem i 6 = 4 then ''Zstore4Dev1''
      else if c_rem i 6 = 5 then ''Zstore4Dev2''
      else '''')"

definition getDeviceId :: "int \<Rightarrow> u8" where
  "getDeviceId i = of_int (c_rem i 6)"

lemma c_rem_nonneg: "0 \<le> a \<Longrightarrow> 0 < b \<Longrightarrow> c_rem a b = a mod b"
  by (simp add: c_rem_def trunc_div_def Let_def minus_div_mult_eq_mod)

lemma GetDeviceById_nat:
  "0 \<le> i \<Longrightarrow> nat i < length (mDevices z) \<Longrightarrow> length (mDevices z) < 2 ^ 64 \<Longrightarrow>
   GetDeviceById i z = Some (nat i)"
  by (simp add: GetDeviceById_def Let_def unat_of_int)

section \<open>Placement\<close>

definition tgt_dev_vec :: "conf \<Rightarrow> DevPair list" where
  "tgt_dev_vec c = map (\<lambda>i. (of_nat i, ucast (GetZoneId c))) [0..<6]"

definition PopulateDevHash :: "conf \<Rightarrow> zctrl \<Rightarrow> zctrl" where
  "PopulateDevHash c z =
     (let v = tgt_dev_vec c in
      z\<lparr>mDevHash := mDevHash z @
        [(v ! i, v ! j, v ! k). i \<leftarrow> [0..<length v], j \<leftarrow> [0..<length v], i \<noteq> j,
           k \<leftarrow> [0..<length v], \<not> (i = k \<or> j = k)]\<rparr>)"

definition GetDevTupleForRandomReads :: "conf \<Rightarrow> ObjectKeyHash \<Rightarrow> DevTuple" where
  "GetDevTupleForRandomReads c key_hash =
     ((1, ucast (GetZoneId c)), (3, ucast (GetZoneId c)), (4, ucast (GetZoneId c)))"

definition CreateFakeObject :: "ObjectKeyHash \<Rightarrow> DevTuple \<Rightarrow> MapEntry" where
  "CreateFakeObject key_hash tuple = createMapEntry tuple 0 0 0 1"

definition GetDevTuple :: "(u32 \<Rightarrow> int) \<Rightarrow> ObjectKeyHash \<Rightarrow> zctrl \<Rightarrow> DevTuple res" where
  "GetDevTuple rnd key_hash z =
     (let seed = arrayToSeed key_hash in
      if mDevHash z = [] then Inl DivByZero
      else Inr (mDevHash z ! (unat (of_int (rnd seed) :: u64) mod length (mDevHash z))))"

text \<open>A tuple of three different devices of the six.\<close>

definition dev_tuple_ok :: "DevTuple \<Rightarrow> bool" where
  "dev_tuple_ok t = (case t of ((a, _), (b, _), (d, _)) \<Rightarrow>
     a \<noteq> b \<and> a \<noteq> d \<and> b \<noteq> d \<and> a < 6 \<and> b < 6 \<and> d < 6)"

lemma dev_hash_new_ok:
  "t \<in> set (mDevHash (PopulateDevHash c z)) \<Longrightarrow> t \<in> set (mDevHash z) \<or> dev_tuple_ok t"
  by (auto simp: PopulateDevHash_def Let_def tgt_dev_vec_def dev_tuple_ok_def word_less_nat_alt
      unat_of_nat word_of_nat_eq_iff take_bit_nat_eq_self)

lemma PopulateDevHash_fields [simp]:
  "mMap (PopulateDevHash c z) = mMap z" "mDevices (PopulateDevHash c z) = mDevices z"
  "mRequestContextPool (PopulateDevHash c z) = mRequestContextPool z"
  by (simp_all add: PopulateDevHash_def Let_def)

section \<open>The object map\<close>

definition PutObject :: "ObjectKeyHash \<Rightarrow> MapEntry \<Rightarrow> zctrl \<Rightarrow> bool \<times> zctrl" where
  "PutObject key_hash entry z = (mMap z key_hash = None, z\<lparr>mMap := (mMap z)(key_hash \<mapsto> entry)\<rparr>)"

definition GetObject :: "ObjectKeyHash \<Rightarrow> zctrl \<Rightarrow> MapEntry option" where
  "GetObject key_hash z = mMap z key_hash"

text \<open>The returned entry is indeterminate (\<open>None\<close>) when the key is absent.\<close>

definition DeleteObject :: "ObjectKeyHash \<Rightarrow> zctrl \<Rightarrow> MapEntry option \<times> zctrl" where
  "DeleteObject key_hash z = (mMap z key_hash, z\<lparr>mMap := (mMap z)(key_hash := None)\<rparr>)"

fun list_visit :: "int \<Rightarrow> ObjectKeyHash list \<Rightarrow> int \<Rightarrow> ObjectKeyHash list \<Rightarrow> ObjectKeyHash list" where
  "list_visit max_keys [] count keys = keys"
| "list_visit max_keys (k # ks) count keys =
     (if count < max_keys then list_visit max_keys ks (count + 1) (keys @ [k])
      else list_visit max_keys ks count keys)"

definition ListObjects :: "ObjectKeyHash list \<Rightarrow> int \<Rightarrow> ObjectKeyHash list" where
  "ListObjects visit_order max_keys = list_visit max_keys visit_order 0 []"

definition visits_map :: "ObjectKeyHash list \<Rightarrow> (ObjectKeyHash \<rightharpoonup> MapEntry) \<Rightarrow> bool" where
  "visits_map order m \<longleftrightarrow> distinct order \<and> set order = dom m"

definition SearchInflight :: "ObjectKeyHash \<Rightarrow> zctrl \<Rightarrow> bool" where
  "SearchInflight key_hash z \<longleftrightarrow> key_hash \<in> mInflight z"

text \<open>Both overloads of \<^verbatim>\<open>BroadcastToInflight\<close> have their bodies commented out.\<close>

definition BroadcastToInflight :: "ObjectKeyHash \<Rightarrow> zctrl \<Rightarrow> bool \<times> zctrl" where
  "BroadcastToInflight key_hash z = (True, z)"

definition BroadcastLocations :: "ObjectKeyHash \<Rightarrow> 'c \<Rightarrow> 'c \<Rightarrow> 'c \<Rightarrow> zctrl \<Rightarrow> bool \<times> zctrl" where
  "BroadcastLocations key_hash s1 s2 s3 z = (True, z)"

definition AddToBroadcast :: "ObjectKeyHash \<Rightarrow> zctrl \<Rightarrow> zctrl" where
  "AddToBroadcast key_hash z = z\<lparr>mBroadcast := insert key_hash (mBroadcast z)\<rparr>"

interpretation zmap: object_map "\<lambda>k v z. snd (PutObject k v z)" "\<lambda>k z. snd (DeleteObject k z)"
    "\<lambda>z k. GetObject k z"
  by unfold_locales (simp_all add: PutObject_def DeleteObject_def GetObject_def)

lemma list_visit_eq: "list_visit n ks count keys = keys @ take (nat (n - count)) ks"
proof (induction ks arbitrary: count keys)
  case Nil
  then show ?case by simp
next
  case (Cons k ks)
  have "nat (n - count) = Suc (nat (n - (count + 1)))" if "count < n" using that by simp
  with Cons show ?case by simp
qed

lemma ListObjects_eq: "ListObjects order n = take (nat n) order"
  by (simp add: ListObjects_def list_visit_eq)

section \<open>Population of the map\<close>

definition populate_entry :: "conf \<Rightarrow> u8 \<Rightarrow> bool \<Rightarrow> u64 \<Rightarrow> MapEntry" where
  "populate_entry c dev tomb current_lba =
     (let zid = ucast (GetZoneId c) in
      (createMapEntry ((dev, zid), (1, zid), (2, zid)) current_lba current_lba current_lba
        (bytes_to_blocks c (gObjectSizeInBytes c)))\<lparr>tombstoned := tomb\<rparr>)"

text \<open>The position an index gets: the next block, or the start of the next zone when the offset in
  the zone has passed the capacity.\<close>

definition next_position :: "conf \<Rightarrow> u32 \<times> u64 \<Rightarrow> u32 \<times> u64" where
  "next_position c st = (case st of (current_zone, current_lba) \<Rightarrow>
     if current_lba mod gZoneDist c > gZoneCap c
     then (current_zone + 1, ucast (current_zone + 1) * gZoneDist c)
     else (current_zone, current_lba))"

definition populate_step ::
  "conf \<Rightarrow> (u8 list \<Rightarrow> u8 list) \<Rightarrow> (nat \<Rightarrow> u8) \<Rightarrow> bool \<Rightarrow> nat \<Rightarrow>
   (u32 \<times> u64) \<times> (ObjectKeyHash \<rightharpoonup> MapEntry) \<Rightarrow> (u32 \<times> u64) \<times> (ObjectKeyHash \<rightharpoonup> MapEntry)" where
  "populate_step c H dev tomb i st =
     (case st of (pos, m) \<Rightarrow>
       let (current_zone, current_lba) = next_position c pos;
           key = computeSHA256 H (dec_string i);
           m' = (if m key = None then m(key \<mapsto> populate_entry c (dev i) tomb current_lba) else m)
       in ((current_zone, current_lba + 1), m'))"

definition populate ::
  "conf \<Rightarrow> (u8 list \<Rightarrow> u8 list) \<Rightarrow> (nat \<Rightarrow> u8) \<Rightarrow> bool \<Rightarrow> nat \<Rightarrow>
   (ObjectKeyHash \<rightharpoonup> MapEntry) \<Rightarrow> (ObjectKeyHash \<rightharpoonup> MapEntry)" where
  "populate c H dev tomb n m =
     snd (fold (populate_step c H dev tomb) [0..<n] ((ucast (GetZoneId c), 0), m))"

definition populateCkptMap :: "conf \<Rightarrow> (u8 list \<Rightarrow> u8 list) \<Rightarrow> zctrl \<Rightarrow> zctrl" where
  "populateCkptMap c H z =
     z\<lparr>mMap := populate c H (\<lambda>i. if i mod 2 = 0 then 0 else 1) False (nat (mCkptMapSize z)) (mMap z),
       mInflight := mInflight z \<union>
         (\<lambda>i. computeSHA256 H (dec_string i)) ` {..<nat (mCkptRecentMapSize z)}\<rparr>"

definition populateGcMap :: "conf \<Rightarrow> (u8 list \<Rightarrow> u8 list) \<Rightarrow> zctrl \<Rightarrow> zctrl" where
  "populateGcMap c H z =
     z\<lparr>mMap := populate c H (\<lambda>i. of_nat (i mod 6)) True (nat (mCkptMapSize z)) (mMap z)\<rparr>"

definition PopulateMap :: "conf \<Rightarrow> (u8 list \<Rightarrow> u8 list) \<Rightarrow> zctrl \<Rightarrow> zctrl" where
  "PopulateMap c H z =
     (if mKeyExperiment z = 1 then
        z\<lparr>mMap := populate c H (\<lambda>i. getDeviceId (int i)) False (nat (mRandReadMapSize z)) (mMap z)\<rparr>
      else if mKeyExperiment z = 2 then z
      else if mKeyExperiment z = 3 then (if mOption z = 1 then populateCkptMap c H z else z)
      else if mKeyExperiment z = 5 then (if mOption z = 1 then populateCkptMap c H z else z)
      else if mKeyExperiment z = 6 then (if mOption z = 1 then populateGcMap c H z else z)
      else z)"

subsection \<open>Positions\<close>

text \<open>The position before index \<open>i\<close> is treated, and the block its object gets.\<close>

definition advance :: "conf \<Rightarrow> u32 \<times> u64 \<Rightarrow> u32 \<times> u64" where
  "advance c st = (fst (next_position c st), snd (next_position c st) + 1)"

definition position_before :: "conf \<Rightarrow> nat \<Rightarrow> u32 \<times> u64" where
  "position_before c i = (advance c ^^ i) (ucast (GetZoneId c), 0)"

definition object_lba :: "conf \<Rightarrow> nat \<Rightarrow> u64" where
  "object_lba c i = snd (next_position c (position_before c i))"

lemma position_before_Suc: "position_before c (Suc i) = advance c (position_before c i)"
  by (simp add: position_before_def)

lemma populate_step_eq:
  "populate_step c H dev tomb i (pos, m) =
     (advance c pos,
      let key = computeSHA256 H (dec_string i) in
      if m key = None then m(key \<mapsto> populate_entry c (dev i) tomb (snd (next_position c pos))) else m)"
  by (simp add: populate_step_def advance_def Let_def case_prod_beta)

lemma populate_fold:
  "fst (fold (populate_step c H dev tomb) [0..<n] ((ucast (GetZoneId c), 0), m)) = position_before c n"
proof (induction n)
  case 0
  then show ?case by (simp add: position_before_def)
next
  case (Suc n)
  let ?st = "fold (populate_step c H dev tomb) [0..<n] ((ucast (GetZoneId c), 0), m)"
  have "fold (populate_step c H dev tomb) [0..<Suc n] ((ucast (GetZoneId c), 0), m) =
      populate_step c H dev tomb n (fst ?st, snd ?st)" by simp
  then show ?case by (simp only: populate_step_eq Suc fst_conv position_before_Suc)
qed

lemma populate_0 [simp]: "populate c H dev tomb 0 m = m"
  by (simp add: populate_def)

lemma populate_Suc:
  "populate c H dev tomb (Suc n) m =
     (let m' = populate c H dev tomb n m; key = computeSHA256 H (dec_string n) in
      if m' key = None then m'(key \<mapsto> populate_entry c (dev n) tomb (object_lba c n)) else m')"
proof -
  let ?st = "fold (populate_step c H dev tomb) [0..<n] ((ucast (GetZoneId c), 0), m)"
  have "populate c H dev tomb (Suc n) m = snd (populate_step c H dev tomb n (fst ?st, snd ?st))"
    by (simp add: populate_def)
  also have "fst ?st = position_before c n" by (rule populate_fold)
  also have "snd ?st = populate c H dev tomb n m" by (simp only: populate_def)
  finally show ?thesis by (simp only: populate_step_eq snd_conv object_lba_def Let_def)
qed

lemma dom_populate:
  "dom (populate c H dev tomb n m) = dom m \<union> (\<lambda>i. computeSHA256 H (dec_string i)) ` {..<n}"
  by (induction n) (auto simp: populate_Suc Let_def lessThan_Suc)

lemma populate_ran:
  "populate c H dev tomb n m k = Some e \<Longrightarrow>
   m k = Some e \<or> (\<exists>i < n. k = computeSHA256 H (dec_string i) \<and> e = populate_entry c (dev i) tomb (object_lba c i))"
  by (induction n) (auto simp: populate_Suc Let_def less_Suc_eq split: if_splits)

lemma populate_lookup:
  assumes inj: "inj_on (\<lambda>i. computeSHA256 H (dec_string i)) {..<n}" and "i < n"
    and "m (computeSHA256 H (dec_string i)) = None"
  shows "populate c H dev tomb n m (computeSHA256 H (dec_string i)) =
    Some (populate_entry c (dev i) tomb (object_lba c i))"
proof -
  let ?k = "\<lambda>i. computeSHA256 H (dec_string i)"
  have "?k i \<in> dom (populate c H dev tomb n m)" using assms(2) by (simp add: dom_populate)
  then obtain e where e: "populate c H dev tomb n m (?k i) = Some e" by auto
  then obtain j where "j < n" "?k i = ?k j" "e = populate_entry c (dev j) tomb (object_lba c j)"
    using populate_ran [OF e] assms(3) by auto
  moreover from this have "i = j" using inj assms(2) by (auto dest: inj_onD)
  ultimately show ?thesis using e by simp
qed

text \<open>Zone starts are multiples of the zone distance, so every assigned block lies within the
  first \<open>gZoneCap + 1\<close> blocks of its zone.\<close>

lemma word_mult_mod_self:
  assumes "unat (a :: u64) * unat (d :: u64) < 2 ^ 64"
  shows "(a * d) mod d = 0"
proof -
  have "unat (a * d) = unat a * unat d"
    using assms by (simp add: unat_word_ariths(2))
  then have "unat ((a * d) mod d) = 0" by (simp add: unat_mod_distrib)
  then show ?thesis by (rule unsigned_eq_0_iff [THEN iffD1])
qed

lemma zone_start_fits:
  assumes "unat (d :: u64) \<le> 2 ^ 32"
  shows "unat (ucast (w :: u32) :: u64) * unat d < 2 ^ 64"
proof -
  have w: "unat (ucast w :: u64) < 2 ^ 32"
    using unat_bound [of w] by (simp add: unsigned_ucast_eq take_bit_nat_eq_self)
  have "unat (ucast w :: u64) * unat d \<le> unat (ucast w :: u64) * 2 ^ 32"
    using assms by (rule mult_le_mono2)
  also have "\<dots> < 2 ^ 32 * 2 ^ 32" using w by (rule mult_strict_right_mono) simp
  finally show ?thesis by simp
qed

lemma next_position_offset:
  assumes "unat (gZoneDist c) \<le> 2 ^ 32"
  shows "snd (next_position c st) mod gZoneDist c \<le> gZoneCap c"
  using word_mult_mod_self [OF zone_start_fits [OF assms]]
  by (simp add: next_position_def case_prod_beta not_less)

section \<open>Properties\<close>

text \<open>A controller with six devices and nothing else.\<close>

definition ex_ctrl :: zctrl where
  "ex_ctrl = \<lparr>mKeyExperiment = 1, mOption = 1, mDevHash = [], mMap = Map.empty, mInflight = {}, mBroadcast = {},
     mRequestContextPool = ex_pool, mReplayRequestContextPool = Map.empty, mTotalCounts = 0, mManagementCounts = 0,
     mDevices = replicate 6 new_Device, mZkConnected = 0, mZkExpired = 0, nodeName = [], leaderNodeName = [],
     mEpoch = 0, mGateway = 1, mN = 6, mContextPoolSize = 2, mRandReadMapSize = 2, mCkptMapSize = 2,
     mCkptRecentMapSize = 1, mCkpt = False, mHasRunCkpt = False, mSelfIp = []\<rparr>"

lemma position_Suc:
  "next_position c (position_before c (Suc i)) =
     next_position c (fst (next_position c (position_before c i)), object_lba c i + 1)"
  by (simp add: position_before_Suc advance_def object_lba_def)

text \<open>The closed form of the block of object \<open>i\<close>: objects fill \<open>gZoneCap + 1\<close> blocks of each zone. The
  first zone is entered at block 0, every later one at its start.\<close>

definition lba_spec :: "conf \<Rightarrow> nat \<Rightarrow> nat" where
  "lba_spec c i = (let n = Suc (unat (gZoneCap c)); q = i div n in
     (if q = 0 then 0 else (unat (ucast (GetZoneId c) :: u32) + q) * unat (gZoneDist c)) + i mod n)"

definition zones_fit :: "conf \<Rightarrow> nat \<Rightarrow> bool" where
  "zones_fit c n \<longleftrightarrow> (let m = unat (ucast (GetZoneId c) :: u32) + n div Suc (unat (gZoneCap c)) in
     Suc m < 2 ^ 32 \<and> Suc m * unat (gZoneDist c) < 2 ^ 64 \<and> Suc (unat (gZoneCap c)) < unat (gZoneDist c))"

lemma zones_fit_mono:
  assumes "zones_fit c n" and "i \<le> n"
  shows "zones_fit c i"
proof -
  let ?k = "Suc (unat (gZoneCap c))" and ?z = "unat (ucast (GetZoneId c) :: u32)" and ?D = "unat (gZoneDist c)"
  have "?z + i div ?k \<le> ?z + n div ?k" using assms(2) by (simp add: div_le_mono)
  moreover from this have "Suc (?z + i div ?k) * ?D \<le> Suc (?z + n div ?k) * ?D" by (intro mult_le_mono1) simp
  ultimately show ?thesis using assms(1) unfolding zones_fit_def Let_def by linarith
qed

lemma next_position_unat:
  assumes "Suc (unat z) < 2 ^ 32"
  shows "next_position c (z, l) = (if unat l mod unat (gZoneDist c) > unat (gZoneCap c)
     then (of_nat (Suc (unat z)), of_nat (Suc (unat z) * unat (gZoneDist c))) else (z, l))"
proof -
  have "unat (z + 1) = Suc (unat z)" using assms by (simp add: unat_word_ariths(1))
  then have "(of_nat (Suc (unat z)) :: u64) = of_nat (unat (z + 1))" by (simp only:)
  also have "\<dots> = ucast (z + 1)" by simp
  finally have "(ucast (z + 1) :: u64) = of_nat (Suc (unat z))" by (rule sym)
  then show ?thesis
    by (simp add: next_position_def word_less_nat_alt unat_mod_distrib distrib_right)
qed

text \<open>Counting modulo \<open>k\<close>.\<close>

lemma div_mod_Suc:
  assumes "0 < (k :: nat)"
  shows "Suc (i mod k) < k \<Longrightarrow> Suc i div k = i div k \<and> Suc i mod k = Suc (i mod k)"
    "Suc (i mod k) = k \<Longrightarrow> Suc i div k = Suc (i div k) \<and> Suc i mod k = 0"
  using assms by (auto simp: div_Suc mod_Suc)

lemma object_position:
  assumes "zones_fit c i"
  shows "unat (fst (next_position c (position_before c i))) = unat (ucast (GetZoneId c) :: u32) + i div Suc (unat (gZoneCap c)) \<and>
    unat (object_lba c i) = lba_spec c i"
  using assms
proof (induction i)
  case 0
  then show ?case
    by (simp add: position_before_def object_lba_def next_position_def lba_spec_def)
next
  case (Suc i)
  let ?k = "Suc (unat (gZoneCap c))" and ?z = "unat (ucast (GetZoneId c) :: u32)" and ?D = "unat (gZoneDist c)"
  let ?p = "next_position c (position_before c i)"
  have fit: "zones_fit c i" using zones_fit_mono [OF Suc.prems] by simp
  note IH = Suc.IH [OF fit]
  have f: "Suc (?z + Suc i div ?k) < 2 ^ 32" "Suc (?z + Suc i div ?k) * ?D < 2 ^ 64" "?k < ?D"
      "Suc (?z + i div ?k) < 2 ^ 32" "Suc (?z + i div ?k) * ?D < 2 ^ 64"
    using Suc.prems fit by (simp_all add: zones_fit_def Let_def)
  have r: "i mod ?k < ?k" by simp
  have "Suc (i mod ?k) mod ?D = Suc (i mod ?k)" using r f(3) by (intro mod_less) linarith
  then have off: "(lba_spec c i + 1) mod ?D = Suc (i mod ?k)" by (simp add: lba_spec_def Let_def)
  have "lba_spec c i \<le> (?z + i div ?k) * ?D + i mod ?k" by (simp add: lba_spec_def Let_def)
  then have "lba_spec c i + 1 \<le> (?z + i div ?k) * ?D + ?k" using r by linarith
  then have l: "unat (object_lba c i + 1) = lba_spec c i + 1"
    using IH f(3,5) by (simp add: unat_word_ariths(1))
  define A where "A = Suc (?z + i div ?k)"
  have A: "unat (of_nat A :: u32) = A" "unat (of_nat (A * ?D) :: u64) = A * ?D"
    using f(4,5) unfolding A_def [symmetric] by (simp_all only: unat_of_nat len_num1 len_bit0 len_bit1 mod_less, simp_all)
  have nx: "next_position c (position_before c (Suc i)) = (if Suc (i mod ?k) > unat (gZoneCap c)
      then (of_nat A, of_nat (A * ?D)) else (fst ?p, object_lba c i + 1))"
    using next_position_unat [of "fst ?p" c "object_lba c i + 1"] IH f(4) l off
    unfolding position_Suc A_def by (simp only: conj_ac)
  show ?case
  proof (cases "Suc (i mod ?k) < ?k")
    case True
    then show ?thesis
      using nx IH l div_mod_Suc(1) [OF _ True] by (simp add: object_lba_def lba_spec_def Let_def)
  next
    case False
    with r have e: "Suc (i mod ?k) = ?k" by linarith
    note dm = div_mod_Suc(2) [OF _ e]
    have "A = ?z + Suc i div ?k" using dm by (simp add: A_def)
    moreover have "lba_spec c (Suc i) = (?z + Suc i div ?k) * ?D" using dm by (simp add: lba_spec_def Let_def)
    ultimately show ?thesis using nx e A by (simp add: object_lba_def del: of_nat_mult)
  qed
qed

lemma lba_spec_mono:
  assumes "unat (gZoneCap c) < unat (gZoneDist c)" and "i < j"
  shows "lba_spec c i < lba_spec c j"
proof -
  let ?k = "Suc (unat (gZoneCap c))" and ?z = "unat (ucast (GetZoneId c) :: u32)" and ?D = "unat (gZoneDist c)"
  have r: "i mod ?k < ?k" by simp
  show ?thesis
  proof (cases "i div ?k = j div ?k")
    case True
    then have "i mod ?k < j mod ?k" using assms(2) by (metis add_less_cancel_left mult_div_mod_eq)
    with True show ?thesis by (simp add: lba_spec_def Let_def)
  next
    case False
    then have q: "i div ?k < j div ?k" using assms(2) by (simp add: div_le_mono le_neq_implies_less)
    then have "Suc (?z + i div ?k) * ?D \<le> (?z + j div ?k) * ?D" by (intro mult_le_mono1) simp
    moreover have "i mod ?k < ?D" using r assms(1) by linarith
    then have "lba_spec c i < Suc (?z + i div ?k) * ?D" by (simp add: lba_spec_def Let_def)
    ultimately show ?thesis using q by (simp add: lba_spec_def Let_def)
  qed
qed

definition triples :: "(nat \<times> nat \<times> nat) list" where
  "triples = [(i, j, k). i \<leftarrow> [0..<6], j \<leftarrow> [0..<6], i \<noteq> j, k \<leftarrow> [0..<6], \<not> (i = k \<or> j = k)]"

lemma triples_list: "length triples = 120" "distinct triples"
  by code_simp+

lemma set_triples: "(i, j, k) \<in> set triples \<longleftrightarrow> i < 6 \<and> j < 6 \<and> k < 6 \<and> i \<noteq> j \<and> i \<noteq> k \<and> j \<noteq> k"
  by (auto simp: triples_def)

definition triple_tuple :: "u32 \<Rightarrow> nat \<times> nat \<times> nat \<Rightarrow> DevTuple" where
  "triple_tuple y t = (case t of (i, j, k) \<Rightarrow> ((of_nat i, y), (of_nat j, y), (of_nat k, y)))"

lemma PopulateDevHash_triples:
  "mDevHash (PopulateDevHash c z) = mDevHash z @ map (triple_tuple (ucast (GetZoneId c))) triples"
proof -
  have nth: "tgt_dev_vec c ! i = (of_nat i, ucast (GetZoneId c))" if "i < 6" for i
    using that by (simp add: tgt_dev_vec_def)
  have len: "length (tgt_dev_vec c) = 6" by (simp add: tgt_dev_vec_def)
  show ?thesis
    unfolding PopulateDevHash_def triples_def Let_def len triple_tuple_def
    by (auto simp: map_concat comp_def nth if_distrib [of "map f" for f] intro!: arg_cong [where f = concat] map_cong cong: if_cong)
qed

text \<open>
  (C17) Filling an empty device hash creates 120 different tuples: exactly the ordered triples of
  different devices among the six, each with the current zone.
\<close>

theorem dev_hash_triples:
  assumes "mDevHash z = []"
  shows "length (mDevHash (PopulateDevHash c z)) = 120 \<and> distinct (mDevHash (PopulateDevHash c z)) \<and>
    (\<forall>a b d. ((a, ucast (GetZoneId c)), (b, ucast (GetZoneId c)), (d, ucast (GetZoneId c))) \<in> set (mDevHash (PopulateDevHash c z)) \<longleftrightarrow>
       a < 6 \<and> b < 6 \<and> d < 6 \<and> a \<noteq> b \<and> a \<noteq> d \<and> b \<noteq> d)"
proof -
  let ?y = "ucast (GetZoneId c) :: u32"
  have eq: "mDevHash (PopulateDevHash c z) = map (triple_tuple ?y) triples"
    using assms by (simp add: PopulateDevHash_triples)
  have "inj_on (triple_tuple ?y) (set triples)"
    by (rule inj_onI) (auto simp: triple_tuple_def set_triples word_of_nat_eq_iff take_bit_nat_eq_self)
  moreover have "((a, ?y), (b, ?y), (d, ?y)) \<in> triple_tuple ?y ` set triples \<longleftrightarrow>
      (unat a, unat b, unat d) \<in> set triples" for a b d :: u8
  proof
    assume "((a, ?y), (b, ?y), (d, ?y)) \<in> triple_tuple ?y ` set triples"
    then show "(unat a, unat b, unat d) \<in> set triples"
      by (auto simp: triple_tuple_def set_triples unat_of_nat)
  next
    assume "(unat a, unat b, unat d) \<in> set triples"
    then show "((a, ?y), (b, ?y), (d, ?y)) \<in> triple_tuple ?y ` set triples"
      by (intro image_eqI [of _ _ "(unat a, unat b, unat d)"]) (simp_all add: triple_tuple_def)
  qed
  moreover have "unat a = unat b \<longleftrightarrow> a = b" for a b :: u8 by (simp add: word_unat_eq_iff)
  ultimately show ?thesis
    unfolding eq by (simp add: distinct_map triples_list set_triples word_less_nat_alt)
qed

theorem dev_hash_triples_witness:
  "length (mDevHash (PopulateDevHash conf_default ex_ctrl)) = 120"
  using dev_hash_triples [of ex_ctrl conf_default] by (simp add: ex_ctrl_def)

text \<open>
  (C15) After any sequence of puts and deletes the map answers a key with the last entry put for it,
  or with nothing when the last operation on the key was a delete; a key that no operation touched
  keeps its answer.
\<close>

theorem map_last_writer:
  "GetObject k (fold zmap.run_op ops z) =
     (case filter (\<lambda>x. op_key x = k) ops of [] \<Rightarrow> GetObject k z | ys \<Rightarrow> op_effect (last ys))"
  by (rule zmap.get_run)

text \<open>
  The i-th name of the round-robin device list and the i-th device number denote the same
  device of a controller with six devices, and that device exists.
\<close>

lemma device_names_agree:
  assumes "0 \<le> i" and "6 \<le> length (mDevices z)" and "length (mDevices z) < 2 ^ 64"
  shows "GetDevice (getDevice i) z = Inr (GetDeviceById (uint (getDeviceId i)) z) \<and>
    GetDeviceById (uint (getDeviceId i)) z = Some (nat (i mod 6))"
proof -
  have r: "c_rem i 6 = i mod 6" using assms(1) by (simp add: c_rem_nonneg)
  have b: "0 \<le> i mod 6" "i mod 6 < 6" by simp_all
  then have id: "uint (getDeviceId i) = i mod 6" by (simp add: getDeviceId_def r uint_word_of_int_eq take_bit_int_eq_self)
  have "GetDeviceById (i mod 6) z = Some (nat (i mod 6))"
    using b assms(2,3) by (intro GetDeviceById_nat) auto
  moreover have "i mod 6 = 0 \<or> i mod 6 = 1 \<or> i mod 6 = 2 \<or> i mod 6 = 3 \<or> i mod 6 = 4 \<or> i mod 6 = 5" using b by arith
  ultimately show ?thesis
    unfolding id using assms(2) by (auto simp: getDevice_def r GetDevice_def device_at_def)
qed

lemma device_names_agree_example: "GetDevice (getDevice 9) ex_ctrl = Inr (Some 3)"
  using device_names_agree [of 9 ex_ctrl] by (simp add: ex_ctrl_def)

text \<open>
  (C16) The random-read population gives object \<open>i\<close>, when keys do not collide, an entry on device
  \<open>i mod 6\<close>, devices 1 and 2, all at the block of the closed form, with the object's length in
  blocks; the blocks grow strictly with \<open>i\<close> and lie in the first \<open>gZoneCap + 1\<close> blocks of a zone.
\<close>

theorem PopulateMap_positions:
  assumes "mKeyExperiment z = 1" and "i < nat (mRandReadMapSize z)" and fit: "zones_fit c (nat (mRandReadMapSize z))"
    and inj: "inj_on (\<lambda>i. computeSHA256 H (dec_string i)) {..<nat (mRandReadMapSize z)}"
    and new: "mMap z (computeSHA256 H (dec_string i)) = None"
  shows "\<exists>e. GetObject (computeSHA256 H (dec_string i)) (PopulateMap c H z) = Some e \<and>
    device_id (loc0 e) = int i mod 6 \<and> device_id (loc1 e) = 1 \<and> device_id (loc2 e) = 2 \<and>
    (\<forall>l \<in> {loc0 e, loc1 e, loc2 e}. unat (lba l) = lba_spec c i \<and> lba_spec c i mod unat (gZoneDist c) \<le> unat (gZoneCap c)) \<and>
    len e = bytes_to_blocks c (gObjectSizeInBytes c) \<and> (\<forall>j < i. lba_spec c j < lba_spec c i)"
proof -
  have fi: "zones_fit c i" using zones_fit_mono [OF fit] assms(2) by simp
  have D: "Suc (unat (gZoneCap c)) < unat (gZoneDist c)" using fit by (simp add: zones_fit_def Let_def)
  let ?e = "populate_entry c (getDeviceId (int i)) False (object_lba c i)"
  have "GetObject (computeSHA256 H (dec_string i)) (PopulateMap c H z) = Some ?e"
    using populate_lookup [where m = "mMap z", OF inj assms(2) new] assms(1) by (simp add: GetObject_def PopulateMap_def)
  moreover have "uint (getDeviceId (int i)) = int i mod 6"
    by (simp add: getDeviceId_def c_rem_nonneg uint_word_of_int_eq take_bit_int_eq_self)
  moreover have "i mod Suc (unat (gZoneCap c)) mod unat (gZoneDist c) = i mod Suc (unat (gZoneCap c))"
    by (rule mod_less) (use D mod_less_divisor [of "Suc (unat (gZoneCap c))" i] in linarith)
  then have "lba_spec c i mod unat (gZoneDist c) \<le> unat (gZoneCap c)"
    using mod_less_divisor [of "Suc (unat (gZoneCap c))" i] by (simp add: lba_spec_def Let_def)
  ultimately show ?thesis
    using object_position [OF fi] lba_spec_mono [of c _ i] D
    by (auto simp: populate_entry_def createMapEntry_def Let_def)
qed

theorem PopulateMap_positions_witness:
  "\<exists>e. GetObject [49] (PopulateMap conf_default id ex_ctrl) = Some e \<and> device_id (loc0 e) = 1 \<and> unat (lba (loc0 e)) = 1"
proof -
  have key: "computeSHA256 id (dec_string 1) = [49]" "computeSHA256 id (dec_string 0) = [48]"
    by (simp_all add: computeSHA256_def dec_string.simps string_bytes_def char_of_def bit_0)
  have "inj_on (\<lambda>i. computeSHA256 id (dec_string i)) {..<nat (mRandReadMapSize ex_ctrl)}"
    using key by (auto simp: inj_on_def ex_ctrl_def less_2_cases_iff)
  moreover have "zones_fit conf_default (nat (mRandReadMapSize ex_ctrl))"
    by (simp add: zones_fit_def ex_ctrl_def conf_default_def GetZoneId_def)
  ultimately show ?thesis
    using PopulateMap_positions [of ex_ctrl 1 conf_default id] key
    by (auto simp: ex_ctrl_def lba_spec_def conf_default_def)
qed

text \<open>Listing returns different keys of the map, at most as many as asked for, and all of them when
  they are that few.\<close>

lemma ListObjects_bound:
  assumes "visits_map order (mMap z)"
  shows "distinct (ListObjects order n) \<and> set (ListObjects order n) \<subseteq> dom (mMap z) \<and>
    length (ListObjects order n) = min (nat n) (card (dom (mMap z))) \<and>
    (card (dom (mMap z)) \<le> nat n \<longrightarrow> set (ListObjects order n) = dom (mMap z))"
  using assms distinct_card [of order] set_take_subset [of "nat n" order]
  by (auto simp: ListObjects_eq visits_map_def min.commute)

lemma ListObjects_bound_example:
  "length (ListObjects [[1], [2], [3]] 2) = 2 \<and> distinct (ListObjects [[1], [2], [3]] 2)"
proof -
  let ?z = "ex_ctrl\<lparr>mMap := [[1] \<mapsto> CreateFakeObject [1] ((0, 0), (1, 0), (2, 0)), [2] \<mapsto> CreateFakeObject [2] ((0, 0), (1, 0), (2, 0)),
      [3] \<mapsto> CreateFakeObject [3] ((0, 0), (1, 0), (2, 0))]\<rparr>"
  have "visits_map [[1], [2], [3]] (mMap ?z)" by (auto simp: visits_map_def)
  from ListObjects_bound [OF this, of 2] show ?thesis by simp
qed

end
