(* ===== verification/Zstore_Io.thy ===== *)
theory Zstore_Io
  imports Zstore_Controller
begin

text \<open>
  Building device requests and completing them (\<^verbatim>\<open>src/src/common.cc\<close>): \<^verbatim>\<open>MakeReadRequest\<close>,
  \<^verbatim>\<open>MakeWriteRequest\<close>, \<^verbatim>\<open>MakeWriteChunk\<close>, \<^verbatim>\<open>MakeManagementRequest\<close> and the coroutines
  \<^verbatim>\<open>zoneAppend\<close>, \<^verbatim>\<open>zoneRead\<close>, \<^verbatim>\<open>zoneReadDummy\<close> and \<^verbatim>\<open>zoneFinish\<close>.

  A context of the controller is a pair of the pool it came from (\<open>None\<close> for
  \<open>mRequestContextPool\<close>, \<open>Some k\<close> for the replay pool of \<open>k\<close> blocks) and its number in that pool.
  What SPDK answers to a submitted command is the parameter \<open>io_outcome\<close>. The instrumented
  variants, chosen by a positive sampling rate, only add time stamps and log lines.
\<close>

type_synonym ctx_ref = "u32 option \<times> nat"

section \<open>Contexts of the controller\<close>

definition pool_at :: "u32 option \<Rightarrow> zctrl \<Rightarrow> RequestContextPool option" where
  "pool_at key z = (case key of None \<Rightarrow> Some (mRequestContextPool z) | Some k \<Rightarrow> mReplayRequestContextPool z k)"

definition put_pool :: "u32 option \<Rightarrow> RequestContextPool \<Rightarrow> zctrl \<Rightarrow> zctrl" where
  "put_pool key p z = (case key of None \<Rightarrow> z\<lparr>mRequestContextPool := p\<rparr>
     | Some k \<Rightarrow> z\<lparr>mReplayRequestContextPool := (mReplayRequestContextPool z)(k \<mapsto> p)\<rparr>)"

text \<open>The pool that a request of \<open>blocks\<close> blocks uses; a missing replay pool is a null pointer.\<close>

definition pool_key :: "conf \<Rightarrow> u32 \<Rightarrow> u32 option" where
  "pool_key c blocks = (if gReplayWorkload c then Some blocks else None)"

definition get_slot :: "conf \<Rightarrow> u32 \<Rightarrow> zctrl \<Rightarrow> (ctx_ref \<times> zctrl) res" where
  "get_slot c blocks z =
     (case pool_at (pool_key c blocks) z of
        None \<Rightarrow> Inl NullDeref
      | Some p \<Rightarrow> bindR (acquire_context c p) (\<lambda>(i, p').
          Inr ((pool_key c blocks, i), put_pool (pool_key c blocks) p' z)))"

definition slot_ctx :: "ctx_ref \<Rightarrow> zctrl \<Rightarrow> RequestContext res" where
  "slot_ctx s z =
     (case pool_at (fst s) z of
        None \<Rightarrow> Inl NullDeref
      | Some p \<Rightarrow> (case ctx_heap p (snd s) of None \<Rightarrow> Inl UseAfterFree | Some ctx \<Rightarrow> Inr ctx))"

definition update_slot :: "ctx_ref \<Rightarrow> (RequestContext \<Rightarrow> RequestContext) \<Rightarrow> zctrl \<Rightarrow> zctrl res" where
  "update_slot s f z =
     (case pool_at (fst s) z of
        None \<Rightarrow> Inl NullDeref
      | Some p \<Rightarrow> bindR (update_context (snd s) f p) (\<lambda>p'. Inr (put_pool (fst s) p' z)))"

text \<open>
  \<^verbatim>\<open>slot->Clear(); pool->ReturnRequestContext(slot);\<close> where \<open>key\<close> names the pool the caller picks.
  A context of another pool's array is deleted although \<^verbatim>\<open>new[]\<close> made it; one that was allocated
  on demand is freed.
\<close>

definition return_slot :: "u32 option \<Rightarrow> ctx_ref \<Rightarrow> zctrl \<Rightarrow> zctrl res" where
  "return_slot key s z =
     (case pool_at key z of
        None \<Rightarrow> Inl NullDeref
      | Some p \<Rightarrow>
          if fst s = key then bindR (clear_and_return (snd s) p) (\<lambda>p'. Inr (put_pool key p' z))
          else case pool_at (fst s) z of
                 None \<Rightarrow> Inl NullDeref
               | Some q \<Rightarrow>
                   if ctx_heap q (snd s) = None then Inl UseAfterFree
                   else if snd s < unat (capacity q) then Inl InvalidFree
                   else Inr (put_pool (fst s) (q\<lparr>ctx_heap := (ctx_heap q)(snd s := None)\<rparr>) z))"

section \<open>Requests\<close>

text \<open>Dereferencing the device pointer and its first queue pair.\<close>

definition the_device :: "nat option \<Rightarrow> zctrl \<Rightarrow> (nat \<times> device) res" where
  "the_device dev z =
     (case dev of None \<Rightarrow> Inl NullDeref
      | Some d \<Rightarrow> if d < length (mDevices z) then Inr (d, mDevices z ! d) else Inl OutOfBounds)"

definition first_queue :: "device \<Rightarrow> nat res" where
  "first_queue d = (case mIoQueues d of [] \<Rightarrow> Inl OutOfBounds | q # _ \<Rightarrow> Inr q)"

definition zone_base :: "conf \<Rightarrow> device \<Rightarrow> u64" where
  "zone_base c d = gZoneDist c * ucast (mZoneId d)"

definition MakeReadRequest :: "conf \<Rightarrow> nat option \<Rightarrow> u64 \<Rightarrow> u32 \<Rightarrow> zctrl \<Rightarrow> (ctx_ref \<times> zctrl) res" where
  "MakeReadRequest c dev offset len_in_bytes z =
     (let len_in_blocks = bytes_to_blocks c len_in_bytes in
      bindR (get_slot c len_in_blocks z) (\<lambda>(slot, z).
      bindR (the_device dev z) (\<lambda>(di, d).
      bindR (first_queue d) (\<lambda>q.
      bindR (update_slot slot (\<lambda>ctx. ctx\<lparr>has_ctrl := True,
               ioContext := \<lparr>io_ns = mNamespace d, io_qpair = q, io_offset = zone_base c d + offset,
                             io_size = len_in_blocks, io_flags = 0\<rparr>,
               io_thread := Some 0, rc_device := Some di, is_write := False\<rparr>) z) (\<lambda>z.
        Inr (slot, z))))))"

text \<open>
  \<^verbatim>\<open>MakeWriteRequest\<close> copies \<^verbatim>\<open>sizeof(buffer)\<close> bytes from \<^verbatim>\<open>buffer\<close>, a pointer to a
  \<^verbatim>\<open>std::vector<char>\<close>: the first eight bytes of the vector object, which hold the address
  \<open>vec_data\<close> of its elements.
\<close>

definition MakeWriteRequest ::
  "conf \<Rightarrow> nat option \<Rightarrow> u64 \<Rightarrow> u32 \<Rightarrow> zctrl \<Rightarrow> (ctx_ref \<times> zctrl) res" where
  "MakeWriteRequest c dev vec_data len_in_bytes z =
     (let len_in_blocks = bytes_to_blocks c len_in_bytes in
      bindR (get_slot c len_in_blocks z) (\<lambda>(slot, z).
      bindR (slot_ctx slot z) (\<lambda>ctx.
      bindR (mem_write (dataBuffer ctx) 0 (le64 vec_data)) (\<lambda>buf.
      bindR (the_device dev z) (\<lambda>(di, d).
      bindR (first_queue d) (\<lambda>q.
      bindR (cassert (bytes_to_blocks c (bufferSize ctx) = len_in_blocks)) (\<lambda>_.
      bindR (update_slot slot (\<lambda>ctx. ctx\<lparr>has_ctrl := True, dataBuffer := buf,
               ioContext := \<lparr>io_ns = mNamespace d, io_qpair = q, io_offset = zone_base c d,
                             io_size = bytes_to_blocks c (bufferSize ctx), io_flags = 0\<rparr>,
               io_thread := Some 0, rc_device := Some di, is_write := True\<rparr>) z) (\<lambda>z.
        Inr (slot, z)))))))))"

definition MakeWriteChunk ::
  "conf \<Rightarrow> nat option \<Rightarrow> u8 list \<Rightarrow> u32 \<Rightarrow> zctrl \<Rightarrow> (ctx_ref \<times> zctrl) res" where
  "MakeWriteChunk c dev buffer len_in_bytes z =
     (let len_in_blocks = bytes_to_blocks c len_in_bytes in
      bindR (get_slot c len_in_blocks z) (\<lambda>(slot, z).
      bindR (slot_ctx slot z) (\<lambda>ctx.
      bindR (mem_read buffer 0 (unat (bufferSize ctx))) (\<lambda>bytes.
      bindR (mem_write (dataBuffer ctx) 0 bytes) (\<lambda>buf.
      bindR (the_device dev z) (\<lambda>(di, d).
      bindR (first_queue d) (\<lambda>q.
      bindR (cassert (bytes_to_blocks c (bufferSize ctx) = len_in_blocks)) (\<lambda>_.
      bindR (update_slot slot (\<lambda>ctx. ctx\<lparr>has_ctrl := True, dataBuffer := buf,
               ioContext := \<lparr>io_ns = mNamespace d, io_qpair = q, io_offset = zone_base c d,
                             io_size = bytes_to_blocks c (bufferSize ctx), io_flags = 0\<rparr>,
               io_thread := Some 0, rc_device := Some di, is_write := True\<rparr>) z) (\<lambda>z.
        Inr (slot, z))))))))))"

definition MakeManagementRequest :: "conf \<Rightarrow> nat option \<Rightarrow> zctrl \<Rightarrow> (ctx_ref \<times> zctrl) res" where
  "MakeManagementRequest c dev z =
     bindR (acquire_context c (mRequestContextPool z)) (\<lambda>(i, p).
     let z = z\<lparr>mRequestContextPool := p\<rparr>; slot = (None, i) in
     bindR (the_device dev z) (\<lambda>(di, d).
     bindR (first_queue d) (\<lambda>q.
     bindR (update_slot slot (\<lambda>ctx. ctx\<lparr>has_ctrl := True,
              ioContext := (ioContext ctx)\<lparr>io_ns := mNamespace d, io_qpair := q,
                             io_offset := zone_base c d, io_flags := 0\<rparr>,
              io_thread := Some 0, rc_device := Some di\<rparr>) z) (\<lambda>z. Inr (slot, z)))))"

section \<open>Completions\<close>

text \<open>
  A submission may be refused by the driver (the code asserts that it is not) or by the thread's
  message queue (the code exits); otherwise a completion arrives with an error flag and the first
  command dword.
\<close>

record nvme_cpl =
  cpl_error :: bool
  cdw0 :: u32

datatype io_outcome = Completed nvme_cpl | SubmitFailed | SendFailed

definition await_io :: "io_outcome \<Rightarrow> nvme_cpl res" where
  "await_io r = (case r of Completed cpl \<Rightarrow> Inr cpl | SubmitFailed \<Rightarrow> Inl AssertFail | SendFailed \<Rightarrow> Inl ExitCall)"

definition bump_total :: "zctrl \<Rightarrow> zctrl" where
  "bump_total z = z\<lparr>mTotalCounts := mTotalCounts z + 1\<rparr>"

definition zoneAppend :: "io_outcome \<Rightarrow> ctx_ref \<Rightarrow> zctrl \<Rightarrow> zctrl res" where
  "zoneAppend r slot z =
     bindR (slot_ctx slot z) (\<lambda>ctx.
     bindR (cassert (has_ctrl ctx)) (\<lambda>_.
     bindR (await_io r) (\<lambda>cpl.
     bindR (update_slot slot (\<lambda>ctx. ctx\<lparr>write_complete := True, success := True,
              append_lba := ucast (cdw0 cpl)\<rparr>) z) (\<lambda>z.
       Inr (bump_total z)))))"

text \<open>\<^verbatim>\<open>std::string::assign(const char *, size)\<close>.\<close>

definition bytes_string :: "u8 list \<Rightarrow> string" where
  "bytes_string bs = map (\<lambda>b. char_of (unat b)) bs"

text \<open>A read fills the buffer with the blocks \<open>dma\<close> the device transfers.\<close>

definition zoneRead :: "io_outcome \<Rightarrow> u8 list \<Rightarrow> ctx_ref \<Rightarrow> zctrl \<Rightarrow> zctrl res" where
  "zoneRead r dma slot z =
     bindR (slot_ctx slot z) (\<lambda>ctx.
     bindR (cassert (has_ctrl ctx)) (\<lambda>_.
     bindR (await_io r) (\<lambda>cpl.
     bindR (mem_write (dataBuffer ctx) 0 dma) (\<lambda>buf.
     bindR (mem_read buf 0 (unat (bufferSize ctx))) (\<lambda>bytes.
     bindR (update_slot slot (\<lambda>ctx. ctx\<lparr>dataBuffer := buf, response_body := bytes_string bytes,
              success := True\<rparr>) z) (\<lambda>z.
       Inr (bump_total z)))))))"

text \<open>The dummy read sends no command to the device, only a message to the I/O thread (\<open>sent\<close>): the
  buffer keeps what it held.\<close>

definition zoneReadDummy :: "bool \<Rightarrow> ctx_ref \<Rightarrow> zctrl \<Rightarrow> zctrl res" where
  "zoneReadDummy sent slot z =
     bindR (slot_ctx slot z) (\<lambda>ctx.
     bindR (cassert (has_ctrl ctx)) (\<lambda>_.
     bindR (if sent then Inr () else Inl ExitCall) (\<lambda>_.
     bindR (mem_read (dataBuffer ctx) 0 (unat (bufferSize ctx))) (\<lambda>bytes.
     bindR (update_slot slot (\<lambda>ctx. ctx\<lparr>response_body := bytes_string bytes, success := True\<rparr>) z) (\<lambda>z.
       Inr (bump_total z))))))"

definition zoneFinish :: "io_outcome \<Rightarrow> ctx_ref \<Rightarrow> zctrl \<Rightarrow> zctrl res" where
  "zoneFinish r slot z =
     bindR (slot_ctx slot z) (\<lambda>ctx.
     bindR (cassert (has_ctrl ctx)) (\<lambda>_.
     bindR (await_io r) (\<lambda>cpl.
     bindR (update_slot slot (\<lambda>ctx. ctx\<lparr>success := True\<rparr>) z) (\<lambda>z.
       Inr (z\<lparr>mManagementCounts := mManagementCounts z + 1\<rparr>)))))"

section \<open>Contexts in use\<close>

text \<open>
  \<open>ctrl_inv c z H\<close>: the main pool is consistent and \<open>H\<close> is the set of its contexts in use.
  \<open>io_frame K z z'\<close>: from \<open>z\<close> to \<open>z'\<close> only the pool and the request counter change, and the
  contexts in \<open>K\<close> keep their contents.
\<close>

abbreviation heap :: "zctrl \<Rightarrow> nat \<rightharpoonup> RequestContext" where
  "heap z \<equiv> ctx_heap (mRequestContextPool z)"

definition ctrl_inv :: "conf \<Rightarrow> zctrl \<Rightarrow> nat set \<Rightarrow> bool" where
  "ctrl_inv c z H \<longleftrightarrow> pool_inv c (mRequestContextPool z) H"

definition io_frame :: "nat set \<Rightarrow> zctrl \<Rightarrow> zctrl \<Rightarrow> bool" where
  "io_frame K z z' \<longleftrightarrow>
     z' = z\<lparr>mRequestContextPool := mRequestContextPool z', mTotalCounts := mTotalCounts z'\<rparr> \<and>
     (\<forall>i \<in> K. heap z' i = heap z i)"

lemma io_frame_refl [simp]: "io_frame K z z"
  by (simp add: io_frame_def)

lemma io_frame_iff:
  "io_frame K z z' \<longleftrightarrow> (\<exists>p n. z' = z\<lparr>mRequestContextPool := p, mTotalCounts := n\<rparr> \<and>
     (\<forall>i \<in> K. ctx_heap p i = heap z i))"
proof
  assume f: "io_frame K z z'"
  show "\<exists>p n. z' = z\<lparr>mRequestContextPool := p, mTotalCounts := n\<rparr> \<and> (\<forall>i \<in> K. ctx_heap p i = heap z i)"
    by (intro exI [of _ "mRequestContextPool z'"] exI [of _ "mTotalCounts z'"]) (use f in \<open>simp add: io_frame_def\<close>)
qed (auto simp: io_frame_def)

lemma io_frame_trans:
  assumes "io_frame K z z'" and "io_frame L z' z''" and "M \<subseteq> K" "M \<subseteq> L"
  shows "io_frame M z z''"
proof -
  obtain p n where z': "z' = z\<lparr>mRequestContextPool := p, mTotalCounts := n\<rparr>" "\<forall>i \<in> K. ctx_heap p i = heap z i"
    using assms(1) by (auto simp: io_frame_iff)
  obtain q m where z'': "z'' = z'\<lparr>mRequestContextPool := q, mTotalCounts := m\<rparr>" "\<forall>i \<in> L. ctx_heap q i = heap z' i"
    using assms(2) by (auto simp: io_frame_iff)
  have "ctx_heap q i = heap z i" if "i \<in> M" for i
    using that z' z''(2) assms(3,4) by (simp add: subset_iff)
  with z' z'' show ?thesis by (auto simp: io_frame_iff intro!: exI [of _ q] exI [of _ m])
qed

lemma io_frame_fields:
  assumes "io_frame K z z'"
  shows "mMap z' = mMap z" "mDevices z' = mDevices z" "mInflight z' = mInflight z"
    "mBroadcast z' = mBroadcast z" "mDevHash z' = mDevHash z"
    "mReplayRequestContextPool z' = mReplayRequestContextPool z"
proof -
  have e: "z' = z\<lparr>mRequestContextPool := mRequestContextPool z', mTotalCounts := mTotalCounts z'\<rparr>"
    using assms by (simp add: io_frame_def)
  show "mMap z' = mMap z" by (subst e) simp
  show "mDevices z' = mDevices z" by (subst e) simp
  show "mInflight z' = mInflight z" by (subst e) simp
  show "mBroadcast z' = mBroadcast z" by (subst e) simp
  show "mDevHash z' = mDevHash z" by (subst e) simp
  show "mReplayRequestContextPool z' = mReplayRequestContextPool z" by (subst e) simp
qed

lemma io_frame_heap: "io_frame K z z' \<Longrightarrow> i \<in> K \<Longrightarrow> heap z' i = heap z i"
  by (simp add: io_frame_def)

lemma io_frame_pool:
  "(\<And>i. i \<in> K \<Longrightarrow> ctx_heap p i = heap z i) \<Longrightarrow> io_frame K z (z\<lparr>mRequestContextPool := p\<rparr>)"
  by (simp add: io_frame_def)

lemma acquire_context_frame:
  "acquire_context c p = Inr (i, p') \<Longrightarrow> j \<noteq> i \<Longrightarrow> ctx_heap p' j = ctx_heap p j"
  by (auto simp: acquire_context_def GetRequestContext_def Let_def bindR_eq_Inr split: if_splits option.splits)

lemma get_slot_ok [ok_rules]:
  assumes "\<not> gReplayWorkload c" and "ctrl_inv c z H"
  shows "okR (get_slot c b z) (\<lambda>(s, z'). \<exists>i. s = (None, i) \<and> i \<notin> H \<and> ctrl_inv c z' (insert i H) \<and> io_frame H z z')"
proof -
  obtain i p' where a: "acquire_context c (mRequestContextPool z) = Inr (i, p')" "i \<notin> H" "pool_inv c p' (insert i H)"
    using ctx_pool.acquire_fresh assms(2) unfolding ctrl_inv_def by blast
  have "io_frame H z (z\<lparr>mRequestContextPool := p'\<rparr>)"
    by (rule io_frame_pool) (use a acquire_context_frame in metis)
  with a assms(1) show ?thesis
    by (simp add: get_slot_def pool_key_def pool_at_def put_pool_def ctrl_inv_def)
qed

lemma slot_ctx_ok [ok_rules]:
  "ctrl_inv c z H \<Longrightarrow> i \<in> H \<Longrightarrow> okR (slot_ctx (None, i) z) (\<lambda>ctx. heap z i = Some ctx \<and> context_ok c ctx)"
  using pool_inv_held [of c "mRequestContextPool z" H i]
  by (auto simp: ctrl_inv_def slot_ctx_def pool_at_def)

lemma update_slot_ok [ok_rules]:
  assumes inv: "ctrl_inv c z H" and i: "i \<in> H" and f: "\<And>ctx. context_ok c ctx \<Longrightarrow> heap z i = Some ctx \<Longrightarrow> context_ok c (f ctx)"
  shows "okR (update_slot (None, i) f z) (\<lambda>z'. ctrl_inv c z' H \<and> io_frame (- {i}) z z' \<and>
    heap z' i = map_option f (heap z i) \<and> mTotalCounts z' = mTotalCounts z)"
proof -
  obtain ctx where ctx: "heap z i = Some ctx" "context_ok c ctx"
    using slot_ctx_ok [OF inv i] by (auto elim!: okRE)
  have g: "context_ok c (f ctx)" using f ctx by blast
  obtain p' where p': "update_context i (\<lambda>_. f ctx) (mRequestContextPool z) = Inr p'" "pool_inv c p' H"
    using update_context_pool_inv [OF inv [unfolded ctrl_inv_def] i, of "\<lambda>_. f ctx"] g by blast
  then have "p' = (mRequestContextPool z)\<lparr>ctx_heap := (heap z)(i \<mapsto> f ctx)\<rparr>"
    using ctx(1) by (simp add: update_context_def)
  with p' ctx show ?thesis
    by (simp add: update_slot_def pool_at_def put_pool_def update_context_def ctrl_inv_def io_frame_def)
qed

lemma return_slot_ok [ok_rules]:
  assumes inv: "ctrl_inv c z H" and i: "i \<in> H"
  shows "okR (return_slot None (None, i) z) (\<lambda>z'. ctrl_inv c z' (H - {i}) \<and> io_frame (- {i}) z z' \<and>
    mTotalCounts z' = mTotalCounts z)"
proof -
  obtain p' where p': "clear_and_return i (mRequestContextPool z) = Inr p'" "pool_inv c p' (H - {i})"
    using ctx_pool.release_held [OF inv [unfolded ctrl_inv_def] i] by blast
  have "ctx_heap p' j = heap z j" if "j \<noteq> i" for j
    using p'(1) that
    by (auto simp: clear_and_return_def update_context_def ReturnRequestContext_def bindR_eq_Inr cassert_eq_Inr
        split: option.splits if_splits)
  then have "io_frame (- {i}) z (z\<lparr>mRequestContextPool := p'\<rparr>)" by (intro io_frame_pool) simp
  with p' show ?thesis
    by (simp add: return_slot_def pool_at_def put_pool_def ctrl_inv_def)
qed

section \<open>Building requests succeeds\<close>

definition device_ready :: "nat option \<Rightarrow> zctrl \<Rightarrow> bool" where
  "device_ready dev z \<longleftrightarrow>
     (case dev of None \<Rightarrow> False | Some d \<Rightarrow> d < length (mDevices z) \<and> mIoQueues (mDevices z ! d) \<noteq> [])"

lemma device_ready_frame: "io_frame K z z' \<Longrightarrow> device_ready dev z' = device_ready dev z"
  by (simp add: device_ready_def io_frame_fields split: option.split)

lemma the_device_ready:
  assumes "device_ready (Some d) z"
  shows "the_device (Some d) z = Inr (d, mDevices z ! d)" "first_queue (mDevices z ! d) = Inr (hd (mIoQueues (mDevices z ! d)))"
  using assms by (simp_all add: device_ready_def the_device_def first_queue_def split: list.split)

text \<open>The context of a request and what the device is asked to do.\<close>

definition request_for :: "conf \<Rightarrow> device \<Rightarrow> u64 \<Rightarrow> u32 \<Rightarrow> bool \<Rightarrow> RequestContext \<Rightarrow> bool" where
  "request_for c d offset blocks wr ctx \<longleftrightarrow>
     has_ctrl ctx \<and> context_ok c ctx \<and> is_write ctx = wr \<and>
     ioContext ctx = \<lparr>io_ns = mNamespace d, io_qpair = hd (mIoQueues d), io_offset = offset,
                      io_size = blocks, io_flags = 0\<rparr>"

text \<open>Every request ends by filling in the context it acquired.\<close>

lemma fill_request:
  assumes inv: "ctrl_inv c z1 (insert i H)" and i: "i \<notin> H" and fr: "io_frame H z z1"
    and f: "\<And>ctx. heap z1 i = Some ctx \<Longrightarrow> context_ok c ctx \<Longrightarrow> request_for c d off n wr (f ctx)"
  shows "okR (update_slot (None, i) f z1) (\<lambda>z'. i \<notin> H \<and> ctrl_inv c z' (insert i H) \<and> io_frame H z z' \<and>
    (\<exists>ctx. heap z' i = Some ctx \<and> request_for c d off n wr ctx))"
proof -
  obtain ctx where ctx: "heap z1 i = Some ctx" "context_ok c ctx"
    using slot_ctx_ok [OF inv, of i] by (auto elim!: okRE)
  have "context_ok c (f ctx)" if "context_ok c ctx" "heap z1 i = Some ctx" for ctx
    using f that by (auto simp: request_for_def)
  then obtain z' where z': "update_slot (None, i) f z1 = Inr z'" "ctrl_inv c z' (insert i H)"
      "io_frame (- {i}) z1 z'" "heap z' i = map_option f (heap z1 i)"
    using update_slot_ok [OF inv, of i f] by (auto elim!: okRE)
  have "io_frame H z z'" using io_frame_trans [OF fr z'(3)] i by auto
  with z' ctx f i show ?thesis by simp
qed

lemma get_slot_cases:
  assumes "\<not> gReplayWorkload c" and "ctrl_inv c z H"
  obtains i z1 ctx where "get_slot c b z = Inr ((None, i), z1)" "i \<notin> H" "ctrl_inv c z1 (insert i H)" "io_frame H z z1"
    "slot_ctx (None, i) z1 = Inr ctx" "heap z1 i = Some ctx" "context_ok c ctx"
proof -
  obtain i z1 where g: "get_slot c b z = Inr ((None, i), z1)" "i \<notin> H" "ctrl_inv c z1 (insert i H)" "io_frame H z z1"
    using get_slot_ok [OF assms, of b] by (auto elim!: okRE)
  with that slot_ctx_ok [OF g(3), of i] show thesis by (auto elim!: okRE)
qed

lemma MakeReadRequest_ok [ok_rules]:
  assumes rep: "\<not> gReplayWorkload c" and inv: "ctrl_inv c z H" and dev: "device_ready (Some d) z"
  shows "okR (MakeReadRequest c (Some d) off n z) (\<lambda>(s, z'). \<exists>i ctx. s = (None, i) \<and> i \<notin> H \<and>
    ctrl_inv c z' (insert i H) \<and> io_frame H z z' \<and> heap z' i = Some ctx \<and>
    request_for c (mDevices z ! d) (zone_base c (mDevices z ! d) + off) (bytes_to_blocks c n) False ctx)"
proof -
  obtain i z1 ctx where g: "get_slot c (bytes_to_blocks c n) z = Inr ((None, i), z1)" "i \<notin> H"
      "ctrl_inv c z1 (insert i H)" "io_frame H z z1"
    by (rule get_slot_cases [OF rep inv])
  note dv = the_device_ready [OF dev [folded device_ready_frame [OF g(4)]], unfolded io_frame_fields(2) [OF g(4)]]
  show ?thesis
    by (simp add: MakeReadRequest_def Let_def g(1) dv io_frame_fields [OF g(4)])
       (rule fill_request [OF g(3,2,4)], auto simp: request_for_def context_ok_def)
qed

text \<open>A write is accepted when the buffer of a context is exactly as long as the object.\<close>

lemma MakeWriteRequest_ok [ok_rules]:
  assumes rep: "\<not> gReplayWorkload c" and inv: "ctrl_inv c z H" and dev: "device_ready (Some d) z"
    and room: "8 \<le> unat (request_buffer_size c)"
    and fits: "bytes_to_blocks c (ucast (request_buffer_size c)) = bytes_to_blocks c n"
  shows "okR (MakeWriteRequest c (Some d) vec_data n z) (\<lambda>(s, z'). \<exists>i ctx. s = (None, i) \<and> i \<notin> H \<and>
    ctrl_inv c z' (insert i H) \<and> io_frame H z z' \<and> heap z' i = Some ctx \<and>
    request_for c (mDevices z ! d) (zone_base c (mDevices z ! d)) (bytes_to_blocks c n) True ctx)"
proof -
  obtain i z1 ctx where g: "get_slot c (bytes_to_blocks c n) z = Inr ((None, i), z1)" "i \<notin> H"
      "ctrl_inv c z1 (insert i H)" "io_frame H z z1" "slot_ctx (None, i) z1 = Inr ctx" "heap z1 i = Some ctx"
      "context_ok c ctx"
    by (rule get_slot_cases [OF rep inv])
  note dv = the_device_ready [OF dev [folded device_ready_frame [OF g(4)]], unfolded io_frame_fields(2) [OF g(4)]]
  obtain buf where buf: "mem_write (dataBuffer ctx) 0 (le64 vec_data) = Inr buf" "length buf = length (dataBuffer ctx)"
    using g(7) room by (auto simp: mem_write_def context_ok_def)
  have "bytes_to_blocks c (bufferSize ctx) = bytes_to_blocks c n"
    using g(7) fits by (simp add: context_ok_def)
  with g(1,5) dv buf show ?thesis
    by (simp add: MakeWriteRequest_def Let_def io_frame_fields [OF g(4)])
       (rule fill_request [OF g(3,2,4)],
        use g(6,7) buf fits in \<open>auto simp: request_for_def context_ok_def\<close>)
qed

text \<open>A chunk write of an object larger than a chunk always fails its size check.\<close>

lemma MakeWriteChunk_assert:
  assumes rep: "\<not> gReplayWorkload c" and inv: "ctrl_inv c z H" and dev: "device_ready (Some d) z"
    and buf: "unat (request_buffer_size c) \<le> length buffer" "unat (request_buffer_size c) < 2 ^ 32"
    and misfit: "bytes_to_blocks c (ucast (request_buffer_size c)) \<noteq> bytes_to_blocks c n"
  shows "MakeWriteChunk c (Some d) buffer n z = Inl AssertFail"
proof -
  obtain i z1 ctx where g: "get_slot c (bytes_to_blocks c n) z = Inr ((None, i), z1)" "i \<notin> H"
      "ctrl_inv c z1 (insert i H)" "io_frame H z z1" "slot_ctx (None, i) z1 = Inr ctx" "heap z1 i = Some ctx"
      "context_ok c ctx"
    by (rule get_slot_cases [OF rep inv])
  note dv = the_device_ready [OF dev [folded device_ready_frame [OF g(4)]], unfolded io_frame_fields(2) [OF g(4)]]
  have sz: "unat (bufferSize ctx) = length (dataBuffer ctx)" "unat (bufferSize ctx) \<le> length buffer"
    using g(7) buf by (simp_all add: context_ok_def unsigned_ucast_eq take_bit_nat_eq_self)
  then obtain bs b' where "mem_read buffer 0 (unat (bufferSize ctx)) = Inr bs" "mem_write (dataBuffer ctx) 0 bs = Inr b'"
    by (auto simp: mem_read_def mem_write_def)
  moreover have "bytes_to_blocks c (bufferSize ctx) \<noteq> bytes_to_blocks c n"
    using g(7) misfit by (simp add: context_ok_def)
  ultimately show ?thesis using g(1,5) dv
    by (simp add: MakeWriteChunk_def Let_def io_frame_fields [OF g(4)])
qed

section \<open>Completions succeed\<close>

text \<open>What a completion leaves: the invariant, the other contexts, and the updated context.\<close>

definition completed :: "conf \<Rightarrow> nat set \<Rightarrow> nat \<Rightarrow> zctrl \<Rightarrow> RequestContext \<Rightarrow> zctrl \<Rightarrow> bool" where
  "completed c H i z ctx z' \<longleftrightarrow> ctrl_inv c z' H \<and> io_frame (- {i}) z z' \<and> heap z' i = Some ctx"

lemma io_frame_bump [simp]: "io_frame K z (bump_total z)"
  by (simp add: io_frame_def bump_total_def)

lemma completed_bump:
  "completed c H i z ctx z' \<Longrightarrow> completed c H i z ctx (bump_total z')"
  using io_frame_trans [of "- {i}" z z' UNIV "bump_total z'" "- {i}"] io_frame_bump [of UNIV z']
  by (auto simp: completed_def) (simp_all add: bump_total_def ctrl_inv_def)

lemma complete_context:
  assumes inv: "ctrl_inv c z H" and i: "i \<in> H" and ctx: "heap z i = Some ctx" and f: "context_ok c (f ctx)"
  shows "okR (update_slot (None, i) f z) (\<lambda>z'. completed c H i z (f ctx) (bump_total z'))"
proof -
  have "completed c H i z (f ctx) z'" if "ctrl_inv c z' H" "io_frame (- {i}) z z'"
      "heap z' i = map_option f (heap z i)" for z'
    using that ctx by (simp add: completed_def)
  then show ?thesis
    using okR_mono [OF update_slot_ok [OF inv i, of f]] ctx f completed_bump by fastforce
qed

lemma held_context:
  assumes "ctrl_inv c z H" and "i \<in> H" and "heap z i = Some ctx"
  shows "slot_ctx (None, i) z = Inr ctx" "context_ok c ctx"
  using slot_ctx_ok [OF assms(1,2)] assms(3) by (auto elim!: okRE)

lemma zoneAppend_ok [ok_rules]:
  assumes inv: "ctrl_inv c z H" and i: "i \<in> H" and ctx: "heap z i = Some ctx" "has_ctrl ctx"
  shows "okR (zoneAppend (Completed cpl) (None, i) z) (completed c H i z
    (ctx\<lparr>write_complete := True, success := True, append_lba := ucast (cdw0 cpl)\<rparr>))"
proof -
  note held = held_context [OF inv i ctx(1)]
  have "context_ok c (ctx\<lparr>write_complete := True, success := True, append_lba := ucast (cdw0 cpl)\<rparr>)"
    using held(2) by (simp add: context_ok_def)
  from complete_context [OF inv i ctx(1), where f = "\<lambda>ctx. ctx\<lparr>write_complete := True, success := True,
      append_lba := ucast (cdw0 cpl)\<rparr>", OF this] held(1) ctx(2)
  show ?thesis by (simp add: zoneAppend_def await_io_def)
qed

lemma zoneReadDummy_ok [ok_rules]:
  assumes inv: "ctrl_inv c z H" and i: "i \<in> H" and ctx: "heap z i = Some ctx" "has_ctrl ctx"
    and small: "unat (request_buffer_size c) < 2 ^ 32"
  shows "okR (zoneReadDummy True (None, i) z) (completed c H i z
    (ctx\<lparr>response_body := bytes_string (dataBuffer ctx), success := True\<rparr>))"
proof -
  note held = held_context [OF inv i ctx(1)]
  have rd: "mem_read (dataBuffer ctx) 0 (unat (bufferSize ctx)) = Inr (dataBuffer ctx)"
    using held(2) small by (simp add: context_ok_def mem_read_def unsigned_ucast_eq take_bit_nat_eq_self)
  have "context_ok c (ctx\<lparr>response_body := bytes_string (dataBuffer ctx), success := True\<rparr>)"
    using held(2) by (simp add: context_ok_def)
  from complete_context [OF inv i ctx(1), where f = "\<lambda>x. x\<lparr>response_body := bytes_string (dataBuffer ctx),
      success := True\<rparr>", OF this] held(1) ctx(2) rd
  show ?thesis by (simp add: zoneReadDummy_def)
qed

lemma zoneRead_ok [ok_rules]:
  assumes inv: "ctrl_inv c z H" and i: "i \<in> H" and ctx: "heap z i = Some ctx" "has_ctrl ctx"
    and small: "unat (request_buffer_size c) < 2 ^ 32" and dma: "length dma = unat (request_buffer_size c)"
  shows "okR (zoneRead (Completed cpl) dma (None, i) z) (completed c H i z
    (ctx\<lparr>dataBuffer := dma, response_body := bytes_string dma, success := True\<rparr>))"
proof -
  note held = held_context [OF inv i ctx(1)]
  have rd: "mem_write (dataBuffer ctx) 0 dma = Inr dma" "mem_read dma 0 (unat (bufferSize ctx)) = Inr dma"
    using held(2) small dma
    by (simp_all add: context_ok_def mem_read_def mem_write_def unsigned_ucast_eq take_bit_nat_eq_self)
  have "context_ok c (ctx\<lparr>dataBuffer := dma, response_body := bytes_string dma, success := True\<rparr>)"
    using held(2) dma by (simp add: context_ok_def)
  from complete_context [OF inv i ctx(1), where f = "\<lambda>x. x\<lparr>dataBuffer := dma, response_body := bytes_string dma,
      success := True\<rparr>", OF this] held(1) ctx(2) rd
  show ?thesis by (simp add: zoneRead_def await_io_def)
qed

text \<open>The completions of one request may arrive in any order: two appends on different contexts
  commute.\<close>

lemma zoneAppend_commute:
  assumes ij: "i \<noteq> j"
  shows "bindR (zoneAppend (Completed r1) (None, i) z) (zoneAppend (Completed r2) (None, j)) = Inr z' \<longleftrightarrow>
    bindR (zoneAppend (Completed r2) (None, j) z) (zoneAppend (Completed r1) (None, i)) = Inr z'"
  using ij
  by (cases "heap z i"; cases "heap z j")
     (auto simp: zoneAppend_def slot_ctx_def update_slot_def update_context_def pool_at_def put_pool_def
      await_io_def bump_total_def bindR_eq_Inr cassert_eq_Inr fun_upd_twist [OF ij])

section \<open>Properties\<close>

text \<open>A controller whose context 1 is in use by a request.\<close>

definition ex_busy :: zctrl where
  "ex_busy = ex_ctrl\<lparr>mRequestContextPool := ex_pool1\<lparr>ctx_heap := (ctx_heap ex_pool1)
     (1 \<mapsto> (fresh_context conf_default zero_context)\<lparr>has_ctrl := True\<rparr>)\<rparr>\<rparr>"

lemma ex_busy_inv: "ctrl_inv conf_default ex_busy {1}"
  by (auto simp: ctrl_inv_def pool_inv_def ex_busy_def ex_pool1_def ex_pool_def new_RequestContextPool_def
      context_ok_def fresh_context_def Clear_def zero_context_def split: if_splits)

text \<open>
  The appends of one request may complete in any order: running two of them on different
  contexts in either order gives the same controller state, or neither order succeeds.
\<close>

lemma appends_commute:
  assumes "i \<noteq> j"
  shows "(bindR (zoneAppend (Completed r1) (None, i) z) (zoneAppend (Completed r2) (None, j)) = Inr z') =
    (bindR (zoneAppend (Completed r2) (None, j) z) (zoneAppend (Completed r1) (None, i)) = Inr z')"
  by (rule zoneAppend_commute [OF assms])

lemma appends_commute_example:
  "(bindR (zoneAppend (Completed \<lparr>cpl_error = False, cdw0 = 7\<rparr>) (None, 0) ex_busy)
      (zoneAppend (Completed \<lparr>cpl_error = False, cdw0 = 8\<rparr>) (None, 1)) = Inr ex_busy) =
   (bindR (zoneAppend (Completed \<lparr>cpl_error = False, cdw0 = 8\<rparr>) (None, 1) ex_busy)
      (zoneAppend (Completed \<lparr>cpl_error = False, cdw0 = 7\<rparr>) (None, 0)) = Inr ex_busy)"
  by (rule appends_commute) simp

text \<open>
  An append that the device reports as failed is treated like a successful one: the context is
  marked successful and complete, takes the command dword as its block, and the request counts.
\<close>

lemma failed_append_reports_success:
  assumes "ctrl_inv c z H" and "i \<in> H" and "heap z i = Some ctx" and "has_ctrl ctx" and "cpl_error cpl"
  shows "\<exists>z' ctx'. zoneAppend (Completed cpl) (None, i) z = Inr z' \<and> heap z' i = Some ctx' \<and>
    success ctx' \<and> write_complete ctx' \<and> append_lba ctx' = ucast (cdw0 cpl) \<and> ctrl_inv c z' H"
  using zoneAppend_ok [OF assms(1-4), of cpl] by (auto elim!: okRE simp: completed_def)

lemma failed_append_reports_success_example:
  "\<exists>z' ctx'. zoneAppend (Completed \<lparr>cpl_error = True, cdw0 = 0\<rparr>) (None, 1) ex_busy = Inr z' \<and>
     heap z' 1 = Some ctx' \<and> success ctx'"
proof -
  have "heap ex_busy 1 = Some ((fresh_context conf_default zero_context)\<lparr>has_ctrl := True\<rparr>)" by (simp add: ex_busy_def)
  from failed_append_reports_success [OF ex_busy_inv _ this, of "\<lparr>cpl_error = True, cdw0 = 0\<rparr>"]
  show ?thesis by auto
qed

text \<open>
  A read request on a ready device takes a context nobody uses, keeps every other context, and
  asks the device for the blocks at the device's current zone plus the given offset.
\<close>

lemma read_request_targets_zone:
  assumes "\<not> gReplayWorkload c" and "ctrl_inv c z H" and "device_ready (Some d) z"
  shows "\<exists>i ctx z'. MakeReadRequest c (Some d) off n z = Inr ((None, i), z') \<and> i \<notin> H \<and>
    ctrl_inv c z' (insert i H) \<and> io_frame H z z' \<and> heap z' i = Some ctx \<and>
    io_offset (ioContext ctx) = gZoneDist c * ucast (mZoneId (mDevices z ! d)) + off \<and>
    io_size (ioContext ctx) = n div block_size32 c"
  using MakeReadRequest_ok [OF assms, of off n]
  by (auto elim!: okRE simp: request_for_def zone_base_def bytes_to_blocks_def)

lemma read_request_targets_zone_example:
  "\<exists>i z'. MakeReadRequest conf_default (Some 2) 5 4096 (ex_busy\<lparr>mDevices := replicate 6 (new_Device\<lparr>mIoQueues := [0]\<rparr>)\<rparr>) =
     Inr ((None, i), z') \<and> i \<noteq> 1"
proof -
  let ?z = "ex_busy\<lparr>mDevices := replicate 6 (new_Device\<lparr>mIoQueues := [0]\<rparr>)\<rparr>"
  have inv: "ctrl_inv conf_default ?z {1}" using ex_busy_inv by (simp add: ctrl_inv_def)
  have dev: "device_ready (Some 2) ?z" by (simp add: device_ready_def)
  have rep: "\<not> gReplayWorkload conf_default" by (simp add: conf_default_def)
  from read_request_targets_zone [OF rep inv dev, of 5 4096] show ?thesis by auto
qed

end
