(* ===== verification/Zstore_Xml.thy ===== *)
theory Zstore_Xml
  imports Zstore_Prelude
begin

text \<open>
  The strings and the documents of the XML library (\<^verbatim>\<open>src/src/tinyxml2.cpp\<close>,
  \<^verbatim>\<open>src/src/include/tinyxml2.h\<close>): character classes, UTF-8 encoding and character references of
  \<open>XMLUtil\<close>, the lazily normalised strings of \<open>StrPair\<close>, and the document tree with the operations that
  build, read, copy and compare it.

  A C string is the list of the characters before its terminator, so that the end of the list is
  the terminating NUL; \<open>c_str\<close> cuts a buffer at its first NUL. A \<open>StrPair\<close> of the parser is a range of
  the input with the flags of the normalisation that the first \<open>GetStr\<close> performs; the model applies
  \<open>GetStr\<close> when the range is stored, because no code looks at the range in between. Assertions
  (\<^verbatim>\<open>TIXMLASSERT\<close>) are compiled out unless \<^verbatim>\<open>TINYXML2_DEBUG\<close> is defined, and line numbers, which only
  error messages show, are left out.
\<close>

unbundle bit_operations_syntax

named_theorems xml_simps \<open>character classes and string scanning\<close>

section \<open>Errors\<close>

datatype XMLError = XML_SUCCESS | XML_NO_ATTRIBUTE | XML_WRONG_ATTRIBUTE_TYPE
  | XML_ERROR_FILE_NOT_FOUND | XML_ERROR_FILE_COULD_NOT_BE_OPENED | XML_ERROR_FILE_READ_ERROR
  | XML_ERROR_PARSING_ELEMENT | XML_ERROR_PARSING_ATTRIBUTE | XML_ERROR_PARSING_TEXT
  | XML_ERROR_PARSING_CDATA | XML_ERROR_PARSING_COMMENT | XML_ERROR_PARSING_DECLARATION
  | XML_ERROR_PARSING_UNKNOWN | XML_ERROR_EMPTY_DOCUMENT | XML_ERROR_MISMATCHED_ELEMENT
  | XML_ERROR_PARSING | XML_CAN_NOT_CONVERT_TEXT | XML_NO_TEXT_NODE | XML_ELEMENT_DEPTH_EXCEEDED

section \<open>Characters and strings\<close>

definition c_str :: "string \<Rightarrow> string" where
  "c_str s = takeWhile (\<lambda>ch. ch \<noteq> CHR 0x00) s"

definition IsUTF8Continuation :: "char \<Rightarrow> bool" where
  "IsUTF8Continuation p \<longleftrightarrow> 128 \<le> (of_char p :: nat)"

text \<open>\<^verbatim>\<open>isspace\<close> and \<^verbatim>\<open>isalpha\<close> of the C locale; \<^verbatim>\<open>isdigit\<close> is \<open>is_digit\<close>.\<close>

definition isspace :: "char \<Rightarrow> bool" where
  "isspace ch \<longleftrightarrow> (of_char ch :: nat) = 32 \<or> (9 \<le> (of_char ch :: nat) \<and> (of_char ch :: nat) \<le> 13)"

definition isalpha :: "char \<Rightarrow> bool" where
  "isalpha ch \<longleftrightarrow> (65 \<le> (of_char ch :: nat) \<and> (of_char ch :: nat) \<le> 90)
                 \<or> (97 \<le> (of_char ch :: nat) \<and> (of_char ch :: nat) \<le> 122)"

definition IsWhiteSpace :: "char \<Rightarrow> bool" where
  "IsWhiteSpace p \<longleftrightarrow> \<not> IsUTF8Continuation p \<and> isspace p"

definition IsNameStartChar :: "char \<Rightarrow> bool" where
  "IsNameStartChar ch \<longleftrightarrow>
     (if 128 \<le> (of_char ch :: nat) then True
      else if isalpha ch then True
      else ch = CHR '':'' \<or> ch = CHR ''_'')"

definition IsNameChar :: "char \<Rightarrow> bool" where
  "IsNameChar ch \<longleftrightarrow> IsNameStartChar ch \<or> is_digit ch \<or> ch = CHR ''.'' \<or> ch = CHR ''-''"

fun SkipWhiteSpace :: "string \<Rightarrow> string" where
  "SkipWhiteSpace [] = []"
| "SkipWhiteSpace (ch # cs) = (if IsWhiteSpace ch then SkipWhiteSpace cs else ch # cs)"

definition IsPrefixHex :: "string \<Rightarrow> bool" where
  "IsPrefixHex p =
     (case SkipWhiteSpace p of
        a # b # _ \<Rightarrow> a = CHR ''0'' \<and> (b = CHR ''x'' \<or> b = CHR ''X'')
      | _ \<Rightarrow> False)"

text \<open>\<^verbatim>\<open>strncmp\<close> of C strings, as the equality of their first characters; the default bound of
  \<open>StringEqual\<close> is \<^verbatim>\<open>INT_MAX\<close>.\<close>

definition INT_MAX :: nat where "INT_MAX = 2147483647"

definition StringEqualN :: "string \<Rightarrow> string \<Rightarrow> nat \<Rightarrow> bool" where
  "StringEqualN p q nChar \<longleftrightarrow> take nChar p = take nChar q"

definition StringEqual :: "string \<Rightarrow> string \<Rightarrow> bool" where
  "StringEqual p q = StringEqualN p q INT_MAX"

definition ReadBOM :: "string \<Rightarrow> string \<times> bool" where
  "ReadBOM p = (if take 3 p = [CHR 0xEF, CHR 0xBB, CHR 0xBF] then (drop 3 p, True) else (p, False))"

section \<open>UTF-8 and character references\<close>

text \<open>
  The fall-through \<^verbatim>\<open>switch\<close> writes the bytes from the last to the first: one continuation byte per
  case above the first, six bits each, and the lead byte with its mark.
\<close>

fun utf8_fill :: "nat \<Rightarrow> u64 \<Rightarrow> u64 \<Rightarrow> string \<Rightarrow> string" where
  "utf8_fill 0 mark input out = out"
| "utf8_fill (Suc 0) mark input out = char_of (unat (input OR mark)) # out"
| "utf8_fill (Suc (Suc n)) mark input out =
     utf8_fill (Suc n) mark (drop_bit 6 input) (char_of (unat ((input OR 0x80) AND 0xBF)) # out)"

definition utf8_length :: "u64 \<Rightarrow> nat" where
  "utf8_length input =
     (if input < 0x80 then 1 else if input < 0x800 then 2 else if input < 0x10000 then 3
      else if input < 0x200000 then 4 else 0)"

definition FIRST_BYTE_MARK :: "u64 list" where
  "FIRST_BYTE_MARK = [0x00, 0x00, 0xC0, 0xE0, 0xF0, 0xF8, 0xFC]"

definition ConvertUTF32ToUTF8 :: "u64 \<Rightarrow> string" where
  "ConvertUTF32ToUTF8 input =
     (let len = utf8_length input in utf8_fill len (FIRST_BYTE_MARK ! len) input [])"

text \<open>
  The digits of a reference are read from the semicolon backwards, up to the nearest \<open>stop\<close> character;
  the scale of a digit is an \<^verbatim>\<open>unsigned\<close> that wraps.
\<close>

definition ref_hex_digit :: "char \<Rightarrow> u32 option" where
  "ref_hex_digit ch =
     (let n = of_char ch :: nat in
      if 48 \<le> n \<and> n \<le> 57 then Some (of_nat (n - 48))
      else if 97 \<le> n \<and> n \<le> 102 then Some (of_nat (n - 97 + 10))
      else if 65 \<le> n \<and> n \<le> 70 then Some (of_nat (n - 65 + 10)) else None)"

definition ref_dec_digit :: "char \<Rightarrow> u32 option" where
  "ref_dec_digit ch = (let n = of_char ch :: nat in if 48 \<le> n \<and> n \<le> 57 then Some (of_nat (n - 48)) else None)"

fun scan_digits :: "(char \<Rightarrow> u32 option) \<Rightarrow> u32 \<Rightarrow> char \<Rightarrow> string \<Rightarrow> u32 \<Rightarrow> u64 \<Rightarrow> u64 option" where
  "scan_digits digit base stop [] mult ucs = None"
| "scan_digits digit base stop (q # qs) mult ucs =
     (if q = stop then Some ucs
      else case digit q of
        None \<Rightarrow> None
      | Some d \<Rightarrow> scan_digits digit base stop qs (mult * base) (ucs + ucast (mult * d)))"

definition char_ref ::
  "(char \<Rightarrow> u32 option) \<Rightarrow> u32 \<Rightarrow> char \<Rightarrow> string \<Rightarrow> (string \<times> string) option" where
  "char_ref digit base stop q =
     (if q = [] \<or> CHR '';'' \<notin> set q then None
      else
        let digits = takeWhile (\<lambda>ch. ch \<noteq> CHR '';'') q in
        case scan_digits digit base stop (rev (stop # digits)) 1 0 of
          None \<Rightarrow> None
        | Some ucs \<Rightarrow> Some (ConvertUTF32ToUTF8 ucs, drop (length digits + 1) q))"

text \<open>
  The result is the bytes of the reference and what follows it. A lone \<^verbatim>\<open>&#\<close> at the end yields no
  byte and moves over the ampersand.
\<close>

definition GetCharacterRef :: "string \<Rightarrow> (string \<times> string) option" where
  "GetCharacterRef p =
     (case p of
        _ # b # r # rs \<Rightarrow>
          if b = CHR ''#'' then
            (if r = CHR ''x'' then char_ref ref_hex_digit 16 (CHR ''x'') rs
             else char_ref ref_dec_digit 10 (CHR ''#'') (r # rs))
          else Some ([], tl p)
      | _ \<Rightarrow> Some ([], tl p))"

section \<open>String ranges\<close>

definition entities :: "(string \<times> char) list" where
  "entities = [(''quot'', CHR 0x22), (''amp'', CHR ''&''), (''apos'', CHR 0x27), (''lt'', CHR ''<''), (''gt'', CHR ''>'')]"

fun ParseText :: "string \<Rightarrow> string \<Rightarrow> (string \<times> string) option" where
  "ParseText endTag [] = None"
| "ParseText endTag (ch # cs) =
     (if StringEqualN (ch # cs) endTag (length endTag) then Some ([], drop (length endTag) (ch # cs))
      else case ParseText endTag cs of
        None \<Rightarrow> None
      | Some (body, rest) \<Rightarrow> Some (ch # body, rest))"

definition ParseName :: "string \<Rightarrow> (string \<times> string) option" where
  "ParseName p =
     (case p of
        [] \<Rightarrow> None
      | ch # cs \<Rightarrow>
          if \<not> IsNameStartChar ch then None
          else Some (ch # takeWhile IsNameChar cs, dropWhile IsNameChar cs))"

lemma length_SkipWhiteSpace: "length (SkipWhiteSpace cs) \<le> length cs"
  by (induction cs) auto

function collapse_loop :: "string \<Rightarrow> string" where
  "collapse_loop [] = []"
| "collapse_loop (ch # cs) =
     (if IsWhiteSpace ch then
        (case SkipWhiteSpace cs of
           [] \<Rightarrow> []
         | d # ds \<Rightarrow> CHR '' '' # d # collapse_loop ds)
      else ch # collapse_loop cs)"
  by pat_completeness auto
termination
proof (relation "measure length", goal_cases)
  case 1
  then show ?case by simp
next
  case (2 ch cs d ds)
  then show ?case using length_SkipWhiteSpace [of cs] by simp
next
  case (3 ch cs)
  then show ?case by simp
qed

definition CollapseWhitespace :: "string \<Rightarrow> string" where
  "CollapseWhitespace s = collapse_loop (SkipWhiteSpace s)"

text \<open>
  \<open>GetStr\<close> rewrites the range in place: \<open>out\<close> is what lies before the write pointer, and the write
  pointer never passes the read pointer (\<open>GetStr_in_place\<close>). The branch for an entity that is
  not in the table advances both pointers without a copy, so the character of the output is the one
  that the range \<open>orig\<close> already holds at that position.
\<close>

record str_flags =
  NEEDS_ENTITY_PROCESSING :: bool
  NEEDS_NEWLINE_NORMALIZATION :: bool
  NEEDS_WHITESPACE_COLLAPSING :: bool

definition match_entity :: "string \<Rightarrow> (string \<times> char) option" where
  "match_entity p = find (\<lambda>(pattern, v). StringEqualN p pattern (length pattern) \<and>
                           take 1 (drop (length pattern) p) = '';'') entities"

lemma length_char_ref:
  "char_ref digit base stop q = Some (bytes, rest) \<Longrightarrow> length rest < length q"
  by (cases q) (auto simp: char_ref_def Let_def split: if_splits option.splits)

lemma length_GetCharacterRef:
  "GetCharacterRef p = Some (bytes, rest) \<Longrightarrow> p \<noteq> [] \<Longrightarrow> length rest < length p"
  by (auto simp: GetCharacterRef_def split: list.splits if_splits dest!: length_char_ref)

function get_str_loop :: "str_flags \<Rightarrow> string \<Rightarrow> string \<Rightarrow> string \<Rightarrow> string" where
  "get_str_loop flags orig [] out = out"
| "get_str_loop flags orig (ch # cs) out =
     (if NEEDS_NEWLINE_NORMALIZATION flags \<and> ch = CHR 0x0D then
        get_str_loop flags orig (if take 1 cs = [CHR 0x0A] then tl cs else cs) (out @ [CHR 0x0A])
      else if NEEDS_NEWLINE_NORMALIZATION flags \<and> ch = CHR 0x0A then
        get_str_loop flags orig (if take 1 cs = [CHR 0x0D] then tl cs else cs) (out @ [CHR 0x0A])
      else if NEEDS_ENTITY_PROCESSING flags \<and> ch = CHR ''&'' then
        (if take 1 cs = ''#'' then
           (case GetCharacterRef (ch # cs) of
              None \<Rightarrow> get_str_loop flags orig cs (out @ [ch])
            | Some (buf, adjusted) \<Rightarrow> get_str_loop flags orig adjusted (out @ buf))
         else
           (case match_entity cs of
              Some (pattern, v) \<Rightarrow> get_str_loop flags orig (drop (length pattern + 1) cs) (out @ [v])
            | None \<Rightarrow> get_str_loop flags orig cs (out @ [orig ! length out])))
      else get_str_loop flags orig cs (out @ [ch]))"
  by pat_completeness auto
termination
  by (relation "measure (\<lambda>(flags, orig, p, out). length p)") (auto dest!: length_GetCharacterRef)

definition GetStr :: "str_flags \<Rightarrow> string \<Rightarrow> string" where
  "GetStr flags txt =
     (let s = c_str (get_str_loop flags txt txt [])
      in if NEEDS_WHITESPACE_COLLAPSING flags then CollapseWhitespace s else s)"

definition TEXT_ELEMENT :: str_flags where "TEXT_ELEMENT = \<lparr>NEEDS_ENTITY_PROCESSING = True, NEEDS_NEWLINE_NORMALIZATION = True, NEEDS_WHITESPACE_COLLAPSING = False\<rparr>"
definition TEXT_ELEMENT_LEAVE_ENTITIES :: str_flags where "TEXT_ELEMENT_LEAVE_ENTITIES = TEXT_ELEMENT\<lparr>NEEDS_ENTITY_PROCESSING := False\<rparr>"
definition ATTRIBUTE_VALUE :: str_flags where "ATTRIBUTE_VALUE = TEXT_ELEMENT"
definition ATTRIBUTE_VALUE_LEAVE_ENTITIES :: str_flags where "ATTRIBUTE_VALUE_LEAVE_ENTITIES = TEXT_ELEMENT_LEAVE_ENTITIES"
definition COMMENT :: str_flags where "COMMENT = TEXT_ELEMENT_LEAVE_ENTITIES"

section \<open>The document tree\<close>

text \<open>
  A node with its value; an element also has its attributes and its children in document order.
  The operations take and return nodes as values, as the program uses them: a new node is filled
  and inserted once.
\<close>

datatype XMLNode =
    XMLElement (Name: string) (attrs: "(string \<times> string) list") (kids: "XMLNode list")
  | XMLText string (CData: bool)
  | XMLComment string
  | XMLDeclaration string
  | XMLUnknown string

definition ToElement :: "XMLNode \<Rightarrow> bool" where
  "ToElement n = (case n of XMLElement _ _ _ \<Rightarrow> True | _ \<Rightarrow> False)"

definition ToText :: "XMLNode \<Rightarrow> bool" where
  "ToText n = (case n of XMLText _ _ \<Rightarrow> True | _ \<Rightarrow> False)"

definition ToComment :: "XMLNode \<Rightarrow> bool" where
  "ToComment n = (case n of XMLComment _ \<Rightarrow> True | _ \<Rightarrow> False)"

definition ToDeclaration :: "XMLNode \<Rightarrow> bool" where
  "ToDeclaration n = (case n of XMLDeclaration _ \<Rightarrow> True | _ \<Rightarrow> False)"

definition ToUnknown :: "XMLNode \<Rightarrow> bool" where
  "ToUnknown n = (case n of XMLUnknown _ \<Rightarrow> True | _ \<Rightarrow> False)"

definition Value :: "XMLNode \<Rightarrow> string" where
  "Value n = (case n of XMLElement s _ _ \<Rightarrow> s | XMLText s _ \<Rightarrow> s | XMLComment s \<Rightarrow> s
                      | XMLDeclaration s \<Rightarrow> s | XMLUnknown s \<Rightarrow> s)"

definition SetValue :: "string \<Rightarrow> XMLNode \<Rightarrow> XMLNode" where
  "SetValue str n =
     (case n of XMLElement _ a k \<Rightarrow> XMLElement (c_str str) a k
              | XMLText _ b \<Rightarrow> XMLText (c_str str) b
              | XMLComment _ \<Rightarrow> XMLComment (c_str str)
              | XMLDeclaration _ \<Rightarrow> XMLDeclaration (c_str str)
              | XMLUnknown _ \<Rightarrow> XMLUnknown (c_str str))"

definition NewElement :: "string \<Rightarrow> XMLNode" where
  "NewElement name = XMLElement (c_str name) [] []"

definition NewComment :: "string \<Rightarrow> XMLNode" where
  "NewComment str = XMLComment (c_str str)"

definition NewText :: "string \<Rightarrow> XMLNode" where
  "NewText str = XMLText (c_str str) False"

definition NewDeclaration :: "string option \<Rightarrow> XMLNode" where
  "NewDeclaration str = XMLDeclaration (c_str (case str of
      Some s \<Rightarrow> s
    | None \<Rightarrow> ''xml version='' @ [CHR 0x22] @ ''1.0'' @ [CHR 0x22] @ '' encoding='' @ [CHR 0x22] @ ''UTF-8'' @ [CHR 0x22]))"

definition NewUnknown :: "string \<Rightarrow> XMLNode" where
  "NewUnknown str = XMLUnknown (c_str str)"

text \<open>Children.\<close>

definition InsertEndChild :: "XMLNode \<Rightarrow> XMLNode list \<Rightarrow> XMLNode list" where
  "InsertEndChild addThis children = children @ [addThis]"

definition InsertFirstChild :: "XMLNode \<Rightarrow> XMLNode list \<Rightarrow> XMLNode list" where
  "InsertFirstChild addThis children = addThis # children"

definition on_kids :: "(XMLNode list \<Rightarrow> XMLNode list) \<Rightarrow> XMLNode \<Rightarrow> XMLNode" where
  "on_kids f n = (case n of XMLElement s a k \<Rightarrow> XMLElement s a (f k) | _ \<Rightarrow> n)"

definition InsertNewChildElement :: "string \<Rightarrow> XMLNode \<Rightarrow> XMLNode" where
  "InsertNewChildElement name e = on_kids (InsertEndChild (NewElement name)) e"

definition InsertNewComment :: "string \<Rightarrow> XMLNode \<Rightarrow> XMLNode" where
  "InsertNewComment comment e = on_kids (InsertEndChild (NewComment comment)) e"

definition InsertNewText :: "string \<Rightarrow> XMLNode \<Rightarrow> XMLNode" where
  "InsertNewText str e = on_kids (InsertEndChild (NewText str)) e"

definition InsertNewDeclaration :: "string option \<Rightarrow> XMLNode \<Rightarrow> XMLNode" where
  "InsertNewDeclaration str e = on_kids (InsertEndChild (NewDeclaration str)) e"

definition InsertNewUnknown :: "string \<Rightarrow> XMLNode \<Rightarrow> XMLNode" where
  "InsertNewUnknown str e = on_kids (InsertEndChild (NewUnknown str)) e"

text \<open>A null name matches every element.\<close>

definition ToElementWithName :: "string option \<Rightarrow> XMLNode \<Rightarrow> bool" where
  "ToElementWithName name n \<longleftrightarrow>
     ToElement n \<and> (case name of None \<Rightarrow> True | Some s \<Rightarrow> StringEqual (Name n) s)"

definition FirstChildElement :: "string option \<Rightarrow> XMLNode list \<Rightarrow> XMLNode option" where
  "FirstChildElement name children = find (ToElementWithName name) children"

definition LastChildElement :: "string option \<Rightarrow> XMLNode list \<Rightarrow> XMLNode option" where
  "LastChildElement name children = find (ToElementWithName name) (rev children)"

text \<open>\<open>NextSiblingElement\<close> continues after the element found; the count follows it to the end.\<close>

fun ChildElementCount :: "string option \<Rightarrow> XMLNode list \<Rightarrow> nat" where
  "ChildElementCount name [] = 0"
| "ChildElementCount name (n # ns) =
     (if ToElementWithName name n then 1 + ChildElementCount name ns else ChildElementCount name ns)"

definition GetText :: "XMLNode \<Rightarrow> string option" where
  "GetText e = (case dropWhile ToComment (kids e) of
       [] \<Rightarrow> None
     | n # _ \<Rightarrow> if ToText n then Some (Value n) else None)"

definition SetText :: "string \<Rightarrow> XMLNode \<Rightarrow> XMLNode" where
  "SetText inText e = on_kids (\<lambda>k. case k of
       n # ns \<Rightarrow> if ToText n then SetValue inText n # ns else InsertFirstChild (NewText inText) k
     | [] \<Rightarrow> InsertFirstChild (NewText inText) k) e"

text \<open>Attributes.\<close>

fun FindAttribute :: "string \<Rightarrow> (string \<times> string) list \<Rightarrow> (string \<times> string) option" where
  "FindAttribute name [] = None"
| "FindAttribute name (a # as) = (if StringEqual (fst a) name then Some a else FindAttribute name as)"

definition Attribute :: "string \<Rightarrow> string option \<Rightarrow> (string \<times> string) list \<Rightarrow> string option" where
  "Attribute name v as =
     (case FindAttribute name as of
        None \<Rightarrow> None
      | Some a \<Rightarrow> (case v of
          None \<Rightarrow> Some (snd a)
        | Some s \<Rightarrow> if StringEqual (snd a) s then Some (snd a) else None))"

text \<open>\<open>FindOrCreateAttribute\<close> followed by the assignment of the value to the attribute it returns.\<close>

fun FindOrCreateAttribute :: "string \<Rightarrow> (string \<Rightarrow> string) \<Rightarrow> (string \<times> string) list \<Rightarrow> (string \<times> string) list" where
  "FindOrCreateAttribute name f [] = [(c_str name, f [])]"
| "FindOrCreateAttribute name f (a # as) =
     (if StringEqual (fst a) name then (fst a, f (snd a)) # as else a # FindOrCreateAttribute name f as)"

definition SetAttribute :: "string \<Rightarrow> string \<Rightarrow> XMLNode \<Rightarrow> XMLNode" where
  "SetAttribute name v e =
     (case e of XMLElement s a k \<Rightarrow> XMLElement s (FindOrCreateAttribute name (\<lambda>_. c_str v) a) k | _ \<Rightarrow> e)"

fun DeleteAttribute :: "string \<Rightarrow> (string \<times> string) list \<Rightarrow> (string \<times> string) list" where
  "DeleteAttribute name [] = []"
| "DeleteAttribute name (a # as) = (if StringEqual name (fst a) then as else a # DeleteAttribute name as)"

text \<open>Copies and comparison. The comparison of two elements looks at the values of their attributes
  only.\<close>

definition XMLElement_ShallowClone :: "string \<Rightarrow> (string \<times> string) list \<Rightarrow> XMLNode" where
  "XMLElement_ShallowClone s a = fold (\<lambda>(name, v). SetAttribute name v) a (NewElement s)"

definition XMLText_ShallowClone :: "string \<Rightarrow> bool \<Rightarrow> XMLNode" where
  "XMLText_ShallowClone s b = (case NewText s of XMLText s' _ \<Rightarrow> XMLText s' b | m \<Rightarrow> m)"

definition XMLComment_ShallowClone :: "string \<Rightarrow> XMLNode" where
  "XMLComment_ShallowClone s = NewComment s"

definition XMLDeclaration_ShallowClone :: "string \<Rightarrow> XMLNode" where
  "XMLDeclaration_ShallowClone s = NewDeclaration (Some s)"

definition XMLUnknown_ShallowClone :: "string \<Rightarrow> XMLNode" where
  "XMLUnknown_ShallowClone s = NewUnknown s"

definition ShallowClone :: "XMLNode \<Rightarrow> XMLNode" where
  "ShallowClone n =
     (case n of
        XMLElement s a _ \<Rightarrow> XMLElement_ShallowClone s a
      | XMLText s b \<Rightarrow> XMLText_ShallowClone s b
      | XMLComment s \<Rightarrow> XMLComment_ShallowClone s
      | XMLDeclaration s \<Rightarrow> XMLDeclaration_ShallowClone s
      | XMLUnknown s \<Rightarrow> XMLUnknown_ShallowClone s)"

lemmas shallow_clone_defs = ShallowClone_def XMLElement_ShallowClone_def XMLText_ShallowClone_def
  XMLComment_ShallowClone_def XMLDeclaration_ShallowClone_def XMLUnknown_ShallowClone_def

fun DeepClone :: "XMLNode \<Rightarrow> XMLNode" where
  "DeepClone (XMLElement s a k) =
     on_kids (\<lambda>ks. foldl (\<lambda>ks child. InsertEndChild (DeepClone child) ks) ks k) (ShallowClone (XMLElement s a k))"
| "DeepClone n = ShallowClone n"

fun equal_values :: "(string \<times> string) list \<Rightarrow> (string \<times> string) list \<Rightarrow> bool" where
  "equal_values (a # as) (b # bs) = (if StringEqual (snd a) (snd b) then equal_values as bs else False)"
| "equal_values [] [] = True"
| "equal_values _ _ = False"

definition XMLElement_ShallowEqual :: "string \<Rightarrow> (string \<times> string) list \<Rightarrow> XMLNode \<Rightarrow> bool" where
  "XMLElement_ShallowEqual s a compare \<longleftrightarrow>
     (if ToElement compare \<and> StringEqual (Value compare) s then equal_values a (attrs compare) else False)"

definition XMLText_ShallowEqual :: "string \<Rightarrow> XMLNode \<Rightarrow> bool" where
  "XMLText_ShallowEqual s compare \<longleftrightarrow> ToText compare \<and> StringEqual (Value compare) s"

definition XMLComment_ShallowEqual :: "string \<Rightarrow> XMLNode \<Rightarrow> bool" where
  "XMLComment_ShallowEqual s compare \<longleftrightarrow> ToComment compare \<and> StringEqual (Value compare) s"

definition XMLDeclaration_ShallowEqual :: "string \<Rightarrow> XMLNode \<Rightarrow> bool" where
  "XMLDeclaration_ShallowEqual s compare \<longleftrightarrow> ToDeclaration compare \<and> StringEqual (Value compare) s"

definition XMLUnknown_ShallowEqual :: "string \<Rightarrow> XMLNode \<Rightarrow> bool" where
  "XMLUnknown_ShallowEqual s compare \<longleftrightarrow> ToUnknown compare \<and> StringEqual (Value compare) s"

definition ShallowEqual :: "XMLNode \<Rightarrow> XMLNode \<Rightarrow> bool" where
  "ShallowEqual n compare =
     (case n of
        XMLElement s a _ \<Rightarrow> XMLElement_ShallowEqual s a compare
      | XMLText s _ \<Rightarrow> XMLText_ShallowEqual s compare
      | XMLComment s \<Rightarrow> XMLComment_ShallowEqual s compare
      | XMLDeclaration s \<Rightarrow> XMLDeclaration_ShallowEqual s compare
      | XMLUnknown s \<Rightarrow> XMLUnknown_ShallowEqual s compare)"

section \<open>UTF-8\<close>

text \<open>The encoding of RFC 3629, on numbers.\<close>

definition utf8_encode :: "nat \<Rightarrow> nat list" where
  "utf8_encode n =
     (if n < 128 then [n]
      else if n < 2048 then [192 + n div 64, 128 + n mod 64]
      else if n < 65536 then [224 + n div 4096, 128 + n div 64 mod 64, 128 + n mod 64]
      else [240 + n div 262144, 128 + n div 4096 mod 64, 128 + n div 64 mod 64, 128 + n mod 64])"

lemma continuation_byte: "unat (((w :: u64) OR 0x80) AND 0xBF) = 128 + unat w mod 64"
proof -
  have c: "(0xBF :: u64) = push_bit 7 1 OR mask 6" "(0x80 :: u64) = push_bit 7 1" by (simp_all add: mask_eq_exp_minus_1)
  have "(w OR 0x80) AND 0xBF = push_bit 7 1 OR take_bit 6 w"
    unfolding c by (rule bit_word_eqI) (auto simp: bit_simps)
  also have "\<dots> = push_bit 7 1 + take_bit 6 w"
    by (rule disjunctive_add [symmetric]) (auto simp only: bit_push_bit_iff bit_take_bit_iff)
  finally have e: "(w OR 0x80) AND 0xBF = 128 + take_bit 6 w" by simp
  have "unat (take_bit 6 w) = unat w mod 64" by (simp only: unsigned_take_bit_eq) (simp add: take_bit_eq_mod)
  moreover have "unat w mod 64 < 64" by simp
  ultimately show ?thesis unfolding e by (subst unat_add_lem [THEN iffD1]) simp_all
qed

lemma lead_byte:
  assumes "unat (w :: u64) < 2 ^ k" "mark = push_bit k m" "unat w + unat mark < 2 ^ 64"
  shows "unat (w OR mark) = unat w + unat mark"
proof -
  have "take_bit k w = w" using assms(1)
    by (metis take_bit_nat_eq_self unsigned_take_bit_eq word_unat_eq_iff)
  then have "w OR mark = w + mark"
    unfolding assms(2) by (intro disjunctive_add [symmetric]) (metis bit_push_bit_iff bit_take_bit_iff leD)
  then show ?thesis using assms(3) by (simp add: unat_word_ariths)
qed

lemma of_char_char_of: "n < 256 \<Longrightarrow> (of_char (char_of n :: char) :: nat) = n"
  by (simp add: of_char_of)

lemma unat_drop_bit_64: "unat (drop_bit n (w :: u64)) = unat w div 2 ^ n"
  using unat_bound [of w] by (simp only: unsigned_drop_bit_eq) (simp add: drop_bit_eq_div take_bit_nat_eq_self)

text \<open>
  (C31) \<open>ConvertUTF32ToUTF8\<close> is the UTF-8 encoding: for every code point of up to 21 bits, the bytes that the fall-through
  \<^verbatim>\<open>switch\<close> with its masks writes are those of the reference encoding.
\<close>

theorem ConvertUTF32ToUTF8_utf8:
  assumes "unat w < 0x200000"
  shows "map of_char (ConvertUTF32ToUTF8 w) = utf8_encode (unat w)"
proof -
  have lt: "w < 0x80 \<longleftrightarrow> unat w < 128" "w < 0x800 \<longleftrightarrow> unat w < 2048" "w < 0x10000 \<longleftrightarrow> unat w < 65536" "w < 0x200000"
    using assms by (simp_all add: word_less_nat_alt)
  consider "unat w < 128" | "128 \<le> unat w" "unat w < 2048" | "2048 \<le> unat w" "unat w < 65536" | "65536 \<le> unat w"
    by linarith
  then show ?thesis
  proof cases
    case 1
    then show ?thesis using lt
      by (simp add: ConvertUTF32ToUTF8_def utf8_length_def FIRST_BYTE_MARK_def utf8_encode_def of_char_char_of)
  next
    case 2
    have "unat (drop_bit 6 w OR 0xC0) = unat w div 64 + 192"
      using lead_byte [of "drop_bit 6 w" 5 "0xC0" 6] 2 by (simp add: unat_drop_bit_64)
    then show ?thesis using lt 2
      by (simp add: ConvertUTF32ToUTF8_def utf8_length_def FIRST_BYTE_MARK_def utf8_encode_def of_char_char_of
          continuation_byte numeral_2_eq_2)
  next
    case 3
    have "unat (drop_bit 12 w OR 0xE0) = unat w div 4096 + 224"
      using lead_byte [of "drop_bit 12 w" 4 "0xE0" 14] 3 by (simp add: unat_drop_bit_64)
    then show ?thesis using lt 3
      by (simp add: ConvertUTF32ToUTF8_def utf8_length_def FIRST_BYTE_MARK_def utf8_encode_def of_char_char_of
          continuation_byte numeral_3_eq_3 unat_drop_bit_64)
  next
    case 4
    have "unat (drop_bit 18 w OR 0xF0) = unat w div 262144 + 240"
      using lead_byte [of "drop_bit 18 w" 3 "0xF0" 30] 4 assms by (simp add: unat_drop_bit_64)
    moreover have "ConvertUTF32ToUTF8 w = utf8_fill 4 0xF0 w []"
      using lt 4 by (simp add: ConvertUTF32ToUTF8_def utf8_length_def FIRST_BYTE_MARK_def)
    moreover have "(4 :: nat) = Suc (Suc (Suc (Suc 0)))" by simp
    then have "utf8_fill 4 0xF0 w [] = utf8_fill (Suc (Suc (Suc (Suc 0)))) 0xF0 w []" by (simp only:)
    ultimately show ?thesis using 4 assms
      by (simp add: utf8_encode_def of_char_char_of continuation_byte unat_drop_bit_64)
  qed
qed

theorem ConvertUTF32ToUTF8_utf8_witness: "map of_char (ConvertUTF32ToUTF8 0x4E2D) = utf8_encode 0x4E2D"
  using ConvertUTF32ToUTF8_utf8 [of "0x4E2D"] by simp

section \<open>GetStr works in place\<close>

lemma length_utf8_fill: "length (utf8_fill n mark w out) = n + length out"
  by (induction n mark w out rule: utf8_fill.induct) simp_all

lemma length_ConvertUTF32ToUTF8: "length (ConvertUTF32ToUTF8 w) \<le> 4" "length (ConvertUTF32ToUTF8 0) = 1"
  by (simp_all add: ConvertUTF32ToUTF8_def length_utf8_fill utf8_length_def Let_def)

lemma length_takeWhile_less_in: "x \<in> set xs \<Longrightarrow> length (takeWhile (\<lambda>y. y \<noteq> x) xs) < length xs"
  by (induction xs) auto

lemma char_ref_shrinks:
  assumes "char_ref digit base stop q = Some (bytes, rest)"
  shows "length bytes + length rest \<le> length q + 2"
proof -
  define digits where "digits = takeWhile (\<lambda>ch. ch \<noteq> CHR '';'') q"
  obtain ucs where u: "scan_digits digit base stop (rev (stop # digits)) 1 0 = Some ucs"
    "bytes = ConvertUTF32ToUTF8 ucs" "rest = drop (length digits + 1) q" "CHR '';'' \<in> set q"
    using assms by (auto simp: char_ref_def digits_def Let_def split: if_splits option.splits)
  have "length digits < length q" unfolding digits_def using u(4) by (rule length_takeWhile_less_in)
  show ?thesis
  proof (cases digits)
    case Nil
    then have "ucs = 0" using u(1) by simp
    then show ?thesis using u(2,3) length_ConvertUTF32ToUTF8(2) Nil by simp
  next
    case (Cons d ds)
    then show ?thesis using u(2,3) length_ConvertUTF32ToUTF8(1) [of ucs] \<open>length digits < length q\<close> by simp
  qed
qed

lemma GetCharacterRef_shrinks:
  assumes "GetCharacterRef p = Some (bytes, rest)" "p \<noteq> []"
  shows "length bytes + length rest \<le> length p"
  using assms by (auto simp: GetCharacterRef_def split: list.splits if_splits dest!: char_ref_shrinks)

lemma match_entity_shrinks:
  assumes "match_entity p = Some (pattern, v)" shows "length pattern < length p"
proof -
  have "take 1 (drop (length pattern) p) = '';''"
    using assms by (auto simp: match_entity_def find_Some_iff)
  then show ?thesis by (cases "length pattern < length p") auto
qed

text \<open>The write pointer stays behind the read pointer, and inside the range.\<close>

lemma step_exI:
  "get_str_loop flags orig p out = get_str_loop flags orig p' out' \<Longrightarrow> length p' \<le> n \<Longrightarrow> length out' + length p' \<le> m \<Longrightarrow>
   \<exists>p' out'. get_str_loop flags orig p out = get_str_loop flags orig p' out' \<and> length p' \<le> n \<and> length out' + length p' \<le> m"
  by blast

lemma get_str_loop_step:
  "\<exists>p' out'. get_str_loop flags orig (ch # cs) out = get_str_loop flags orig p' out' \<and>
     length p' \<le> length cs \<and> length out' + length p' \<le> length out + Suc (length cs)"
proof (cases "NEEDS_ENTITY_PROCESSING flags \<and> ch = CHR ''&'' \<and> take 1 cs = ''#''")
  case True
  show ?thesis
  proof (cases "GetCharacterRef (ch # cs)")
    case None
    then have "get_str_loop flags orig (ch # cs) out = get_str_loop flags orig cs (out @ [ch])" using True by simp
    then show ?thesis by (rule step_exI) auto
  next
    case (Some a)
    obtain buf rest where a: "a = (buf, rest)" by fastforce
    then have "get_str_loop flags orig (ch # cs) out = get_str_loop flags orig rest (out @ buf)" using True Some by simp
    then show ?thesis
      by (rule step_exI)
        (use length_GetCharacterRef [OF Some [unfolded a]] GetCharacterRef_shrinks [OF Some [unfolded a]] in auto)
  qed
next
  case False
  consider "NEEDS_NEWLINE_NORMALIZATION flags" "ch = CHR 0x0D" | "NEEDS_NEWLINE_NORMALIZATION flags" "ch = CHR 0x0A"
    | "NEEDS_ENTITY_PROCESSING flags" "ch = CHR ''&''" | "\<not> (NEEDS_NEWLINE_NORMALIZATION flags \<and> ch = CHR 0x0D)" "\<not> (NEEDS_NEWLINE_NORMALIZATION flags \<and> ch = CHR 0x0A)"
      "\<not> (NEEDS_ENTITY_PROCESSING flags \<and> ch = CHR ''&'')"
    by blast
  then show ?thesis
  proof cases
    case 1
    then have "get_str_loop flags orig (ch # cs) out =
        get_str_loop flags orig (if take 1 cs = [CHR 0x0A] then tl cs else cs) (out @ [CHR 0x0A])" by simp
    then show ?thesis by (rule step_exI) auto
  next
    case 2
    then have "get_str_loop flags orig (ch # cs) out =
        get_str_loop flags orig (if take 1 cs = [CHR 0x0D] then tl cs else cs) (out @ [CHR 0x0A])" by simp
    then show ?thesis by (rule step_exI) auto
  next
    case 3
    with False have "get_str_loop flags orig (ch # cs) out =
        (case match_entity cs of
           Some (pattern, v) \<Rightarrow> get_str_loop flags orig (drop (length pattern + 1) cs) (out @ [v])
         | None \<Rightarrow> get_str_loop flags orig cs (out @ [orig ! length out]))"
      unfolding get_str_loop.simps(2) [of flags orig ch cs] by (simp del: get_str_loop.simps)
    then show ?thesis
      by (cases "match_entity cs") (auto intro!: step_exI)
  next
    case 4
    then have "get_str_loop flags orig (ch # cs) out = get_str_loop flags orig cs (out @ [ch])"
      unfolding get_str_loop.simps(2) [of flags orig ch cs] by (simp only: if_False)
    then show ?thesis by (rule step_exI) auto
  qed
qed

lemma get_str_loop_bound:
  "length out + length p \<le> length orig \<Longrightarrow> length (get_str_loop flags orig p out) \<le> length orig"
proof (induction p arbitrary: out rule: length_induct)
  case (1 p)
  show ?case
  proof (cases p)
    case Nil
    then show ?thesis using 1 by simp
  next
    case (Cons ch cs)
    obtain p' out' where "get_str_loop flags orig (ch # cs) out = get_str_loop flags orig p' out'"
      "length p' \<le> length cs" "length out' + length p' \<le> length out + Suc (length cs)"
      using get_str_loop_step by blast
    then show ?thesis using 1 Cons by auto
  qed
qed

lemma length_collapse_loop: "length (collapse_loop s) \<le> length s"
proof (induction s rule: collapse_loop.induct)
  case (2 ch cs)
  then show ?case using length_SkipWhiteSpace [of cs]
    by (cases "IsWhiteSpace ch"; cases "SkipWhiteSpace cs") auto
qed simp

lemma length_c_str: "length (c_str s) \<le> length s"
  by (simp add: c_str_def length_takeWhile_le)

text \<open>
  (C30) The normalisation of a string range happens in place: whatever entities and character references it
  contains, the result is never longer than the range, so no write leaves it.
\<close>

theorem GetStr_in_place: "length (GetStr flags s) \<le> length s"
proof -
  have "length (c_str (get_str_loop flags s s [])) \<le> length s"
    using get_str_loop_bound [of "[]" s s flags] length_c_str le_trans by fastforce
  moreover have "length (CollapseWhitespace t) \<le> length t" for t
    unfolding CollapseWhitespace_def using length_collapse_loop length_SkipWhiteSpace by (rule le_trans)
  ultimately show ?thesis by (auto simp: GetStr_def Let_def intro: le_trans)
qed

section \<open>Attributes and copies\<close>

text \<open>Attributes behave as a map: a lookup finds what was last set, and setting one keeps the others.\<close>

lemma Attribute_simps [simp]:
  "Attribute name None [] = None"
  "Attribute name None (a # as) = (if StringEqual (fst a) name then Some (snd a) else Attribute name None as)"
  by (simp_all add: Attribute_def)

lemma StringEqual_refl [simp]: "StringEqual s s"
  by (simp add: StringEqual_def StringEqualN_def)

lemma StringEqual_sym: "StringEqual s t = StringEqual t s"
  by (auto simp: StringEqual_def StringEqualN_def)

lemma StringEqual_trans: "StringEqual s t \<Longrightarrow> StringEqual t u = StringEqual s u"
  by (auto simp: StringEqual_def StringEqualN_def)

lemma c_str_id: "CHR 0x00 \<notin> set s \<Longrightarrow> c_str s = s"
  by (induction s) (auto simp: c_str_def)

lemma Attribute_set:
  assumes "CHR 0x00 \<notin> set name"
  shows "Attribute name' None (FindOrCreateAttribute name f as) =
     (if StringEqual name name' then Some (f (case Attribute name None as of None \<Rightarrow> [] | Some v \<Rightarrow> v))
      else Attribute name' None as)"
  using assms by (induction as) (auto simp: c_str_id StringEqual_sym dest: StringEqual_trans)

definition clonable_attrs :: "(string \<times> string) list \<Rightarrow> bool" where
  "clonable_attrs as \<longleftrightarrow> list_all (\<lambda>a. CHR 0x00 \<notin> set (fst a) \<and> CHR 0x00 \<notin> set (snd a)) as \<and>
     distinct (map (\<lambda>a. take INT_MAX (fst a)) as)"

fun clonable :: "XMLNode \<Rightarrow> bool" where
  "clonable (XMLElement s as ks) \<longleftrightarrow> CHR 0x00 \<notin> set s \<and> clonable_attrs as \<and> list_all clonable ks"
| "clonable n \<longleftrightarrow> CHR 0x00 \<notin> set (Value n)"

lemma FindOrCreateAttribute_new:
  "take INT_MAX name \<notin> (\<lambda>a. take INT_MAX (fst a)) ` set as \<Longrightarrow>
   FindOrCreateAttribute name f as = as @ [(c_str name, f [])]"
  by (induction as) (auto simp: StringEqual_def StringEqualN_def)

lemma fold_SetAttribute:
  assumes "clonable_attrs (bs @ as)"
  shows "fold (\<lambda>(name, v). SetAttribute name v) as (XMLElement s bs ks) = XMLElement s (bs @ as) ks"
  using assms
proof (induction as arbitrary: bs)
  case (Cons a as)
  obtain n v where a: "a = (n, v)" by fastforce
  have "SetAttribute n v (XMLElement s bs ks) = XMLElement s (bs @ [a]) ks"
    using Cons.prems a by (subst SetAttribute_def) (auto simp: FindOrCreateAttribute_new clonable_attrs_def c_str_id)
  then show ?case using Cons a by simp
qed simp

lemma ShallowClone_element:
  assumes "clonable (XMLElement s as ks)" shows "ShallowClone (XMLElement s as ks) = XMLElement s as []"
  using assms fold_SetAttribute [of "[]" as s "[]"] by (simp add: shallow_clone_defs NewElement_def c_str_id)

lemma foldl_InsertEndChild: "foldl (\<lambda>ks child. InsertEndChild (f child) ks) acc ks = acc @ map f ks"
  by (induction ks arbitrary: acc) (simp_all add: InsertEndChild_def)

text \<open>
  A deep clone of a tree without duplicate attributes is the same tree.
\<close>

lemma DeepClone_id: "clonable n \<Longrightarrow> DeepClone n = n"
proof (induction n rule: DeepClone.induct)
  case (1 s a k)
  have "map DeepClone k = k" using 1 by (auto simp: list_all_iff intro!: map_idI)
  then show ?case
    using ShallowClone_element [OF "1.prems"] by (simp add: foldl_InsertEndChild on_kids_def)
qed (simp_all add: shallow_clone_defs NewText_def NewComment_def NewDeclaration_def NewUnknown_def Value_def c_str_id)

lemma DeepClone_id_example:
  "DeepClone (XMLElement ''a'' [(''n'', ''1'')] [XMLText ''t'' True]) = XMLElement ''a'' [(''n'', ''1'')] [XMLText ''t'' True]"
  by (rule DeepClone_id) (simp add: clonable_attrs_def Value_def INT_MAX_def)

text \<open>Elements that differ in the names of their attributes only compare equal.\<close>

lemma ShallowEqual_ignores_names:
  "ShallowEqual (XMLElement s (map (\<lambda>(n, v). (f n, v)) as) ks) (XMLElement s as ks')"
proof -
  have "equal_values (map (\<lambda>(n, v). (f n, v)) as) as" by (induction as) auto
  then show ?thesis by (simp add: ShallowEqual_def XMLElement_ShallowEqual_def ToElement_def Value_def)
qed

end
