(* ===== verification/Zstore_XmlParse.thy ===== *)
theory Zstore_XmlParse
  imports Zstore_Xml
begin

text \<open>
  The parser of the XML library (\<^verbatim>\<open>src/src/tinyxml2.cpp\<close>): \<open>Identify\<close>, the \<open>ParseDeep\<close> of every kind
  of node, the attributes of an element, and \<open>XMLDocument::Parse\<close> and \<open>LoadFile\<close>. A pointer into the
  buffer is the text that follows it; a null pointer is a failure, with the error that the callee has
  set in the document or none. The nesting of \<open>ParseDeep\<close> calls is bounded by fuel; one more than the
  length of the input is enough (\<open>parse_enough_fuel\<close>), so a parse always ends.
\<close>

section \<open>Documents\<close>

datatype Whitespace = PRESERVE_WHITESPACE | COLLAPSE_WHITESPACE | PEDANTIC_WHITESPACE

record XMLDocument =
  writeBOM :: bool
  processEntities :: bool
  errorID :: XMLError
  whitespaceMode :: Whitespace
  docKids :: "XMLNode list"

definition newXMLDocument :: "bool \<Rightarrow> Whitespace \<Rightarrow> XMLDocument" where
  "newXMLDocument ents mode = \<lparr>writeBOM = False, processEntities = ents, errorID = XML_SUCCESS,
                               whitespaceMode = mode, docKids = []\<rparr>"

definition XMLDocument_Clear :: "XMLDocument \<Rightarrow> XMLDocument" where
  "XMLDocument_Clear doc = doc\<lparr>docKids := [], errorID := XML_SUCCESS\<rparr>"

definition DeepCopy :: "XMLDocument \<Rightarrow> XMLDocument \<Rightarrow> XMLDocument" where
  "DeepCopy doc target =
     (XMLDocument_Clear target)\<lparr>docKids := foldl (\<lambda>ks child. InsertEndChild (DeepClone child) ks) [] (docKids doc)\<rparr>"

section \<open>Leaf nodes\<close>

datatype node_kind = DeclarationK | CommentK | CDataK | UnknownK | ElementK | TextK

definition Identify :: "XMLDocument \<Rightarrow> bool \<Rightarrow> string \<Rightarrow> node_kind option \<times> string" where
  "Identify doc first start =
     (let p = SkipWhiteSpace start in
      if p = [] then (None, p)
      else if StringEqualN p ''<?'' 2 then (Some DeclarationK, drop 2 p)
      else if StringEqualN p ''<!--'' 4 then (Some CommentK, drop 4 p)
      else if StringEqualN p ''<![CDATA['' 9 then (Some CDataK, drop 9 p)
      else if StringEqualN p ''<!'' 2 then (Some UnknownK, drop 2 p)
      else if StringEqualN p ''<'' 1 then
        (if whitespaceMode doc = PEDANTIC_WHITESPACE \<and> first \<and> p \<noteq> start \<and> take 1 (drop 1 p) = ''/''
         then (Some TextK, start)
         else (Some ElementK, drop 1 p))
      else (Some TextK, start))"

text \<open>A failed \<open>ParseDeep\<close> is \<open>Inl\<close> of the error it has set, if any.\<close>

definition XMLText_ParseDeep :: "XMLDocument \<Rightarrow> bool \<Rightarrow> string \<Rightarrow> XMLError option + (XMLNode \<times> string)" where
  "XMLText_ParseDeep doc cdata p =
     (if cdata then
        (case ParseText '']]>'' p of
           None \<Rightarrow> Inl (Some XML_ERROR_PARSING_CDATA)
         | Some (t, p) \<Rightarrow> Inr (XMLText (GetStr TEXT_ELEMENT_LEAVE_ENTITIES t) True, p))
      else
        let flags = (if processEntities doc then TEXT_ELEMENT else TEXT_ELEMENT_LEAVE_ENTITIES);
            flags = (if whitespaceMode doc = COLLAPSE_WHITESPACE
                     then flags\<lparr>NEEDS_WHITESPACE_COLLAPSING := True\<rparr> else flags)
        in case ParseText ''<'' p of
             None \<Rightarrow> Inl (Some XML_ERROR_PARSING_TEXT)
           | Some (t, p) \<Rightarrow> if p \<noteq> [] then Inr (XMLText (GetStr flags t) False, CHR ''<'' # p) else Inl None)"

definition XMLComment_ParseDeep :: "string \<Rightarrow> XMLError option + (XMLNode \<times> string)" where
  "XMLComment_ParseDeep p =
     (case ParseText ''-->'' p of
        None \<Rightarrow> Inl (Some XML_ERROR_PARSING_COMMENT)
      | Some (t, p) \<Rightarrow> Inr (XMLComment (GetStr COMMENT t), p))"

definition XMLDeclaration_ParseDeep :: "string \<Rightarrow> XMLError option + (XMLNode \<times> string)" where
  "XMLDeclaration_ParseDeep p =
     (case ParseText ''?>'' p of
        None \<Rightarrow> Inl (Some XML_ERROR_PARSING_DECLARATION)
      | Some (t, p) \<Rightarrow> Inr (XMLDeclaration (GetStr TEXT_ELEMENT_LEAVE_ENTITIES t), p))"

definition XMLUnknown_ParseDeep :: "string \<Rightarrow> XMLError option + (XMLNode \<times> string)" where
  "XMLUnknown_ParseDeep p =
     (case ParseText ''>'' p of
        None \<Rightarrow> Inl (Some XML_ERROR_PARSING_UNKNOWN)
      | Some (t, p) \<Rightarrow> Inr (XMLUnknown (GetStr TEXT_ELEMENT_LEAVE_ENTITIES t), p))"

definition leaf_ParseDeep :: "XMLDocument \<Rightarrow> node_kind \<Rightarrow> string \<Rightarrow> XMLError option + (XMLNode \<times> string)" where
  "leaf_ParseDeep doc kind p =
     (case kind of
        DeclarationK \<Rightarrow> XMLDeclaration_ParseDeep p
      | CommentK \<Rightarrow> XMLComment_ParseDeep p
      | CDataK \<Rightarrow> XMLText_ParseDeep doc True p
      | UnknownK \<Rightarrow> XMLUnknown_ParseDeep p
      | _ \<Rightarrow> XMLText_ParseDeep doc False p)"

section \<open>Elements\<close>

definition XMLAttribute_ParseDeep :: "XMLDocument \<Rightarrow> string \<Rightarrow> ((string \<times> string) \<times> string) option" where
  "XMLAttribute_ParseDeep doc p =
     (case ParseName p of
        None \<Rightarrow> None
      | Some (name, p) \<Rightarrow>
          if p = [] then None
          else let p = SkipWhiteSpace p in
            if take 1 p \<noteq> ''='' then None
            else (case SkipWhiteSpace (tl p) of
                [] \<Rightarrow> None
              | quote # p \<Rightarrow>
                  if quote \<noteq> CHR 0x22 \<and> quote \<noteq> CHR 0x27 then None
                  else (case ParseText [quote] p of
                      None \<Rightarrow> None
                    | Some (v, p) \<Rightarrow>
                        Some ((name, GetStr (if processEntities doc then ATTRIBUTE_VALUE
                                             else ATTRIBUTE_VALUE_LEAVE_ENTITIES) v), p))))"

lemma length_ParseText: "ParseText tag p = Some (t, r) \<Longrightarrow> tag \<noteq> [] \<Longrightarrow> length r < length p"
proof (induction p arbitrary: t)
  case Nil
  then show ?case by simp
next
  case (Cons ch cs)
  then show ?case by (cases tag) (fastforce split: if_splits option.splits)+
qed

lemma length_ParseName: "ParseName p = Some (name, r) \<Longrightarrow> length r < length p"
  by (auto simp: ParseName_def length_dropWhile_le less_Suc_eq_le split: list.splits if_splits)

lemma length_XMLAttribute_ParseDeep:
  assumes "XMLAttribute_ParseDeep doc p = Some (a, r)"
  shows "length r < length p"
proof -
  obtain name p1 where 1: "ParseName p = Some (name, p1)"
    using assms by (auto simp: XMLAttribute_ParseDeep_def split: option.splits)
  obtain quote p2 where 2: "SkipWhiteSpace (tl (SkipWhiteSpace p1)) = quote # p2"
    using assms 1 by (auto simp: XMLAttribute_ParseDeep_def Let_def split: if_splits list.splits)
  obtain v where 3: "ParseText [quote] p2 = Some (v, r)"
    using assms 1 2 by (auto simp: XMLAttribute_ParseDeep_def Let_def split: if_splits list.splits option.splits)
  have "length (quote # p2) \<le> length p1"
    using length_SkipWhiteSpace [of "tl (SkipWhiteSpace p1)"] length_SkipWhiteSpace [of p1]
    unfolding 2 by simp
  then show ?thesis using length_ParseName [OF 1] length_ParseText [OF 3] by simp
qed

text \<open>The result of \<open>ParseAttributes\<close>: the attributes, whether the tag was sealed by \<^verbatim>\<open>/>\<close>, and the rest.\<close>

function ParseAttributes ::
  "XMLDocument \<Rightarrow> (string \<times> string) list \<Rightarrow> string \<Rightarrow> XMLError + ((string \<times> string) list \<times> bool \<times> string)" where
  "ParseAttributes doc as p =
     (case SkipWhiteSpace p of
        [] \<Rightarrow> Inl XML_ERROR_PARSING_ELEMENT
      | ch # cs \<Rightarrow>
          if IsNameStartChar ch then
            (case XMLAttribute_ParseDeep doc (ch # cs) of
               None \<Rightarrow> Inl XML_ERROR_PARSING_ATTRIBUTE
             | Some (a, p) \<Rightarrow>
                 if Attribute (fst a) None as \<noteq> None then Inl XML_ERROR_PARSING_ATTRIBUTE
                 else ParseAttributes doc (as @ [a]) p)
          else if ch = CHR ''>'' then Inr (as, False, cs)
          else if ch = CHR ''/'' \<and> take 1 cs = ''>'' then Inr (as, True, tl cs)
          else Inl XML_ERROR_PARSING_ELEMENT)"
  by pat_completeness auto
termination
proof (relation "measure (\<lambda>(doc, as, p). length p)", goal_cases)
  case 1
  then show ?case by simp
next
  case (2 doc as p ch cs x a q)
  then show ?case
    using length_XMLAttribute_ParseDeep [of doc "ch # cs" a q] length_SkipWhiteSpace [of p] by simp
qed

declare ParseAttributes.simps [simp del]

datatype ClosingType = OPEN | CLOSED | CLOSING

text \<open>
  \<open>XMLNode::ParseDeep\<close> yields the children it has inserted, the error it has set, and, when it read a
  closing tag, the name of that tag with the rest of the input; it returns null otherwise.
  \<open>XMLElement::ParseDeep\<close> yields the name, the attributes, the closing type, the children, the end tag
  that its loop has returned (empty if none) and the rest.
\<close>

type_synonym loop_result = "XMLNode list \<times> XMLError option \<times> (string \<times> string) option"
type_synonym element_result =
  "XMLError option + (string \<times> (string \<times> string) list \<times> ClosingType \<times> XMLNode list \<times> string \<times> string)"

definition or_parsing :: "XMLError option \<Rightarrow> XMLError" where
  "or_parsing e = (case e of None \<Rightarrow> XML_ERROR_PARSING | Some err \<Rightarrow> err)"

definition wellLocated :: "bool \<Rightarrow> XMLNode list \<Rightarrow> bool" where
  "wellLocated is_document children \<longleftrightarrow>
     is_document \<and> (children = [] \<or> (ToDeclaration (hd children) \<and> ToDeclaration (last children)))"

definition mismatch :: "ClosingType \<Rightarrow> string \<Rightarrow> string \<Rightarrow> bool" where
  "mismatch closing endTag name \<longleftrightarrow>
     (if endTag = [] then closing = OPEN else closing \<noteq> OPEN \<or> \<not> StringEqual endTag name)"

definition TINYXML2_MAX_ELEMENT_DEPTH :: nat where "TINYXML2_MAX_ELEMENT_DEPTH = 500"

definition element_head ::
  "XMLDocument \<Rightarrow> string \<Rightarrow> XMLError option + (string \<times> (string \<times> string) list \<times> ClosingType \<times> string)" where
  "element_head doc p =
     (let p = SkipWhiteSpace p;
          slash = (take 1 p = ''/'');
          p = (if slash then tl p else p)
      in case ParseName p of
           None \<Rightarrow> Inl None
         | Some (name, p) \<Rightarrow>
             (case ParseAttributes doc [] p of
                Inl e \<Rightarrow> Inl (Some e)
              | Inr (as, sealed, p) \<Rightarrow>
                  Inr (name, as, (if sealed then CLOSED else if slash then CLOSING else OPEN), p)))"

fun parse_loop :: "nat \<Rightarrow> XMLDocument \<Rightarrow> nat \<Rightarrow> bool \<Rightarrow> bool \<Rightarrow> XMLNode list \<Rightarrow> string \<Rightarrow> loop_result option"
and XMLElement_ParseDeep :: "nat \<Rightarrow> XMLDocument \<Rightarrow> nat \<Rightarrow> string \<Rightarrow> element_result option" where
  "parse_loop 0 doc depth is_document first children p = None"
| "parse_loop (Suc fuel) doc depth is_document first children p =
     (if p = [] then Some (children, None, None)
      else case Identify doc first p of
        (None, p) \<Rightarrow> Some (children, None, None)
      | (Some kind, p) \<Rightarrow>
          if kind = ElementK then
            (case XMLElement_ParseDeep fuel doc depth p of
               None \<Rightarrow> None
             | Some (Inl e) \<Rightarrow> Some (children, Some (or_parsing e), None)
             | Some (Inr (name, as, closing, ks, endTag, p)) \<Rightarrow>
                 if closing = CLOSING then Some (children, None, Some (name, p))
                 else if mismatch closing endTag name then Some (children, Some XML_ERROR_MISMATCHED_ELEMENT, None)
                 else parse_loop fuel doc depth is_document False (InsertEndChild (XMLElement name as ks) children) p)
          else
            (case leaf_ParseDeep doc kind p of
               Inl e \<Rightarrow> Some (children, Some (or_parsing e), None)
             | Inr (node, p) \<Rightarrow>
                 if ToDeclaration node \<and> \<not> wellLocated is_document children
                 then Some (children, Some XML_ERROR_PARSING_DECLARATION, None)
                 else parse_loop fuel doc depth is_document False (InsertEndChild node children) p))"
| "XMLElement_ParseDeep 0 doc depth p = None"
| "XMLElement_ParseDeep (Suc fuel) doc depth p =
     (case element_head doc p of
        Inl e \<Rightarrow> Some (Inl e)
      | Inr (name, as, closing, p) \<Rightarrow>
          if p = [] \<or> closing \<noteq> OPEN then Some (Inr (name, as, closing, [], [], p))
          else if Suc depth = TINYXML2_MAX_ELEMENT_DEPTH then Some (Inl (Some XML_ELEMENT_DEPTH_EXCEEDED))
          else (case parse_loop fuel doc (Suc depth) False True [] p of
              None \<Rightarrow> None
            | Some (ks, err, None) \<Rightarrow> Some (Inl err)
            | Some (ks, err, Some (endTag, p)) \<Rightarrow> Some (Inr (name, as, closing, ks, endTag, p))))"

section \<open>Parsing a document\<close>

definition parse_buffer :: "XMLDocument \<Rightarrow> string \<Rightarrow> XMLDocument res" where
  "parse_buffer doc charBuffer =
     (let (p, bom) = ReadBOM (SkipWhiteSpace (c_str charBuffer)); doc = doc\<lparr>writeBOM := bom\<rparr> in
      if p = [] then Inr (doc\<lparr>errorID := XML_ERROR_EMPTY_DOCUMENT\<rparr>)
      else case parse_loop (Suc (length p)) doc 1 True True [] p of
        None \<Rightarrow> Inl Unfinished
      | Some (children, err, _) \<Rightarrow>
          Inr (doc\<lparr>docKids := children, errorID := (case err of None \<Rightarrow> errorID doc | Some e \<Rightarrow> e)\<rparr>))"

text \<open>\<open>xml\<close> is the object that the caller's pointer refers to, or a null pointer.\<close>

definition Parse :: "XMLDocument \<Rightarrow> string option \<Rightarrow> u64 \<Rightarrow> XMLDocument res" where
  "Parse doc xml nBytes =
     (let doc = XMLDocument_Clear doc in
      case xml of
        None \<Rightarrow> Inr (doc\<lparr>errorID := XML_ERROR_EMPTY_DOCUMENT\<rparr>)
      | Some s \<Rightarrow>
          if nBytes = 0 \<or> c_str s = [] then Inr (doc\<lparr>errorID := XML_ERROR_EMPTY_DOCUMENT\<rparr>)
          else
            bindR (if nBytes = -1 then Inr (c_str s)
                   else if unat nBytes \<le> length s then Inr (take (unat nBytes) s) else Inl OutOfBounds) (\<lambda>buf.
            bindR (parse_buffer doc buf) (\<lambda>doc.
              Inr (if errorID doc \<noteq> XML_SUCCESS then doc\<lparr>docKids := []\<rparr> else doc))))"

section \<open>Fuel\<close>

lemma SkipWhiteSpace_suffix: "\<exists>w. cs = w @ SkipWhiteSpace cs"
proof (induction cs)
  case (Cons ch cs)
  then show ?case by (metis SkipWhiteSpace.simps(2) append_Cons append_Nil)
qed simp

lemma SkipWhiteSpace_hd: "SkipWhiteSpace cs = ch # r \<Longrightarrow> \<not> IsWhiteSpace ch"
  by (induction cs) (auto split: if_splits)

lemma length_Identify_le: "Identify doc first p = (Some kind, r) \<Longrightarrow> length r \<le> length p"
  using length_SkipWhiteSpace [of p] by (auto simp: Identify_def Let_def split: if_splits)

lemma length_Identify_markup:
  "Identify doc first p = (Some kind, r) \<Longrightarrow> kind \<noteq> TextK \<Longrightarrow> length r < length p"
  using length_SkipWhiteSpace [of p]
  by (cases "SkipWhiteSpace p") (auto simp: Identify_def Let_def split: if_splits)

text \<open>A text that \<open>Identify\<close> has found does not start with \<^verbatim>\<open><\<close>.\<close>

lemma Identify_text:
  assumes "Identify doc first p = (Some TextK, r)" shows "r = p \<and> p \<noteq> [] \<and> hd p \<noteq> CHR ''<''"
proof -
  have r: "r = p" "p \<noteq> []"
    using assms by (auto simp: Identify_def Let_def split: if_splits)
  moreover have "hd p \<noteq> CHR ''<''"
  proof
    assume h: "hd p = CHR ''<''"
    then obtain cs where p: "p = CHR ''<'' # cs" using r by (cases p) auto
    then have "SkipWhiteSpace p = p"
      by (simp add: IsWhiteSpace_def isspace_def IsUTF8Continuation_def)
    with p assms show False by (auto simp: Identify_def Let_def StringEqualN_def split: if_splits)
  qed
  ultimately show ?thesis by simp
qed

lemma ParseText_lt_decreases:
  assumes "ParseText ''<'' p = Some (t, r)" "p \<noteq> []" "hd p \<noteq> CHR ''<''"
  shows "length r + 1 < length p"
proof -
  obtain ch cs where p: "p = ch # cs" "ch \<noteq> CHR ''<''" using assms(2,3) by (cases p) auto
  then obtain t' where "ParseText ''<'' cs = Some (t', r)"
    using assms(1) by (auto simp: StringEqualN_def split: option.splits if_splits)
  from length_ParseText [OF this] show ?thesis using p by simp
qed

lemma leaf_ParseDeep_decreases:
  assumes "Identify doc first p = (Some kind, r)" and "kind \<noteq> ElementK" and "leaf_ParseDeep doc kind r = Inr (node, r')"
  shows "length r' < length p"
proof (cases "kind = TextK")
  case True
  then have r: "r = p" "p \<noteq> []" "hd p \<noteq> CHR ''<''" using Identify_text assms(1) by blast+
  then obtain t q where q: "ParseText ''<'' p = Some (t, q)" "r' = CHR ''<'' # q"
    using assms(3) True by (auto simp: leaf_ParseDeep_def XMLText_ParseDeep_def Let_def split: option.splits if_splits)
  from ParseText_lt_decreases [OF q(1) r(2,3)] q(2) show ?thesis by simp
next
  case False
  then have "length r < length p" using length_Identify_markup assms(1) by blast
  moreover have "length r' < length r"
    using assms(2,3) False
    by (cases kind) (auto simp: leaf_ParseDeep_def XMLText_ParseDeep_def XMLComment_ParseDeep_def
        XMLDeclaration_ParseDeep_def XMLUnknown_ParseDeep_def split: option.splits dest!: length_ParseText)
  ultimately show ?thesis by simp
qed

lemma length_ParseAttributes: "ParseAttributes doc as p = Inr (as', sealed, r) \<Longrightarrow> length r < length p"
proof (induction doc as p rule: ParseAttributes.induct)
  case (1 doc as p)
  obtain ch cs where p: "SkipWhiteSpace p = ch # cs"
    using "1.prems" by (subst (asm) ParseAttributes.simps) (auto split: list.splits)
  then have len: "length (ch # cs) \<le> length p" using length_SkipWhiteSpace [of p] by simp
  show ?case
  proof (cases "IsNameStartChar ch")
    case True
    then obtain a q where a: "XMLAttribute_ParseDeep doc (ch # cs) = Some (a, q)" "Attribute (fst a) None as = None"
        "ParseAttributes doc (as @ [a]) q = Inr (as', sealed, r)"
      using "1.prems" p by (subst (asm) ParseAttributes.simps) (auto split: option.splits if_splits)
    then have "length r < length q" using "1.IH" [OF p True a(1)] by simp
    then show ?thesis using length_XMLAttribute_ParseDeep [OF a(1)] len by simp
  next
    case False
    then show ?thesis using "1.prems" p len
      by (subst (asm) ParseAttributes.simps) (auto split: if_splits)
  qed
qed

lemma length_element_head:
  assumes "element_head doc p = Inr (name, as, closing, r)" shows "Suc (length r) < length p"
proof -
  obtain q q' sealed where q: "length q \<le> length p" "ParseName q = Some (name, q')" "ParseAttributes doc [] q' = Inr (as, sealed, r)"
  proof -
    define q where "q = (if take 1 (SkipWhiteSpace p) = ''/'' then tl (SkipWhiteSpace p) else SkipWhiteSpace p)"
    have "length q \<le> length p" using length_SkipWhiteSpace [of p] by (auto simp: q_def)
    moreover have "\<exists>q' sealed. ParseName q = Some (name, q') \<and> ParseAttributes doc [] q' = Inr (as, sealed, r)"
      using assms by (auto simp: element_head_def Let_def q_def split: option.splits sum.splits if_splits)
    ultimately show ?thesis using that by blast
  qed
  from length_ParseName [OF q(2)] length_ParseAttributes [OF q(3)] q(1) show ?thesis by simp
qed

text \<open>With more fuel than characters both functions end, and what they leave is shorter.\<close>

definition loop_ends :: "nat \<Rightarrow> bool" where
  "loop_ends fuel \<longleftrightarrow> (\<forall>doc depth is_document first children p. length p < fuel \<longrightarrow>
     (\<exists>ks err ret. parse_loop fuel doc depth is_document first children p = Some (ks, err, ret) \<and>
        (\<forall>t r. ret = Some (t, r) \<longrightarrow> length r < length p)))"

definition element_ends :: "nat \<Rightarrow> bool" where
  "element_ends fuel \<longleftrightarrow> (\<forall>doc depth p. length p < fuel \<longrightarrow>
     (\<exists>out. XMLElement_ParseDeep fuel doc depth p = Some out \<and>
        (\<forall>name as closing ks t r. out = Inr (name, as, closing, ks, t, r) \<longrightarrow> length r < length p)))"

lemma loop_endsE:
  assumes "loop_ends fuel" and "length p < fuel"
  obtains ks err ret where "parse_loop fuel doc depth is_document first children p = Some (ks, err, ret)"
    and "\<And>t r. ret = Some (t, r) \<Longrightarrow> length r < length p"
  using assms unfolding loop_ends_def by blast

lemma element_endsE:
  assumes "element_ends fuel" and "length p < fuel"
  obtains out where "XMLElement_ParseDeep fuel doc depth p = Some out"
    and "\<And>name as closing ks t r. out = Inr (name, as, closing, ks, t, r) \<Longrightarrow> length r < length p"
  using assms unfolding element_ends_def by blast

lemma element_ends_Suc:
  assumes IH: "loop_ends fuel" shows "element_ends (Suc fuel)"
  unfolding element_ends_def
proof (intro allI impI)
  fix doc depth and p :: string
  assume len: "length p < Suc fuel"
  show "\<exists>out. XMLElement_ParseDeep (Suc fuel) doc depth p = Some out \<and>
        (\<forall>name as closing ks t r. out = Inr (name, as, closing, ks, t, r) \<longrightarrow> length r < length p)"
  proof (cases "element_head doc p")
    case (Inl e)
    then show ?thesis by simp
  next
    case (Inr h)
    obtain name as closing q where h: "h = (name, as, closing, q)" by (cases h) auto
    have lq: "Suc (length q) < length p" using length_element_head Inr h by blast
    then have "length q < fuel" using len by simp
    then obtain ks err ret where "parse_loop fuel doc (Suc depth) False True [] q = Some (ks, err, ret)"
      and "\<And>t r. ret = Some (t, r) \<Longrightarrow> length r < length q"
      using loop_endsE [OF IH, of q doc "Suc depth" False True "[]"] by metis
    then show ?thesis using Inr h lq by (cases ret) fastforce+
  qed
qed

lemma loop_ends_element:
  assumes IH: "loop_ends fuel" "element_ends fuel" and len: "length p < Suc fuel" and "p \<noteq> []"
    and i: "Identify doc first p = (Some ElementK, q)"
  shows "\<exists>ks err ret. parse_loop (Suc fuel) doc depth is_document first children p = Some (ks, err, ret) \<and>
        (\<forall>t r. ret = Some (t, r) \<longrightarrow> length r < length p)"
proof -
  have lq: "length q < length p" using length_Identify_markup i by blast
  then have "length q < fuel" using len by simp
  then obtain out where out: "XMLElement_ParseDeep fuel doc depth q = Some out"
    "\<And>name as closing ks t r. out = Inr (name, as, closing, ks, t, r) \<Longrightarrow> length r < length q"
    using element_endsE [OF IH(2), of q doc depth] by metis
  show ?thesis
  proof (cases out)
    case (Inl e)
    then show ?thesis using i out(1) \<open>p \<noteq> []\<close> by simp
  next
    case (Inr o')
    obtain name as closing ks t r where o': "o' = (name, as, closing, ks, t, r)" by (cases o') auto
    have lr: "length r < length p" using out(2) Inr o' lq by fastforce
    then have "length r < fuel" using len by simp
    then obtain ks' err ret where
      "parse_loop fuel doc depth is_document False (InsertEndChild (XMLElement name as ks) children) r = Some (ks', err, ret)"
      "\<And>t r'. ret = Some (t, r') \<Longrightarrow> length r' < length r"
      using loop_endsE [OF IH(1), of r doc depth is_document False "InsertEndChild (XMLElement name as ks) children"] by metis
    then show ?thesis using i \<open>p \<noteq> []\<close> out(1) Inr o' lr by fastforce
  qed
qed

lemma loop_ends_leaf:
  assumes IH: "loop_ends fuel" and len: "length p < Suc fuel" and "p \<noteq> []"
    and i: "Identify doc first p = (Some kind, q)" "kind \<noteq> ElementK"
  shows "\<exists>ks err ret. parse_loop (Suc fuel) doc depth is_document first children p = Some (ks, err, ret) \<and>
        (\<forall>t r. ret = Some (t, r) \<longrightarrow> length r < length p)"
proof (cases "leaf_ParseDeep doc kind q")
  case (Inl e)
  then show ?thesis using i \<open>p \<noteq> []\<close> by simp
next
  case (Inr b)
  obtain node r where b: "b = (node, r)" by fastforce
  have lr: "length r < length p" using leaf_ParseDeep_decreases i Inr b by blast
  then have "length r < fuel" using len by simp
  then obtain ks' err ret where
    "parse_loop fuel doc depth is_document False (InsertEndChild node children) r = Some (ks', err, ret)"
    "\<And>t r'. ret = Some (t, r') \<Longrightarrow> length r' < length r"
    using loop_endsE [OF IH, of r doc depth is_document False "InsertEndChild node children"] by metis
  then show ?thesis using i \<open>p \<noteq> []\<close> Inr b lr by fastforce
qed

lemma loop_ends_Suc:
  assumes IH: "loop_ends fuel" "element_ends fuel" shows "loop_ends (Suc fuel)"
  unfolding loop_ends_def
proof (intro allI impI)
  fix doc depth is_document first children and p :: string
  assume len: "length p < Suc fuel"
  obtain ko q where i: "Identify doc first p = (ko, q)" by fastforce
  show "\<exists>ks err ret. parse_loop (Suc fuel) doc depth is_document first children p = Some (ks, err, ret) \<and>
        (\<forall>t r. ret = Some (t, r) \<longrightarrow> length r < length p)"
  proof (cases "p = [] \<or> ko = None")
    case True
    then show ?thesis using i by auto
  next
    case False
    then obtain kind where "p \<noteq> []" "ko = Some kind" by auto
    then show ?thesis
      using loop_ends_element [OF IH len] loop_ends_leaf [OF IH(1) len] i by (cases "kind = ElementK") blast+
  qed
qed

lemma parse_ends: "loop_ends fuel \<and> element_ends fuel"
proof (induction fuel)
  case 0
  then show ?case by (simp add: loop_ends_def element_ends_def)
next
  case (Suc fuel)
  then show ?case using loop_ends_Suc element_ends_Suc by blast
qed

text \<open>More fuel does not change a result.\<close>

lemma loop_element:
  assumes "Identify doc first p = (Some ElementK, q)" "p \<noteq> []"
    "XMLElement_ParseDeep fuel doc depth q = Some (Inr (name, as, closing, ks, endTag, r))"
  shows "parse_loop (Suc fuel) doc depth is_document first children p =
     (if closing = CLOSING then Some (children, None, Some (name, r))
      else if mismatch closing endTag name then Some (children, Some XML_ERROR_MISMATCHED_ELEMENT, None)
      else parse_loop fuel doc depth is_document False (InsertEndChild (XMLElement name as ks) children) r)"
  using assms by simp

lemma loop_element_fails:
  assumes "Identify doc first p = (Some ElementK, q)" "p \<noteq> []" "XMLElement_ParseDeep fuel doc depth q = Some (Inl e)"
  shows "parse_loop (Suc fuel) doc depth is_document first children p = Some (children, Some (or_parsing e), None)"
  using assms by simp

lemma loop_leaf:
  assumes "Identify doc first p = (Some kind, q)" "p \<noteq> []" "kind \<noteq> ElementK" "leaf_ParseDeep doc kind q = Inr (node, r)"
  shows "parse_loop (Suc fuel) doc depth is_document first children p =
     (if ToDeclaration node \<and> \<not> wellLocated is_document children
      then Some (children, Some XML_ERROR_PARSING_DECLARATION, None)
      else parse_loop fuel doc depth is_document False (InsertEndChild node children) r)"
  using assms by simp

lemma loop_leaf_fails:
  assumes "Identify doc first p = (Some kind, q)" "p \<noteq> []" "kind \<noteq> ElementK" "leaf_ParseDeep doc kind q = Inl e"
  shows "parse_loop (Suc fuel) doc depth is_document first children p = Some (children, Some (or_parsing e), None)"
  using assms by simp

lemma loop_stops:
  assumes "p = [] \<or> Identify doc first p = (None, q)"
  shows "parse_loop (Suc fuel) doc depth is_document first children p = Some (children, None, None)"
  using assms by auto

declare parse_loop.simps [simp del] XMLElement_ParseDeep.simps [simp del]

lemma loop_fuel_Suc:
  assumes IH: "\<And>doc depth is_document first children p r. parse_loop fuel doc depth is_document first children p = Some r \<Longrightarrow>
       parse_loop (Suc fuel) doc depth is_document first children p = Some r"
    and IH': "\<And>doc depth p out. XMLElement_ParseDeep fuel doc depth p = Some out \<Longrightarrow> XMLElement_ParseDeep (Suc fuel) doc depth p = Some out"
    and run: "parse_loop (Suc fuel) doc depth is_document first children p = Some r"
  shows "parse_loop (Suc (Suc fuel)) doc depth is_document first children p = Some r"
proof -
  obtain ko q where i: "Identify doc first p = (ko, q)" by fastforce
  consider (stop) "p = [] \<or> ko = None" | (leaf) kind where "p \<noteq> []" "ko = Some kind" "kind \<noteq> ElementK"
    | (element) "p \<noteq> []" "ko = Some ElementK" by (cases ko) auto
  then show ?thesis
  proof cases
    case stop
    then show ?thesis using run i loop_stops by metis
  next
    case leaf
    show ?thesis
    proof (cases "leaf_ParseDeep doc kind q")
      case (Inl e)
      then show ?thesis using run i leaf loop_leaf_fails by metis
    next
      case (Inr b)
      then obtain node r' where "leaf_ParseDeep doc kind q = Inr (node, r')" by (cases b) auto
      then show ?thesis using run i leaf IH by (auto simp: loop_leaf [of doc first p kind q node r'] split: if_splits)
    qed
  next
    case element
    obtain out where out: "XMLElement_ParseDeep fuel doc depth q = Some out"
      using run i element by (auto simp: parse_loop.simps(2) [of fuel] split: option.splits)
    show ?thesis
    proof (cases out)
      case (Inl e)
      then show ?thesis using run i element out IH' loop_element_fails by metis
    next
      case (Inr o')
      then obtain name as closing ks t r' where o': "out = Inr (name, as, closing, ks, t, r')" by (cases o') auto
      note step = loop_element [OF i [unfolded element(2)] element(1)]
      show ?thesis using run IH
        by (auto simp: step [OF out [unfolded o']] step [OF IH' [OF out [unfolded o']]] split: if_splits)
    qed
  qed
qed

lemma element_fuel_Suc:
  assumes IH: "\<And>doc depth is_document first children p r. parse_loop fuel doc depth is_document first children p = Some r \<Longrightarrow>
       parse_loop (Suc fuel) doc depth is_document first children p = Some r"
    and run: "XMLElement_ParseDeep (Suc fuel) doc depth p = Some out"
  shows "XMLElement_ParseDeep (Suc (Suc fuel)) doc depth p = Some out"
proof (cases "\<exists>name as q. element_head doc p = Inr (name, as, OPEN, q) \<and> q \<noteq> [] \<and> Suc depth \<noteq> TINYXML2_MAX_ELEMENT_DEPTH")
  case True
  then obtain name as q where q: "element_head doc p = Inr (name, as, OPEN, q)" "q \<noteq> []" "Suc depth \<noteq> TINYXML2_MAX_ELEMENT_DEPTH" by blast
  then obtain r where "parse_loop fuel doc (Suc depth) False True [] q = Some r"
    using run by (auto simp: XMLElement_ParseDeep.simps(2) [of fuel] split: option.splits)
  then show ?thesis using run q IH by (simp add: XMLElement_ParseDeep.simps(2))
next
  case False
  then show ?thesis using run
    by (auto simp: XMLElement_ParseDeep.simps(2) split: sum.splits prod.splits if_splits)
qed

lemma parse_fuel_Suc:
  "(\<forall>doc depth is_document first children p r. parse_loop fuel doc depth is_document first children p = Some r \<longrightarrow>
       parse_loop (Suc fuel) doc depth is_document first children p = Some r) \<and>
   (\<forall>doc depth p out. XMLElement_ParseDeep fuel doc depth p = Some out \<longrightarrow>
       XMLElement_ParseDeep (Suc fuel) doc depth p = Some out)"
proof (induction fuel)
  case 0
  then show ?case by (simp add: parse_loop.simps XMLElement_ParseDeep.simps)
next
  case (Suc fuel)
  show ?case
    by (intro conjI allI impI; rule loop_fuel_Suc element_fuel_Suc) (use Suc.IH in blast)+
qed

lemma loop_fuel_mono:
  assumes "parse_loop fuel doc depth is_document first children p = Some r" and "fuel \<le> fuel'"
  shows "parse_loop fuel' doc depth is_document first children p = Some r"
  using assms(2,1) by (induction rule: dec_induct) (use parse_fuel_Suc in blast)+

lemma element_fuel_mono:
  assumes "XMLElement_ParseDeep fuel doc depth p = Some out" and "fuel \<le> fuel'"
  shows "XMLElement_ParseDeep fuel' doc depth p = Some out"
  using assms(2,1) by (induction rule: dec_induct) (use parse_fuel_Suc in blast)+

text \<open>The fuel of \<open>parse_buffer\<close> is enough, whatever the input.\<close>

lemma parse_enough_fuel:
  "\<exists>ks err ret. parse_loop (Suc (length p)) doc depth is_document first children p = Some (ks, err, ret)"
  using parse_ends [of "Suc (length p)"] loop_endsE [of "Suc (length p)" p] by (metis lessI)

lemma loop_unique_result:
  "parse_loop fuel doc depth is_document first children p = Some r \<Longrightarrow>
   parse_loop (Suc (length p)) doc depth is_document first children p = Some r"
  using parse_enough_fuel [of p doc depth is_document first children] loop_fuel_mono
  by (metis nle_le)

end
