(* ===== verification/Zstore_XmlPrint.thy ===== *)
theory Zstore_XmlPrint
  imports Zstore_XmlParse
begin

text \<open>
  The printer of the XML library (\<^verbatim>\<open>src/src/tinyxml2.cpp\<close>): the streaming interface of \<open>XMLPrinter\<close>
  (open, close, attribute, text, comment, declaration, unknown), its visitor methods and the \<open>Accept\<close>
  methods that drive it over a document. \<open>printBuffer\<close> is the printed text before its terminating NUL; the
  growth of the array behind it is in \<^verbatim>\<open>Zstore_XmlMem\<close>.
\<close>

record XMLPrinter =
  elementJustOpened :: bool
  openStack :: "string list"
  firstElement :: bool
  curDepth :: int
  textDepth :: int
  escapes :: bool
  compactMode :: bool
  printBuffer :: string

definition newXMLPrinter :: "bool \<Rightarrow> int \<Rightarrow> XMLPrinter" where
  "newXMLPrinter compact depth = \<lparr>elementJustOpened = False, openStack = [], firstElement = True, curDepth = depth,
     textDepth = -1, escapes = True, compactMode = compact, printBuffer = []\<rparr>"

definition Write :: "string \<Rightarrow> XMLPrinter \<Rightarrow> XMLPrinter" where
  "Write data pr = pr\<lparr>printBuffer := printBuffer pr @ data\<rparr>"

definition Putc :: "char \<Rightarrow> XMLPrinter \<Rightarrow> XMLPrinter" where
  "Putc ch pr = pr\<lparr>printBuffer := printBuffer pr @ [ch]\<rparr>"

definition CStr :: "XMLPrinter \<Rightarrow> string" where
  "CStr pr = c_str (printBuffer pr)"

definition ClearBuffer :: "bool \<Rightarrow> XMLPrinter \<Rightarrow> XMLPrinter" where
  "ClearBuffer resetToFirstElement pr = pr\<lparr>printBuffer := [], firstElement := resetToFirstElement\<rparr>"

definition PrintSpace :: "int \<Rightarrow> XMLPrinter \<Rightarrow> XMLPrinter" where
  "PrintSpace depth pr = ((\<lambda>pr. Write ''    '' pr) ^^ nat depth) pr"

text \<open>The entity flags: every entity of the table in an attribute, only three of them in a text.\<close>

definition ENTITY_RANGE :: nat where "ENTITY_RANGE = 64"

definition entity_flag :: "bool \<Rightarrow> char \<Rightarrow> bool" where
  "entity_flag restricted ch \<longleftrightarrow>
     0 < (of_char ch :: nat) \<and> (of_char ch :: nat) < ENTITY_RANGE \<and>
     (if restricted then ch \<in> set ''&<>'' else ch \<in> snd ` set entities)"

text \<open>
  The run of characters between two entities is flushed in pieces of at most \<^verbatim>\<open>INT_MAX\<close> bytes before
  an entity; after the last entity, one piece of at most \<^verbatim>\<open>INT_MAX\<close> bytes is written.
\<close>

fun print_string_loop :: "bool \<Rightarrow> string \<Rightarrow> string \<Rightarrow> XMLPrinter \<Rightarrow> XMLPrinter" where
  "print_string_loop restricted run [] pr = Write (take INT_MAX run) pr"
| "print_string_loop restricted run (q # qs) pr =
     (if entity_flag restricted q then
        let pr = Write run pr in
        print_string_loop restricted [] qs
          (case find (\<lambda>(pattern, v). v = q) entities of
             None \<Rightarrow> pr
           | Some (pattern, v) \<Rightarrow> Putc (CHR '';'') (Write pattern (Putc (CHR ''&'') pr)))
      else print_string_loop restricted (run @ [q]) qs pr)"

definition PrintString :: "string \<Rightarrow> bool \<Rightarrow> XMLPrinter \<Rightarrow> XMLPrinter" where
  "PrintString p restricted pr = (if escapes pr then print_string_loop restricted [] p pr else Write p pr)"

definition SealElementIfJustOpened :: "XMLPrinter \<Rightarrow> XMLPrinter" where
  "SealElementIfJustOpened pr =
     (if \<not> elementJustOpened pr then pr else Putc (CHR ''>'') (pr\<lparr>elementJustOpened := False\<rparr>))"

definition PrepareForNewNode :: "bool \<Rightarrow> XMLPrinter \<Rightarrow> XMLPrinter" where
  "PrepareForNewNode compact pr =
     (let pr = SealElementIfJustOpened pr in
      if compact then pr
      else let pr = (if firstElement pr then PrintSpace (curDepth pr) pr
                     else if textDepth pr < 0 then PrintSpace (curDepth pr) (Putc (CHR 0x0A) pr) else pr)
           in pr\<lparr>firstElement := False\<rparr>)"

definition OpenElement :: "string \<Rightarrow> bool \<Rightarrow> XMLPrinter \<Rightarrow> XMLPrinter" where
  "OpenElement name compact pr =
     (let pr = PrepareForNewNode compact pr;
          pr = pr\<lparr>openStack := name # openStack pr\<rparr>;
          pr = Write name (Write ''<'' pr)
      in pr\<lparr>elementJustOpened := True, curDepth := curDepth pr + 1\<rparr>)"

definition PushAttribute :: "string \<times> string \<Rightarrow> XMLPrinter \<Rightarrow> XMLPrinter" where
  "PushAttribute a pr =
     Putc (CHR 0x22) (PrintString (snd a) False (Write [CHR ''='', CHR 0x22] (Write (fst a) (Putc (CHR '' '') pr))))"

text \<open>\<open>CloseElement\<close> without an open element pops an empty array, which the release build does not check.\<close>

definition CloseElement :: "bool \<Rightarrow> XMLPrinter \<Rightarrow> XMLPrinter res" where
  "CloseElement compact pr =
     (let pr = pr\<lparr>curDepth := curDepth pr - 1\<rparr> in
      case openStack pr of
        [] \<Rightarrow> Inl OutOfBounds
      | name # st \<Rightarrow>
          let pr = pr\<lparr>openStack := st\<rparr>;
              pr = (if elementJustOpened pr then Write ''/>'' pr
                    else let pr = (if textDepth pr < 0 \<and> \<not> compact
                                   then PrintSpace (curDepth pr) (Putc (CHR 0x0A) pr) else pr)
                         in Write ''>'' (Write name (Write ''</'' pr)));
              pr = (if textDepth pr = curDepth pr then pr\<lparr>textDepth := -1\<rparr> else pr);
              pr = (if curDepth pr = 0 \<and> \<not> compact then Putc (CHR 0x0A) pr else pr)
          in Inr (pr\<lparr>elementJustOpened := False\<rparr>))"

definition PushText :: "string \<Rightarrow> bool \<Rightarrow> XMLPrinter \<Rightarrow> XMLPrinter" where
  "PushText str cdata pr =
     (let pr = SealElementIfJustOpened (pr\<lparr>textDepth := curDepth pr - 1\<rparr>) in
      if cdata then Write '']]>'' (Write str (Write ''<![CDATA['' pr)) else PrintString str True pr)"

definition PushComment :: "string \<Rightarrow> XMLPrinter \<Rightarrow> XMLPrinter" where
  "PushComment comment pr = Write ''-->'' (Write comment (Write ''<!--'' (PrepareForNewNode (compactMode pr) pr)))"

definition PushDeclaration :: "string \<Rightarrow> XMLPrinter \<Rightarrow> XMLPrinter" where
  "PushDeclaration v pr = Write ''?>'' (Write v (Write ''<?'' (PrepareForNewNode (compactMode pr) pr)))"

definition PushUnknown :: "string \<Rightarrow> XMLPrinter \<Rightarrow> XMLPrinter" where
  "PushUnknown v pr = Putc (CHR ''>'') (Write v (Write ''<!'' (PrepareForNewNode (compactMode pr) pr)))"

definition PushHeader :: "bool \<Rightarrow> bool \<Rightarrow> XMLPrinter \<Rightarrow> XMLPrinter" where
  "PushHeader bom dec pr =
     (let pr = (if bom then Write [CHR 0xEF, CHR 0xBB, CHR 0xBF] pr else pr)
      in if dec then PushDeclaration (''xml version='' @ [CHR 0x22] @ ''1.0'' @ [CHR 0x22]) pr else pr)"

section \<open>Visiting a document\<close>

text \<open>Every visitor method of the printer returns true, so the visit of a node goes through all of its
  children. \<open>CompactMode\<close> of an element is the mode of the printer.\<close>

definition VisitEnter_document :: "XMLDocument \<Rightarrow> XMLPrinter \<Rightarrow> XMLPrinter" where
  "VisitEnter_document doc pr =
     (let pr = pr\<lparr>escapes := processEntities doc\<rparr>
      in if writeBOM doc then PushHeader True False pr else pr)"

definition VisitEnter_element :: "string \<Rightarrow> (string \<times> string) list \<Rightarrow> XMLPrinter \<Rightarrow> XMLPrinter" where
  "VisitEnter_element name as pr = fold PushAttribute as (OpenElement name (compactMode pr) pr)"

definition VisitExit_element :: "XMLPrinter \<Rightarrow> XMLPrinter res" where
  "VisitExit_element pr = CloseElement (compactMode pr) pr"

fun Accept :: "XMLNode \<Rightarrow> XMLPrinter \<Rightarrow> XMLPrinter res"
and Accept_kids :: "XMLNode list \<Rightarrow> XMLPrinter \<Rightarrow> XMLPrinter res" where
  "Accept (XMLElement name as ks) pr = bindR (Accept_kids ks (VisitEnter_element name as pr)) VisitExit_element"
| "Accept (XMLText s cdata) pr = Inr (PushText s cdata pr)"
| "Accept (XMLComment s) pr = Inr (PushComment s pr)"
| "Accept (XMLDeclaration s) pr = Inr (PushDeclaration s pr)"
| "Accept (XMLUnknown s) pr = Inr (PushUnknown s pr)"
| "Accept_kids [] pr = Inr pr"
| "Accept_kids (n # ns) pr = bindR (Accept n pr) (Accept_kids ns)"

definition Print :: "XMLDocument \<Rightarrow> XMLPrinter \<Rightarrow> XMLPrinter res" where
  "Print doc streamer = Accept_kids (docKids doc) (VisitEnter_document doc streamer)"

section \<open>Printing never fails\<close>

text \<open>The stack of open elements is balanced over every visit, so no element is closed that is not open.\<close>

lemma Write_stack [simp]: "openStack (Write s pr) = openStack pr" "openStack (Putc ch pr) = openStack pr"
  by (simp_all add: Write_def Putc_def)

lemma PrintSpace_stack [simp]: "openStack (PrintSpace d pr) = openStack pr"
proof -
  have "openStack (((\<lambda>pr. Write ''    '' pr) ^^ n) pr) = openStack pr" for n by (induction n) simp_all
  then show ?thesis by (simp add: PrintSpace_def)
qed

lemma PrintString_stack [simp]: "openStack (PrintString p r pr) = openStack pr"
proof -
  have "openStack (print_string_loop r run p pr) = openStack pr" for run
    by (induction p arbitrary: run pr) (auto simp: Let_def split: option.splits)
  then show ?thesis by (simp add: PrintString_def)
qed

lemma Prepare_stack [simp]: "openStack (PrepareForNewNode c pr) = openStack pr"
  by (simp add: PrepareForNewNode_def SealElementIfJustOpened_def Let_def)

lemma VisitEnter_stack: "openStack (VisitEnter_element name as pr) = name # openStack pr"
proof -
  have "openStack (fold PushAttribute as pr) = openStack pr" for pr
    by (induction as arbitrary: pr) (simp_all add: PushAttribute_def)
  then show ?thesis by (simp add: VisitEnter_element_def OpenElement_def Let_def)
qed

lemma VisitExit_stack:
  "openStack pr = name # st \<Longrightarrow> okR (VisitExit_element pr) (\<lambda>pr'. openStack pr' = st)"
  by (simp add: VisitExit_element_def CloseElement_def Let_def)

lemma Accept_total:
  "okR (Accept k pr) (\<lambda>pr'. openStack pr' = openStack pr)"
  "okR (Accept_kids ks pr) (\<lambda>pr'. openStack pr' = openStack pr)"
proof (induction k pr and ks pr rule: Accept_Accept_kids.induct)
  case (1 name as ks pr)
  show ?case unfolding Accept.simps okR_bindR
    by (rule okR_mono [OF 1]) (simp add: VisitEnter_stack VisitExit_stack)
next
  case (7 n ns pr)
  show ?case unfolding Accept_kids.simps okR_bindR
  proof (rule okR_mono [OF 7(1)])
    fix x :: XMLPrinter
    assume "openStack x = openStack pr"
    with 7(2) [of x] show "okR (Accept_kids ns x) (\<lambda>pr'. openStack pr' = openStack pr)" by simp
  qed
qed (simp_all add: PushText_def PushComment_def PushDeclaration_def PushUnknown_def SealElementIfJustOpened_def Let_def)

lemma Print_total: "\<exists>pr. Print doc pr0 = Inr pr"
  using Accept_total(2) by (auto simp: Print_def okR_iff)

end
