(* ===== verification/Zstore_Http.thy ===== *)
theory Zstore_Http
  imports Zstore_Io Zstore_XmlPrint
begin

text \<open>
  The HTTP front end (\<^verbatim>\<open>src/src/http_server.cc\<close>, \<^verbatim>\<open>src/src/include/boost_utils.h\<close>): URLs, the S3
  list response, the request handler \<^verbatim>\<open>awaitable_on_request\<close> with its GET, PUT, POST and DELETE
  paths, and the session loop \<^verbatim>\<open>do_session\<close>.

  A request is handled as one step of the controller; the operations that concurrent requests
  share are atomic in the code, and two completions on different contexts commute
  (\<open>zoneAppend_commute\<close>). What the handler gets from outside is the record \<open>http_env\<close>.
  The \<^verbatim>\<open>Server\<close> header, a constant of Boost, is left out of responses.
\<close>

section \<open>Messages\<close>

datatype verb = GetV | HeadV | PutV | PostV | DeleteV | OtherV

record HttpRequest =
  rq_method :: verb
  rq_target :: string
  rq_version :: nat
  rq_keep_alive :: bool
  rq_body :: string

record HttpResponse =
  rs_status :: nat
  rs_version :: nat
  rs_content_type :: string
  rs_keep_alive :: bool
  rs_body :: string

definition response :: "nat \<Rightarrow> string \<Rightarrow> string \<Rightarrow> HttpRequest \<Rightarrow> HttpResponse" where
  "response status ctype bdy req = \<lparr>rs_status = status, rs_version = rq_version req,
     rs_content_type = ctype, rs_keep_alive = rq_keep_alive req, rs_body = bdy\<rparr>"

definition handle_request :: "HttpRequest \<Rightarrow> HttpResponse" where
  "handle_request req =
     (case rq_method req of
        HeadV \<Rightarrow> response 200 ''text/html'' [] req
      | GetV \<Rightarrow> response 200 ''object'' (rq_body req) req
      | PutV \<Rightarrow> response 200 ''object'' ''PUT Object is done'' req
      | PostV \<Rightarrow> response 200 ''object'' ''POST Object is done'' req
      | DeleteV \<Rightarrow> response 200 ''object'' ''Delete Object is done'' req
      | OtherV \<Rightarrow> response 400 ''text/html'' ''Unknown HTTP-method'' req)"

text \<open>The quote character of the message, \<^verbatim>\<open>'\<close>, is \<open>CHR 0x27\<close>.\<close>

definition handle_not_found_request :: "HttpRequest \<Rightarrow> HttpResponse" where
  "handle_not_found_request req =
     response 404 ''text/html'' (''The resource '' @ [CHR 0x27] @ rq_target req @ [CHR 0x27] @ '' was not found.'') req"

section \<open>URLs\<close>

definition parse_url :: "string \<Rightarrow> string \<times> string" where
  "parse_url str =
     (case str of
        [] \<Rightarrow> ([], [])
      | ch # rest \<Rightarrow>
          if ch \<noteq> CHR ''/'' then ([], [])
          else if CHR ''/'' \<notin> set rest then (rest, [])
          else (takeWhile (\<lambda>x. x \<noteq> CHR ''/'') rest, tl (dropWhile (\<lambda>x. x \<noteq> CHR ''/'') rest)))"

definition contains_str :: "string \<Rightarrow> string \<Rightarrow> bool" where
  "contains_str s sub = list_ex (\<lambda>i. take (length sub) (drop i s) = sub) [0..<Suc (length s)]"

section \<open>The list request\<close>

text \<open>The elements are built with the operations of the XML library; every one is filled before its
  children are read again, so the order of insertion into the parent does not show.\<close>

definition text_elem :: "string \<Rightarrow> string \<Rightarrow> XMLNode" where
  "text_elem tag s = SetText s (NewElement tag)"

definition insert_all :: "XMLNode list \<Rightarrow> XMLNode \<Rightarrow> XMLNode" where
  "insert_all ks e = fold (\<lambda>k. on_kids (InsertEndChild k)) ks e"

definition contents_elem :: "ObjectKeyHash \<Rightarrow> XMLNode" where
  "contents_elem hash = insert_all
     [text_elem ''Key'' (hashToCString hash),
      text_elem ''LastModified'' ''2024-01-10T15:30:00.000Z'',
      text_elem ''ETag'' (CHR 0x22 # ''9b2cf535f27731c974343645a3985328'' @ [CHR 0x22]),
      text_elem ''Size'' (dec_string 123456),
      text_elem ''StorageClass'' ''STANDARD''] (NewElement ''Contents'')"

definition create_s3_list_objects_response ::
  "XMLDocument \<Rightarrow> string \<Rightarrow> int \<Rightarrow> ObjectKeyHash list \<Rightarrow> XMLDocument" where
  "create_s3_list_objects_response doc bucket_name max_keys object_key_hashes =
     (let root = SetAttribute ''xmlns'' ''http://s3.amazonaws.com/doc/2006-03-01/'' (NewElement ''ListBucketResult'');
          root = insert_all
            ([text_elem ''Name'' bucket_name, text_elem ''Prefix'' [], text_elem ''Marker'' [],
              text_elem ''MaxKeys'' (dec_string (nat max_keys)), text_elem ''IsTruncated'' ''false''] @
             map contents_elem object_key_hashes) root
      in doc\<lparr>docKids := InsertFirstChild root (docKids doc)\<rparr>)"

text \<open>
  \<^verbatim>\<open>std::regex_match\<close> of the whole target with the pattern: a slash, a non-empty run without
  question marks, the text \<^verbatim>\<open>?max-keys=\<close> and a non-empty run of digits. The groups are the run
  and the digits.
\<close>

definition match_list :: "string \<Rightarrow> (string \<times> string) option" where
  "match_list str =
     (case str of
        [] \<Rightarrow> None
      | ch # rest \<Rightarrow>
          let bucket = takeWhile (\<lambda>x. x \<noteq> CHR ''?'') rest;
              query = dropWhile (\<lambda>x. x \<noteq> CHR ''?'') rest;
              digits = drop 10 query
          in if ch = CHR ''/'' \<and> bucket \<noteq> [] \<and> take 10 query = ''?max-keys='' \<and> digits \<noteq> [] \<and> list_all is_digit digits
             then Some (bucket, digits) else None)"

text \<open>\<^verbatim>\<open>std::stoi\<close> on a string of digits.\<close>

definition stoi :: "string \<Rightarrow> int res" where
  "stoi ds = (if dec_value ds < 2 ^ 31 then Inr (int (dec_value ds)) else Inl OutOfRange)"

text \<open>The request is passed by value: the result is what becomes of the handler's own copy.\<close>

definition handle_list_request :: "ObjectKeyHash list \<Rightarrow> HttpRequest \<Rightarrow> HttpRequest res" where
  "handle_list_request visit_order req =
     (case match_list (rq_target req) of
        None \<Rightarrow> Inr req
      | Some (bucket_name, digits) \<Rightarrow>
          bindR (stoi digits) (\<lambda>max_keys.
          let doc = create_s3_list_objects_response (newXMLDocument True PRESERVE_WHITESPACE)
                      bucket_name max_keys (ListObjects visit_order max_keys)
          in bindR (Print doc (newXMLPrinter False 0)) (\<lambda>printer.
            Inr (req\<lparr>rq_body := CStr printer\<rparr>))))"

section \<open>The request handler\<close>

text \<open>
  What the handler gets from outside: SHA-256, \<^verbatim>\<open>std::rand\<close>,
  the visiting order of the hash map, the state Boost leaves a moved-from request in, the
  bytes of a \<^verbatim>\<open>std::string\<close> object, the address of a vector's elements, whether an allocation
  succeeds, indeterminate bytes, and for the k-th device command of the request its outcome
  and the blocks a read transfers. \<open>sent\<close> tells whether a message to the I/O thread is accepted.
\<close>

record http_env =
  sha :: "u8 list \<Rightarrow> u8 list"
  rand_after :: "u32 \<Rightarrow> int"
  visit_order :: "ObjectKeyHash list"
  moved_from :: "HttpRequest \<Rightarrow> HttpRequest"
  string_memory :: "string \<Rightarrow> u8 list"
  vec_data :: u64
  malloc_ok :: "u64 \<Rightarrow> bool"
  junk :: "u8 list"
  outcomes :: "nat \<Rightarrow> io_outcome"
  dma :: "nat \<Rightarrow> u8 list"
  sent :: bool

text \<open>The pool a finished request returns its contexts to, chosen by a length.\<close>

definition return_key :: "conf \<Rightarrow> u32 \<Rightarrow> u32 option" where
  "return_key c n = (if gReplayWorkload c then Some n else None)"

definition assert_success :: "ctx_ref \<Rightarrow> zctrl \<Rightarrow> unit res" where
  "assert_success s z = bindR (slot_ctx s z) (\<lambda>ctx. cassert (success ctx))"

definition cl_lookup :: "ChunkList \<Rightarrow> u64 \<Rightarrow> u64 \<times> u32" where
  "cl_lookup m i = (case map_of m i of None \<Rightarrow> (0, 0) | Some v \<Rightarrow> v)"

definition num_chunks :: "conf \<Rightarrow> nat" where
  "num_chunks c = unat (ucast (gObjectSizeInBytes c) div gChunkSize c :: u64)"

subsection \<open>GET\<close>

definition read_chunk_slots ::
  "conf \<Rightarrow> nat option \<Rightarrow> u32 \<Rightarrow> ChunkList \<Rightarrow> zctrl \<Rightarrow> (ctx_ref list \<times> zctrl) res" where
  "read_chunk_slots c dev n chunks z =
     foldR (\<lambda>i (slots, z).
        bindR (MakeReadRequest c dev (ucast (snd (cl_lookup chunks (of_nat i)))) n z) (\<lambda>(s, z).
          Inr (slots @ [s], z))) [0..<num_chunks c] ([], z)"

definition get_chunks ::
  "conf \<Rightarrow> http_env \<Rightarrow> nat option \<Rightarrow> u32 \<Rightarrow> ctx_ref \<Rightarrow> HttpRequest \<Rightarrow> zctrl \<Rightarrow> (HttpResponse \<times> zctrl) res" where
  "get_chunks c env dev n s1 req z =
     bindR (slot_ctx s1 z) (\<lambda>ctx.
     bindR (if gExperimental c
            then Inr (deserializeDummyMap c (response_body ctx) (of_nat (num_chunks c)))
            else deserializeMap (string_memory env (response_body ctx))) (\<lambda>chunks.
     bindR (return_slot (return_key c n) s1 z) (\<lambda>z.
     bindR (read_chunk_slots c dev n chunks z) (\<lambda>(slots, z).
     bindR (foldR (\<lambda>(k, s). zoneRead (outcomes env k) (dma env k) s) (enumerate 0 slots) z) (\<lambda>z.
     let req = req\<lparr>rq_body := mergeChunksIntoObject slots (rq_body req)\<rparr> in
     bindR (foldR (return_slot (return_key c n)) slots z) (\<lambda>z.
       Inr (handle_request req, z)))))))"

definition handle_get ::
  "conf \<Rightarrow> http_env \<Rightarrow> string \<Rightarrow> ObjectKeyHash \<Rightarrow> HttpRequest \<Rightarrow> zctrl \<Rightarrow> (HttpResponse \<times> zctrl) res" where
  "handle_get c env object_key key_hash req z =
     (if contains_str (rq_target req) ''max-keys='' then
        bindR (handle_list_request (visit_order env) req) (\<lambda>_.
          Inr (handle_request (moved_from env req), z))
      else if object_key = [] then Inr (handle_not_found_request req, z)
      else
        let z = AddToBroadcast key_hash z;
            found = (case GetObject key_hash z of
                Some e \<Rightarrow> Some e
              | None \<Rightarrow> if gExperimental c
                  then Some (createMapEntry (GetDevTupleForRandomReads c key_hash) (mTotalCounts z - 1)
                               (mTotalCounts z) (mTotalCounts z + 1) 1)
                  else None)
        in case found of
          None \<Rightarrow> Inr (handle_not_found_request req, z)
        | Some entry \<Rightarrow>
            let n = len entry; dev1 = GetDeviceById (device_id (loc0 entry)) z in
            bindR (MakeReadRequest c dev1 (lba (loc0 entry)) n z) (\<lambda>(s1, z).
            bindR (zoneReadDummy (sent env) s1 z) (\<lambda>z.
            bindR (assert_success s1 z) (\<lambda>_.
            bindR (slot_ctx s1 z) (\<lambda>ctx.
            bindR (mem_read (dataBuffer ctx) 0 (unat (bufferSize ctx))) (\<lambda>bytes.
            bindR (update_slot s1 (\<lambda>ctx. ctx\<lparr>response_body := bytes_string bytes\<rparr>) z) (\<lambda>z.
              if ucast (gObjectSizeInBytes c) > gChunkSize c then get_chunks c env dev1 n s1 req z
              else
                let req = req\<lparr>rq_body := bytes_string bytes\<rparr> in
                bindR (return_slot (return_key c n) s1 z) (\<lambda>z. Inr (handle_request req, z)))))))))"

subsection \<open>PUT and POST\<close>

definition first_byte :: "string \<Rightarrow> u8" where
  "first_byte s = (case s of [] \<Rightarrow> 0 | ch # _ \<Rightarrow> of_char ch)"

text \<open>The object both paths build; \<^verbatim>\<open>memset\<close> through a failed allocation faults.\<close>

definition put_object :: "http_env \<Rightarrow> u64 \<Rightarrow> string \<Rightarrow> ZstoreObject res" where
  "put_object env object_size bdy =
     (if malloc_ok env object_size then
        Inr ((new_ZstoreObject (junk env))\<lparr>
          o_entry := (new_LogEntry (junk env))\<lparr>le_type := kData, seqnum := 42, chunk_seqnum := 24\<rparr>,
          o_datalen := object_size,
          o_body := HeapBody (replicate (unat object_size) (first_byte bdy)),
          o_key_size := 32\<rparr>)
      else Inl NullDeref)"

definition append_all :: "http_env \<Rightarrow> nat \<Rightarrow> ctx_ref list \<Rightarrow> zctrl \<Rightarrow> zctrl res" where
  "append_all env k slots z = foldR (\<lambda>(j, s). zoneAppend (outcomes env j) s) (enumerate k slots) z"

definition zone_of :: "nat option \<Rightarrow> zctrl \<Rightarrow> u32 res" where
  "zone_of dev z = bindR (the_device dev z) (\<lambda>(_, d). Inr (mZoneId d))"

definition put_entry ::
  "int \<times> int \<times> int \<Rightarrow> nat option \<times> nat option \<times> nat option \<Rightarrow> u64 \<times> u64 \<times> u64 \<Rightarrow> zctrl \<Rightarrow> MapEntry res" where
  "put_entry tgts devs lbas z =
     (case (tgts, devs, lbas) of ((tgt1, tgt2, tgt3), (dev1, dev2, dev3), (lba1, lba2, lba3)) \<Rightarrow>
        bindR (zone_of dev1 z) (\<lambda>z1. bindR (zone_of dev2 z) (\<lambda>z2. bindR (zone_of dev3 z) (\<lambda>z3.
          Inr (createMapEntry ((of_int tgt1, z1), (of_int tgt2, z2), (of_int tgt3, z3)) lba1 lba2 lba3 1)))))"

definition put_small ::
  "conf \<Rightarrow> http_env \<Rightarrow> ObjectKeyHash \<Rightarrow> int \<times> int \<times> int \<Rightarrow> nat option \<times> nat option \<times> nat option \<Rightarrow> u64 \<Rightarrow>
   HttpRequest \<Rightarrow> zctrl \<Rightarrow> (HttpResponse \<times> zctrl) res" where
  "put_small c env key_hash tgts devs object_size req z =
     (case devs of (dev1, dev2, dev3) \<Rightarrow>
     bindR (put_object env object_size (rq_body req)) (\<lambda>obj.
     bindR (WriteZstoreObjectToBuffer (junk env) obj) (\<lambda>buffer.
     bindR (MakeWriteRequest c dev1 (vec_data env) (ucast object_size) z) (\<lambda>(s1, z).
     bindR (MakeWriteRequest c dev2 (vec_data env) (ucast object_size) z) (\<lambda>(s2, z).
     bindR (MakeWriteRequest c dev3 (vec_data env) (ucast object_size) z) (\<lambda>(s3, z).
     bindR (append_all env 0 [s1, s2, s3] z) (\<lambda>z.
     bindR (foldR (\<lambda>s _. assert_success s z) [s1, s2, s3] ()) (\<lambda>_.
     bindR (slot_ctx s1 z) (\<lambda>ctx1.
     bindR (put_entry tgts devs (append_lba ctx1, append_lba ctx1, append_lba ctx1) z) (\<lambda>new_entry.
     let (rc, z) = BroadcastLocations key_hash s1 s2 s3 z in
     bindR (cassert rc) (\<lambda>_.
     bindR (foldR (return_slot (return_key c (ucast object_size))) [s1, s2, s3] z) (\<lambda>z.
     let (_, z) = PutObject key_hash new_entry z in
       Inr (handle_request req, z)))))))))))))"

text \<open>The three writes of one chunk.\<close>

definition write_chunk3 ::
  "conf \<Rightarrow> nat option \<times> nat option \<times> nat option \<Rightarrow> u8 list \<Rightarrow> u64 \<Rightarrow> zctrl \<Rightarrow> (ctx_ref list \<times> zctrl) res" where
  "write_chunk3 c devs buffer object_size z =
     (case devs of (dev1, dev2, dev3) \<Rightarrow>
     bindR (MakeWriteChunk c dev1 buffer (ucast object_size) z) (\<lambda>(s1, z).
     bindR (MakeWriteChunk c dev2 buffer (ucast object_size) z) (\<lambda>(s2, z).
     bindR (MakeWriteChunk c dev3 buffer (ucast object_size) z) (\<lambda>(s3, z).
       Inr ([s1, s2, s3], z)))))"

definition chunk_body :: "ZstoreObject list \<Rightarrow> nat \<Rightarrow> u8 list res" where
  "chunk_body chunk_vec i =
     (if i < length chunk_vec then
        (case o_body (chunk_vec ! i) of NullBody \<Rightarrow> Inl NullDeref | FreedBody \<Rightarrow> Inl UseAfterFree
         | HeapBody b \<Rightarrow> Inr b)
      else Inl OutOfBounds)"

text \<open>The chunk list, filled after the contexts were cleared and returned.\<close>

definition put_chunk_list :: "nat \<Rightarrow> ctx_ref list \<Rightarrow> zctrl \<Rightarrow> ChunkList res" where
  "put_chunk_list n reqs z =
     foldR (\<lambda>i chunk_list.
        if i < length reqs then
          bindR (slot_ctx (reqs ! i) z) (\<lambda>ctx.
            Inr (cl_insert (of_nat i) (of_nat i, if success ctx then ucast (append_lba ctx) else 42) chunk_list))
        else Inl OutOfBounds) [0..<n] []"

definition put_large ::
  "conf \<Rightarrow> http_env \<Rightarrow> ObjectKeyHash \<Rightarrow> int \<times> int \<times> int \<Rightarrow> nat option \<times> nat option \<times> nat option \<Rightarrow> u64 \<Rightarrow>
   HttpRequest \<Rightarrow> zctrl \<Rightarrow> (HttpResponse \<times> zctrl) res" where
  "put_large c env key_hash tgts devs object_size req z =
     bindR (put_object env object_size (rq_body req)) (\<lambda>obj.
     bindR (splitObjectIntoChunks c (malloc_ok env) (junk env) obj) (\<lambda>chunk_vec.
     bindR (foldR (\<lambda>i (reqs, z).
          bindR (chunk_body chunk_vec i) (\<lambda>buffer.
          bindR (write_chunk3 c devs buffer object_size z) (\<lambda>(slots, z). Inr (reqs @ slots, z))))
        [0..<num_chunks c] ([], z)) (\<lambda>(reqs, z).
     bindR (append_all env 0 reqs z) (\<lambda>z.
     bindR (foldR (return_slot (return_key c (ucast object_size))) reqs z) (\<lambda>z.
     bindR (put_chunk_list (num_chunks c) reqs z) (\<lambda>chunk_list.
     bindR (serializeMap c (junk env) chunk_list (gChunkSize c)) (\<lambda>bytes.
     bindR (chunk_body chunk_vec (num_chunks c - 1)) (\<lambda>last_body.
     bindR (mem_write last_body 0 bytes) (\<lambda>buffer.
     bindR (write_chunk3 c devs buffer object_size z) (\<lambda>(slots, z).
     bindR (append_all env (length reqs) slots z) (\<lambda>z.
     bindR (foldR (\<lambda>s _. assert_success s z) slots ()) (\<lambda>_.
     bindR (slot_ctx (slots ! 0) z) (\<lambda>ctx1. bindR (slot_ctx (slots ! 1) z) (\<lambda>ctx2.
     bindR (slot_ctx (slots ! 2) z) (\<lambda>ctx3.
     bindR (put_entry tgts devs (append_lba ctx1, append_lba ctx2, append_lba ctx3) z) (\<lambda>new_entry.
     bindR (foldR (return_slot (return_key c (ucast object_size))) slots z) (\<lambda>z.
     let (rc, z) = PutObject key_hash new_entry z in
     bindR (cassert (\<not> rc)) (\<lambda>_.
       Inl InvalidFree))))))))))))))))))"

definition handle_put ::
  "conf \<Rightarrow> http_env \<Rightarrow> string \<Rightarrow> ObjectKeyHash \<Rightarrow> HttpRequest \<Rightarrow> zctrl \<Rightarrow> (HttpResponse \<times> zctrl) res" where
  "handle_put c env object_key key_hash req z =
     (if object_key = [] then Inr (handle_request req, z)
      else
        let z = AddToBroadcast key_hash z;
            body_len = of_nat (length (rq_body req)) :: u64;
            len_in_bytes = (if body_len = 0 then ucast (gObjectSizeInBytes c) else body_len)
        in
        bindR (if gExperimental c then Inr (GetDevTupleForRandomReads c key_hash)
               else GetDevTuple (rand_after env) key_hash z) (\<lambda>tuple.
        let entry = CreateFakeObject key_hash tuple;
            tgts = (device_id (loc0 entry), device_id (loc1 entry), device_id (loc2 entry));
            (rc2, z) = BroadcastToInflight key_hash z
        in
        bindR (cassert rc2) (\<lambda>_.
        let devs = (GetDeviceById (fst tgts) z, GetDeviceById (fst (snd tgts)) z, GetDeviceById (snd (snd tgts)) z);
            object_size = (if gReplayWorkload c then len_in_bytes else ucast (gObjectSizeInBytes c))
        in
          if object_size > gChunkSize c then put_large c env key_hash tgts devs object_size req z
          else put_small c env key_hash tgts devs object_size req z)))"

subsection \<open>The dispatch\<close>

definition handle_delete :: "ObjectKeyHash \<Rightarrow> HttpRequest \<Rightarrow> zctrl \<Rightarrow> (HttpResponse \<times> zctrl) res" where
  "handle_delete key_hash req z = (let (entry, z) = DeleteObject key_hash z in Inr (handle_request req, z))"

declare handle_delete_def [simp]

definition awaitable_on_request ::
  "conf \<Rightarrow> http_env \<Rightarrow> HttpRequest \<Rightarrow> zctrl \<Rightarrow> (HttpResponse \<times> zctrl) res" where
  "awaitable_on_request c env req z =
     (let (bucket, object_key) = parse_url (rq_target req);
          key_hash = computeSHA256 (sha env) object_key
      in case rq_method req of
           GetV \<Rightarrow> handle_get c env object_key key_hash req z
         | PostV \<Rightarrow> handle_put c env object_key key_hash req z
         | PutV \<Rightarrow> handle_put c env object_key key_hash req z
         | DeleteV \<Rightarrow> handle_delete key_hash req z
         | _ \<Rightarrow> Inr (handle_request req, z))"

section \<open>Sessions\<close>

text \<open>
  \<^verbatim>\<open>do_session\<close> reads requests from a connection until the peer closes it, an error occurs, or
  a response says that the connection is not kept alive. An event of the connection is the
  outcome of one read and, for a request, of writing its response. \<open>Returned\<close> is the silent
  return, \<open>ShutDown\<close> the end after the graceful shutdown, \<open>Waiting\<close> a session whose next
  read is pending. The C++ exceptions of the handler end the session and leave the state as
  it was, since the handler throws before it changes it; other faults stop the process.
\<close>

datatype read_result = ReadRequest HttpRequest | ReadClosed | ReadFailed
datatype write_result = WriteOk | WriteClosed | WriteFailed
datatype session_end = Returned | ShutDown | Waiting

definition is_exception :: "fault \<Rightarrow> bool" where
  "is_exception f \<longleftrightarrow> f \<in> {InvalidArgument, OutOfRange, BadResult, LengthError, SystemError}"

fun do_session ::
  "conf \<Rightarrow> (http_env \<times> read_result \<times> write_result) list \<Rightarrow> zctrl \<Rightarrow> (HttpResponse list \<times> session_end \<times> zctrl) res" where
  "do_session c [] z = Inr ([], Waiting, z)"
| "do_session c ((env, rd, wr) # evs) z =
     (case rd of
        ReadClosed \<Rightarrow> Inr ([], Returned, z)
      | ReadFailed \<Rightarrow> Inr ([], ShutDown, z)
      | ReadRequest req \<Rightarrow>
          (case awaitable_on_request c env req z of
             Inl f \<Rightarrow> if is_exception f then Inr ([], ShutDown, z) else Inl f
           | Inr (msg, z) \<Rightarrow>
               (case wr of
                  WriteClosed \<Rightarrow> Inr ([], Returned, z)
                | WriteFailed \<Rightarrow> Inr ([], ShutDown, z)
                | WriteOk \<Rightarrow>
                    if rs_keep_alive msg then
                      bindR (do_session c evs z) (\<lambda>(msgs, e, z). Inr (msg # msgs, e, z))
                    else Inr ([msg], ShutDown, z))))"

section \<open>Running requests over the pool\<close>

lemma append_all_Nil [simp]: "append_all env k [] z = Inr z"
  by (simp add: append_all_def)

lemma append_all_Cons [simp]:
  "append_all env k (s # ss) z = bindR (zoneAppend (outcomes env k) s z) (append_all env (Suc k) ss)"
  unfolding append_all_def by simp

lemma append_all_ok:
  assumes cpl: "\<And>k. outcomes env k = Completed (cpl k)"
  shows "distinct is \<Longrightarrow> set is \<subseteq> H \<Longrightarrow> ctrl_inv c z H \<Longrightarrow>
    (\<And>i. i \<in> set is \<Longrightarrow> \<exists>ctx. heap z i = Some ctx \<and> has_ctrl ctx) \<Longrightarrow>
    okR (append_all env k (map (Pair None) is) z) (\<lambda>z'. ctrl_inv c z' H \<and> io_frame (- set is) z z' \<and>
      (\<forall>j < length is. \<exists>ctx. heap z' (is ! j) = Some ctx \<and> success ctx \<and> append_lba ctx = ucast (cdw0 (cpl (k + j)))))"
proof (induction "is" arbitrary: z k)
  case Nil
  then show ?case by simp
next
  case (Cons i "is")
  obtain ctx where ctx: "heap z i = Some ctx" "has_ctrl ctx" using Cons.prems(4) by auto
  obtain z1 where z1: "zoneAppend (Completed (cpl k)) (None, i) z = Inr z1"
      "completed c H i z (ctx\<lparr>write_complete := True, success := True, append_lba := ucast (cdw0 (cpl k))\<rparr>) z1"
    using zoneAppend_ok [OF Cons.prems(3) _ ctx, of "cpl k"] Cons.prems(2) by (auto elim!: okRE)
  have fr: "io_frame (- {i}) z z1" and inv: "ctrl_inv c z1 H" using z1 by (simp_all add: completed_def)
  have "\<exists>ctx. heap z1 j = Some ctx \<and> has_ctrl ctx" if "j \<in> set is" for j
  proof -
    have "j \<noteq> i" using Cons.prems(1) that by auto
    then have "heap z1 j = heap z j" by (intro io_frame_heap [OF fr]) simp
    then show ?thesis using Cons.prems(4) [of j] that by simp
  qed
  then obtain z2 where z2: "append_all env (Suc k) (map (Pair None) is) z1 = Inr z2" "ctrl_inv c z2 H"
      "io_frame (- set is) z1 z2"
      "\<forall>j < length is. \<exists>ctx. heap z2 (is ! j) = Some ctx \<and> success ctx \<and> append_lba ctx = ucast (cdw0 (cpl (Suc k + j)))"
    using Cons.IH [of z1 "Suc k"] Cons.prems inv by (auto elim!: okRE)
  have "io_frame (- set (i # is)) z z2" by (rule io_frame_trans [OF fr z2(3)]) auto
  moreover have "heap z2 i = heap z1 i" using Cons.prems(1) by (intro io_frame_heap [OF z2(3)]) simp
  then have "\<forall>j < length (i # is). \<exists>ctx. heap z2 ((i # is) ! j) = Some ctx \<and> success ctx \<and>
      append_lba ctx = ucast (cdw0 (cpl (k + j)))"
    using z1(2) z2(4) by (auto simp: completed_def nth_Cons split: nat.split)
  ultimately show ?case using z1(1) z2(1,2) cpl by simp
qed

lemma return_all_ok:
  "distinct is \<Longrightarrow> set is \<subseteq> H \<Longrightarrow> ctrl_inv c z H \<Longrightarrow>
   okR (foldR (return_slot None) (map (Pair None) is) z) (\<lambda>z'. ctrl_inv c z' (H - set is) \<and> io_frame (- set is) z z')"
proof (induction "is" arbitrary: z H)
  case Nil
  then show ?case by simp
next
  case (Cons i "is")
  obtain z1 where z1: "return_slot None (None, i) z = Inr z1" "ctrl_inv c z1 (H - {i})" "io_frame (- {i}) z z1"
    using return_slot_ok [OF Cons.prems(3), of i] Cons.prems(2) by (auto elim!: okRE)
  obtain z2 where z2: "foldR (return_slot None) (map (Pair None) is) z1 = Inr z2" "ctrl_inv c z2 (H - {i} - set is)"
      "io_frame (- set is) z1 z2"
    using Cons.IH [OF _ _ z1(2)] Cons.prems by (auto elim!: okRE)
  have "io_frame (- set (i # is)) z z2" by (rule io_frame_trans [OF z1(3) z2(3)]) auto
  moreover have "H - {i} - set is = H - set (i # is)" by auto
  ultimately show ?case using z1(1) z2(1,2) by simp
qed

section \<open>The small PUT\<close>

text \<open>What a request relies on: an object that fits a chunk and a context's buffer, memory, and
  completed device commands.\<close>

definition small_objects :: "conf \<Rightarrow> bool" where
  "small_objects c \<longleftrightarrow> conf_wf c \<and> \<not> gReplayWorkload c \<and> 8 \<le> gObjectSizeInBytes c \<and>
     ucast (gObjectSizeInBytes c) \<le> gChunkSize c"

definition env_ok :: "http_env \<Rightarrow> bool" where
  "env_ok env \<longleftrightarrow> length (junk env) = 65 \<and> (\<forall>n < 2 ^ 40. malloc_ok env n) \<and> sent env"

lemma small_buffer:
  assumes "small_objects c"
  shows "request_buffer_size c = ucast (gObjectSizeInBytes c)" "8 \<le> unat (request_buffer_size c)"
    "unat (request_buffer_size c) < 2 ^ 32" "ucast (request_buffer_size c) = gObjectSizeInBytes c"
proof -
  show eq: "request_buffer_size c = ucast (gObjectSizeInBytes c)"
    using assms by (auto simp: request_buffer_size_def small_objects_def)
  have u: "unat (ucast (gObjectSizeInBytes c) :: u64) = unat (gObjectSizeInBytes c)"
    using unat_bound [of "gObjectSizeInBytes c"] by (simp add: unsigned_ucast_eq take_bit_nat_eq_self)
  show "8 \<le> unat (request_buffer_size c)" using assms u eq by (simp add: small_objects_def word_le_nat_alt)
  show "unat (request_buffer_size c) < 2 ^ 32" using u eq unat_bound [of "gObjectSizeInBytes c"] by simp
  show "ucast (request_buffer_size c) = gObjectSizeInBytes c"
    using eq by (simp add: ucast_up_ucast_id is_up)
qed

lemma put_object_ok:
  assumes "env_ok env" and "unat n < 2 ^ 40" and "0 < n"
  obtains obj where "put_object env n bdy = Inr obj" "object_wf obj" "o_datalen obj = n"
    "body_bytes obj = replicate (unat n) (first_byte bdy)"
proof -
  have "n < 2 ^ 40" using assms(2) by (simp add: word_less_nat_alt)
  moreover have "unat n \<noteq> 0" using assms(3) by (simp add: word_less_nat_alt)
  ultimately show thesis
    using assms(1) by (intro that) (auto simp: put_object_def env_ok_def object_wf_def LogEntry_wf_def
        new_ZstoreObject_def new_LogEntry_def body_bytes_def)
qed

text \<open>Three writes acquire three different contexts.\<close>

lemma three_writes_ok:
  assumes sm: "small_objects c" and inv: "ctrl_inv c z H"
    and dev: "device_ready (Some d1) z" "device_ready (Some d2) z" "device_ready (Some d3) z"
  obtains i1 z1 i2 z2 i3 z3 where
    "MakeWriteRequest c (Some d1) vd (gObjectSizeInBytes c) z = Inr ((None, i1), z1)"
    "MakeWriteRequest c (Some d2) vd (gObjectSizeInBytes c) z1 = Inr ((None, i2), z2)"
    "MakeWriteRequest c (Some d3) vd (gObjectSizeInBytes c) z2 = Inr ((None, i3), z3)"
    "distinct [i1, i2, i3]" "set [i1, i2, i3] \<inter> H = {}" "ctrl_inv c z3 (set [i1, i2, i3] \<union> H)" "io_frame H z z3"
    "\<forall>i \<in> set [i1, i2, i3]. \<exists>ctx. heap z3 i = Some ctx \<and> has_ctrl ctx"
proof -
  note sb = small_buffer [OF sm]
  have rep: "\<not> gReplayWorkload c" using sm by (simp add: small_objects_def)
  have fits: "bytes_to_blocks c (ucast (request_buffer_size c)) = bytes_to_blocks c (gObjectSizeInBytes c)"
    using sb by simp
  note mk = MakeWriteRequest_ok [OF rep _ _ sb(2) fits, where vec_data = vd]
  obtain i1 z1 x1 where s1: "MakeWriteRequest c (Some d1) vd (gObjectSizeInBytes c) z = Inr ((None, i1), z1)" "i1 \<notin> H"
      "ctrl_inv c z1 (insert i1 H)" "io_frame H z z1" "heap z1 i1 = Some x1" "has_ctrl x1"
    using mk [OF inv dev(1)] by (auto elim!: okRE simp: request_for_def)
  obtain i2 z2 x2 where s2: "MakeWriteRequest c (Some d2) vd (gObjectSizeInBytes c) z1 = Inr ((None, i2), z2)" "i2 \<notin> insert i1 H"
      "ctrl_inv c z2 (insert i2 (insert i1 H))" "io_frame (insert i1 H) z1 z2" "heap z2 i2 = Some x2" "has_ctrl x2"
    using mk [OF s1(3) dev(2) [folded device_ready_frame [OF s1(4)]]] by (auto elim!: okRE simp: request_for_def)
  have fr2: "io_frame H z z2" by (rule io_frame_trans [OF s1(4) s2(4)]) auto
  obtain i3 z3 x3 where s3: "MakeWriteRequest c (Some d3) vd (gObjectSizeInBytes c) z2 = Inr ((None, i3), z3)"
      "i3 \<notin> insert i2 (insert i1 H)" "ctrl_inv c z3 (insert i3 (insert i2 (insert i1 H)))"
      "io_frame (insert i2 (insert i1 H)) z2 z3" "heap z3 i3 = Some x3" "has_ctrl x3"
    using mk [OF s2(3) dev(3) [folded device_ready_frame [OF fr2]]] by (auto elim!: okRE simp: request_for_def)
  have fr3: "io_frame H z z3" by (rule io_frame_trans [OF fr2 s3(4)]) auto
  have held: "heap z3 i1 = Some x1" "heap z3 i2 = Some x2"
    using io_frame_heap [OF s2(4), of i1] io_frame_heap [OF s3(4), of i1] io_frame_heap [OF s3(4), of i2] s1(5) s2(5) by auto
  have "set [i1, i2, i3] \<union> H = insert i3 (insert i2 (insert i1 H))" by auto
  then have inv3: "ctrl_inv c z3 (set [i1, i2, i3] \<union> H)" using s3(3) by (simp only:)
  have fresh: "distinct [i1, i2, i3]" "set [i1, i2, i3] \<inter> H = {}" using s1(2) s2(2) s3(2) by auto
  have ctx: "\<forall>i \<in> set [i1, i2, i3]. \<exists>ctx. heap z3 i = Some ctx \<and> has_ctrl ctx"
    using held s1(6) s2(6) s3(5,6) by auto
  show thesis by (rule that [OF s1(1) s2(1) s3(1) fresh inv3 fr3 ctx])
qed

text \<open>The appends complete and the contexts go back: the state afterwards, and what the first
  context held in between.\<close>

lemma append_return_ok:
  assumes cpl: "\<And>k. outcomes env k = Completed (cpl k)" and dist: "distinct is" and fresh: "set is \<inter> H = {}"
    and inv: "ctrl_inv c z (set is \<union> H)" and ctx: "\<forall>i \<in> set is. \<exists>ctx. heap z i = Some ctx \<and> has_ctrl ctx"
  obtains z4 z5 where "append_all env 0 (map (Pair None) is) z = Inr z4" "io_frame H z z4"
    "\<forall>j < length is. \<exists>ctx. slot_ctx (None, is ! j) z4 = Inr ctx \<and> success ctx \<and> append_lba ctx = ucast (cdw0 (cpl j))"
    "foldR (return_slot None) (map (Pair None) is) z4 = Inr z5" "ctrl_inv c z5 H" "io_frame H z z5"
proof -
  obtain z4 where z4: "append_all env 0 (map (Pair None) is) z = Inr z4" "ctrl_inv c z4 (set is \<union> H)" "io_frame (- set is) z z4"
      "\<forall>j < length is. \<exists>ctx. heap z4 (is ! j) = Some ctx \<and> success ctx \<and> append_lba ctx = ucast (cdw0 (cpl (0 + j)))"
    using append_all_ok [where k = 0, OF cpl dist _ inv] ctx by (auto elim!: okRE)
  have "slot_ctx (None, is ! j) z4 = Inr ctx" if "j < length is" "heap z4 (is ! j) = Some ctx" for j ctx
    using held_context(1) [OF z4(2), of "is ! j"] that by simp
  then have y: "\<forall>j < length is. \<exists>ctx. slot_ctx (None, is ! j) z4 = Inr ctx \<and> success ctx \<and> append_lba ctx = ucast (cdw0 (cpl j))"
    using z4(4) by (metis add_0)
  obtain z5 where z5: "foldR (return_slot None) (map (Pair None) is) z4 = Inr z5" "ctrl_inv c z5 (set is \<union> H - set is)"
      "io_frame (- set is) z4 z5"
    using return_all_ok [OF dist _ z4(2)] by (auto elim!: okRE)
  have sub: "H \<subseteq> - set is" and H: "set is \<union> H - set is = H" using fresh by auto
  have fr4: "io_frame H z z4" by (rule io_frame_trans [OF z4(3) io_frame_refl [of UNIV] sub subset_UNIV])
  have fr5: "io_frame H z z5" by (rule io_frame_trans [OF fr4 z5(3) subset_refl sub])
  show thesis by (rule that [OF z4(1) fr4 y z5(1) _ fr5]) (use z5(2) H in simp_all)
qed

lemma io_frame_put:
  assumes "io_frame K z z'"
  shows "io_frame K (z\<lparr>mMap := m\<rparr>) (z'\<lparr>mMap := m\<rparr>)"
proof -
  obtain p n where "z' = z\<lparr>mRequestContextPool := p, mTotalCounts := n\<rparr>" "\<forall>i \<in> K. ctx_heap p i = heap z i"
    using assms by (auto simp: io_frame_iff)
  then show ?thesis by (simp add: io_frame_def)
qed

lemma put_small_ok:
  assumes sm: "small_objects c" and env: "env_ok env" and cpl: "\<And>k. outcomes env k = Completed (cpl k)"
    and inv: "ctrl_inv c z H" and dev: "device_ready (Some d1) z" "device_ready (Some d2) z" "device_ready (Some d3) z"
  shows "okR (put_small c env key (t1, t2, t3) (Some d1, Some d2, Some d3) (ucast (gObjectSizeInBytes c)) req z)
    (\<lambda>(resp, z'). resp = handle_request req \<and> ctrl_inv c z' H \<and> io_frame H (z\<lparr>mMap := mMap z'\<rparr>) z' \<and>
      mMap z' = (mMap z)(key \<mapsto> createMapEntry
        ((of_int t1, mZoneId (mDevices z ! d1)), (of_int t2, mZoneId (mDevices z ! d2)), (of_int t3, mZoneId (mDevices z ! d3)))
        (ucast (cdw0 (cpl 0))) (ucast (cdw0 (cpl 0))) (ucast (cdw0 (cpl 0))) 1))"
proof -
  let ?n = "ucast (gObjectSizeInBytes c) :: u64"
  have un: "ucast ?n = gObjectSizeInBytes c" by (simp add: ucast_up_ucast_id is_up)
  have n: "unat ?n < 2 ^ 32" "0 < ?n"
    using small_buffer [OF sm] by (simp_all add: word_less_nat_alt)
  then have n40: "unat ?n < 2 ^ 40" by simp
  obtain obj where obj: "put_object env ?n (rq_body req) = Inr obj" "object_wf obj" "o_datalen obj = ?n"
    by (rule put_object_ok [OF env n40 n(2)])
  have fit: "187 + unat (o_datalen obj) < 2 ^ 64" using obj(3) n(1) by simp
  note wr = WriteZstoreObjectToBuffer_eq [OF obj(2) fit, of "junk env"]
  obtain i1 z1 i2 z2 i3 z3 where w: "MakeWriteRequest c (Some d1) (vec_data env) (gObjectSizeInBytes c) z = Inr ((None, i1), z1)"
    "MakeWriteRequest c (Some d2) (vec_data env) (gObjectSizeInBytes c) z1 = Inr ((None, i2), z2)"
    "MakeWriteRequest c (Some d3) (vec_data env) (gObjectSizeInBytes c) z2 = Inr ((None, i3), z3)"
    and dist: "distinct [i1, i2, i3]" and fresh: "set [i1, i2, i3] \<inter> H = {}"
    and inv3: "ctrl_inv c z3 (set [i1, i2, i3] \<union> H)" and fr3: "io_frame H z z3"
    and ctx3: "\<forall>i \<in> set [i1, i2, i3]. \<exists>ctx. heap z3 i = Some ctx \<and> has_ctrl ctx"
    by (rule three_writes_ok [OF sm inv dev, where vd = "vec_data env"])
  obtain z4 z5 where z4: "append_all env 0 (map (Pair None) [i1, i2, i3]) z3 = Inr z4" "io_frame H z3 z4"
    and y: "\<forall>j < length [i1, i2, i3].
      \<exists>ctx. slot_ctx (None, [i1, i2, i3] ! j) z4 = Inr ctx \<and> success ctx \<and> append_lba ctx = ucast (cdw0 (cpl j))"
    and z5: "foldR (return_slot None) (map (Pair None) [i1, i2, i3]) z4 = Inr z5" "ctrl_inv c z5 H" "io_frame H z3 z5"
    by (rule append_return_ok [OF cpl dist fresh inv3 ctx3])
  obtain y1 y2 y3 where ctx: "slot_ctx (None, i1) z4 = Inr y1" "success y1" "append_lba y1 = ucast (cdw0 (cpl 0))"
      "slot_ctx (None, i2) z4 = Inr y2" "success y2" "slot_ctx (None, i3) z4 = Inr y3" "success y3"
    using y [rule_format, of 0] y [rule_format, of 1] y [rule_format, of 2] by auto
  have fr4: "io_frame H z z4" by (rule io_frame_trans [OF fr3 z4(2)]) auto
  have fr5: "io_frame H z z5" by (rule io_frame_trans [OF fr3 z5(3)]) auto
  have zone: "zone_of (Some d) z4 = Inr (mZoneId (mDevices z ! d))" if "device_ready (Some d) z" for d
    using that the_device_ready(1) [of d z4] device_ready_frame [OF fr4, of "Some d"] io_frame_fields(2) [OF fr4]
    by (simp add: zone_of_def)
  have key: "return_key c n = None" for n using sm by (simp add: return_key_def small_objects_def)
  show ?thesis
    using z4(1) z5(1,2) io_frame_put [OF fr5] ctx
    by (simp add: put_small_def obj(1) wr un w put_entry_def zone dev assert_success_def
        BroadcastLocations_def key PutObject_def ctrl_inv_def io_frame_fields(1) [OF fr5])
qed

end
