(* ===== verification/Zstore_Requests.thy ===== *)
theory Zstore_Requests
  imports Zstore_Http
begin

text \<open>
  What HTTP requests do to the controller: no request leaks a request context, whatever the
  device answers; a PUT of an object that fits a chunk stores an entry on three different
  devices; GET, DELETE and the list request; sessions.
\<close>

section \<open>No request leaks a context\<close>

text \<open>A request holds the contexts \<open>is\<close> of the main pool beside those in \<open>H\<close>.\<close>

definition holding :: "conf \<Rightarrow> nat set \<Rightarrow> nat list \<Rightarrow> zctrl \<Rightarrow> bool" where
  "holding c H is z \<longleftrightarrow> distinct is \<and> set is \<inter> H = {} \<and> ctrl_inv c z (set is \<union> H)"

lemma holding_Nil [simp]: "holding c H [] z \<longleftrightarrow> ctrl_inv c z H"
  by (simp add: holding_def)

lemma holding_add:
  assumes "holding c H is z" and "i \<notin> set is \<union> H" and "ctrl_inv c z' (insert i (set is \<union> H))"
  shows "holding c H (is @ [i]) z'"
  using assms by (simp add: holding_def)

lemma get_slot_post:
  assumes "\<not> gReplayWorkload c" and "holding c H is z"
  shows "postR (get_slot c b z) (\<lambda>(s, z'). \<exists>i. s = (None, i) \<and> holding c H (is @ [i]) z')"
proof -
  have "okR (get_slot c b z) (\<lambda>(s, z'). \<exists>i. s = (None, i) \<and> holding c H (is @ [i]) z')"
    by (rule okR_mono [OF get_slot_ok [OF assms(1)]]) (use assms(2) in \<open>auto simp: holding_def\<close>)
  then show ?thesis by (rule okR_postR)
qed

lemma update_slot_post:
  assumes "holding c H is z" and "i \<in> set is" and "\<And>ctx. heap z i = Some ctx \<Longrightarrow> context_ok c ctx \<Longrightarrow> context_ok c (f ctx)"
  shows "postR (update_slot (None, i) f z) (holding c H is)"
proof -
  have inv: "ctrl_inv c z (set is \<union> H)" using assms(1) by (simp add: holding_def)
  have "okR (update_slot (None, i) f z) (holding c H is)"
    by (rule okR_mono [OF update_slot_ok [OF inv]]) (use assms in \<open>auto simp: holding_def\<close>)
  then show ?thesis by (rule okR_postR)
qed

lemma update_slot_last_post:
  "holding c H (is @ [i]) z \<Longrightarrow> (\<And>ctx. heap z i = Some ctx \<Longrightarrow> context_ok c ctx \<Longrightarrow> context_ok c (f ctx)) \<Longrightarrow>
   postR (update_slot (None, i) f z) (holding c H (is @ [i]))"
  by (rule update_slot_post) auto

lemma slot_ctx_post:
  assumes "holding c H is z" and "i \<in> set is"
  shows "postR (slot_ctx (None, i) z) (\<lambda>ctx. heap z i = Some ctx \<and> context_ok c ctx)"
  using slot_ctx_ok [of c z "set is \<union> H" i] assms by (auto simp: holding_def intro: okR_postR)

lemma length_mem_write: "mem_write buf off bs = Inr buf' \<Longrightarrow> length buf' = length buf"
  by (auto simp: mem_write_def split: if_splits)

text \<open>The calls that do not change the state.\<close>

lemma pure_post:
  "(\<And>di d. P (di, d)) \<Longrightarrow> postR (the_device dev z) P"
  "(\<And>q. Q q) \<Longrightarrow> postR (first_queue d) Q"
  "(b \<Longrightarrow> R ()) \<Longrightarrow> postR (cassert b) R"
  "(\<And>cpl. S cpl) \<Longrightarrow> postR (await_io r) S"
  "(\<And>bs. length bs = n \<Longrightarrow> off + n \<le> length buf \<Longrightarrow> T bs) \<Longrightarrow> postR (mem_read buf off n) T"
  "(\<And>buf'. length buf' = length buf \<Longrightarrow> T buf') \<Longrightarrow> postR (mem_write buf off bs) T"
  by (auto simp: postR_def cassert_eq_Inr mem_read_def split: if_splits dest: length_mem_write)

lemma MakeReadRequest_post:
  assumes rep: "\<not> gReplayWorkload c" and hold: "holding c H is z"
  shows "postR (MakeReadRequest c dev off n z) (\<lambda>(s, z'). \<exists>i. s = (None, i) \<and> holding c H (is @ [i]) z')"
  unfolding MakeReadRequest_def Let_def postR_bindR
  by (rule postR_mono [OF get_slot_post [OF rep hold]])
     (auto intro!: pure_post postR_mono [OF update_slot_last_post] simp: context_ok_def)

lemma write_slot_post:
  assumes hold: "holding c H (is @ [i]) z"
    and "\<And>ctx. heap z i = Some ctx \<Longrightarrow> context_ok c ctx \<Longrightarrow> postR (m ctx) (\<lambda>buf. length buf = length (dataBuffer ctx))"
  shows "postR (bindR (slot_ctx (None, i) z) (\<lambda>ctx. bindR (m ctx) (\<lambda>buf. bindR (the_device dev z) (\<lambda>(di, d).
      bindR (first_queue d) (\<lambda>q. bindR (cassert (P ctx)) (\<lambda>_.
      bindR (update_slot (None, i) (\<lambda>ctx. ctx\<lparr>has_ctrl := True, dataBuffer := buf, ioContext := g ctx d q,
        io_thread := Some 0, rc_device := Some di, is_write := True\<rparr>) z) (\<lambda>z. Inr ((None, i), z))))))))
    (\<lambda>(s, z'). \<exists>i. s = (None, i) \<and> holding c H (is @ [i]) z')"
  unfolding postR_bindR
proof (rule postR_mono [OF slot_ctx_post [OF hold]], simp, clarify)
  fix ctx
  assume ctx: "heap z i = Some ctx" "context_ok c ctx"
  show "postR (m ctx) (\<lambda>buf. postR (the_device dev z) (\<lambda>x. postR (case x of (di, d) \<Rightarrow>
      bindR (first_queue d) (\<lambda>q. bindR (cassert (P ctx)) (\<lambda>_.
      bindR (update_slot (None, i) (\<lambda>ctx. ctx\<lparr>has_ctrl := True, dataBuffer := buf, ioContext := g ctx d q,
        io_thread := Some 0, rc_device := Some di, is_write := True\<rparr>) z) (\<lambda>z. Inr ((None, i), z)))))
      (\<lambda>(s, z'). \<exists>i. s = (None, i) \<and> holding c H (is @ [i]) z')))"
    by (rule postR_mono [OF assms(2) [OF ctx]])
       (use ctx in \<open>auto intro!: pure_post postR_mono [OF update_slot_post [OF hold]] simp: context_ok_def\<close>)
qed

lemma MakeWriteRequest_post:
  assumes rep: "\<not> gReplayWorkload c" and hold: "holding c H is z"
  shows "postR (MakeWriteRequest c dev vd n z) (\<lambda>(s, z'). \<exists>i. s = (None, i) \<and> holding c H (is @ [i]) z')"
  unfolding MakeWriteRequest_def Let_def
  by (subst postR_bindR, rule postR_mono [OF get_slot_post [OF rep hold]])
     (clarsimp simp del: postR_bindR, rule write_slot_post, assumption,
      auto simp: postR_def dest: length_mem_write)


lemma zoneAppend_post:
  assumes "holding c H is z" and "i \<in> set is"
  shows "postR (zoneAppend r (None, i) z) (holding c H is)"
  unfolding zoneAppend_def
  by (auto intro!: pure_post postR_any [of _ "slot_ctx (None, i) z"] postR_mono [OF update_slot_post [OF assms]]
      simp: context_ok_def holding_def bump_total_def ctrl_inv_def)

lemma zoneRead_post:
  assumes "holding c H is z" and "i \<in> set is"
  shows "postR (zoneRead r bs (None, i) z) (holding c H is)"
  unfolding zoneRead_def
  by (auto intro!: pure_post postR_mono [OF slot_ctx_post [OF assms]] postR_mono [OF update_slot_post [OF assms]]
      simp: context_ok_def holding_def bump_total_def ctrl_inv_def)

lemma zoneReadDummy_post:
  assumes "holding c H is z" and "i \<in> set is"
  shows "postR (zoneReadDummy snt (None, i) z) (holding c H is)"
  unfolding zoneReadDummy_def
  by (auto intro!: pure_post postR_mono [OF slot_ctx_post [OF assms]] postR_mono [OF update_slot_post [OF assms]]
      simp: context_ok_def holding_def bump_total_def ctrl_inv_def)

lemma return_slot_post:
  assumes "holding c H (i # is) z"
  shows "postR (return_slot None (None, i) z) (holding c H is)"
proof -
  have inv: "ctrl_inv c z (set (i # is) \<union> H)" using assms by (simp add: holding_def)
  have "set (i # is) \<union> H - {i} = set is \<union> H" using assms by (auto simp: holding_def)
  then have "okR (return_slot None (None, i) z) (holding c H is)"
    by (intro okR_mono [OF return_slot_ok [OF inv]]) (use assms in \<open>auto simp: holding_def\<close>)
  then show ?thesis by (rule okR_postR)
qed

lemma return_all_post:
  "holding c H is z \<Longrightarrow> postR (foldR (return_slot None) (map (Pair None) is) z) (\<lambda>z'. ctrl_inv c z' H)"
proof (induction "is" arbitrary: z)
  case Nil
  then show ?case by simp
next
  case (Cons i "is")
  then show ?case by (auto intro!: postR_mono [OF return_slot_post [OF Cons.prems]])
qed

lemma append_all_post:
  "holding c H is z \<Longrightarrow> set js \<subseteq> set is \<Longrightarrow> postR (append_all env k (map (Pair None) js) z) (holding c H is)"
proof (induction js arbitrary: z k)
  case Nil
  then show ?case by simp
next
  case (Cons j js)
  then show ?case by (auto intro!: postR_mono [OF zoneAppend_post [OF Cons.prems(1)]])
qed


lemma read_all_post:
  "holding c H is z \<Longrightarrow> set js \<subseteq> set is \<Longrightarrow>
   postR (foldR (\<lambda>(k, s). zoneRead (f k) (g k) s) (enumerate n (map (Pair None) js)) z) (holding c H is)"
proof (induction js arbitrary: z n)
  case Nil
  then show ?case by simp
next
  case (Cons j js)
  then show ?case by (auto intro!: postR_mono [OF zoneRead_post [OF Cons.prems(1)]])
qed

lemma read_chunk_slots_post:
  assumes "\<not> gReplayWorkload c" and "ctrl_inv c z H"
  shows "postR (read_chunk_slots c dev n chunks z) (\<lambda>(slots, z'). \<exists>is. slots = map (Pair None) is \<and> holding c H is z')"
  unfolding read_chunk_slots_def
proof (rule postR_foldR [where P = "\<lambda>_ (slots, z'). \<exists>is. slots = map (Pair None) is \<and> holding c H is z'"])
  show "case ([], z) of (slots, z') \<Rightarrow> \<exists>is. slots = map (Pair None) is \<and> holding c H is z'" using assms(2) by simp
next
  fix i :: nat and s :: "ctx_ref list \<times> zctrl"
  assume "case s of (slots, z') \<Rightarrow> \<exists>is. slots = map (Pair None) is \<and> holding c H is z'"
  then obtain "is" z1 where s: "s = (map (Pair None) is, z1)" "holding c H is z1" by auto
  show "postR (case s of (slots, z) \<Rightarrow> bindR (MakeReadRequest c dev (ucast (snd (cl_lookup chunks (of_nat i)))) n z)
      (\<lambda>(s, z). Inr (slots @ [s], z))) (\<lambda>(slots, z'). \<exists>is. slots = map (Pair None) is \<and> holding c H is z')"
    unfolding s prod.case postR_bindR
    by (rule postR_mono [OF MakeReadRequest_post [OF assms(1) s(2)]]) (clarsimp, rename_tac z' j, rule_tac x = "is @ [j]" in exI, simp)
qed

lemma return_key_None: "\<not> gReplayWorkload c \<Longrightarrow> return_key c n = None"
  by (simp add: return_key_def)

lemma get_chunks_post:
  assumes rep: "\<not> gReplayWorkload c" and hold: "holding c H [i] z"
  shows "postR (get_chunks c env dev n (None, i) req z) (\<lambda>(r, z'). ctrl_inv c z' H)"
  unfolding get_chunks_def Let_def postR_bindR return_key_None [OF rep]
  by (rule postR_any, rule postR_any, rule postR_mono [OF return_slot_post [OF hold]], simp,
      rule postR_mono [OF read_chunk_slots_post [OF rep]], assumption)
     (auto intro!: postR_mono [OF read_all_post] postR_mono [OF return_all_post])

lemma assert_success_post: "P () \<Longrightarrow> postR (assert_success s z) P"
  by (rule postR_any) simp

lemma ctrl_inv_AddToBroadcast [simp]: "ctrl_inv c (AddToBroadcast k z) H = ctrl_inv c z H"
  by (simp add: ctrl_inv_def AddToBroadcast_def)

lemma ctrl_inv_PutObject [simp]: "ctrl_inv c (snd (PutObject k e z)) H = ctrl_inv c z H"
  by (simp add: ctrl_inv_def PutObject_def)

lemma ctrl_inv_DeleteObject [simp]: "ctrl_inv c (snd (DeleteObject k z)) H = ctrl_inv c z H"
  by (simp add: ctrl_inv_def DeleteObject_def)

lemma read_object_post:
  assumes rep: "\<not> gReplayWorkload c" and inv: "ctrl_inv c z H"
  shows "postR (bindR (MakeReadRequest c dev1 off n z) (\<lambda>(s1, z).
            bindR (zoneReadDummy (sent env) s1 z) (\<lambda>z.
            bindR (assert_success s1 z) (\<lambda>_.
            bindR (slot_ctx s1 z) (\<lambda>ctx.
            bindR (mem_read (dataBuffer ctx) 0 (unat (bufferSize ctx))) (\<lambda>bytes.
            bindR (update_slot s1 (\<lambda>ctx. ctx\<lparr>response_body := bytes_string bytes\<rparr>) z) (\<lambda>z.
              if big then get_chunks c env dev1 n s1 req z
              else bindR (return_slot (return_key c n) s1 z) (\<lambda>z. Inr (handle_request (f bytes), z)))))))))
    (\<lambda>(r, z'). ctrl_inv c z' H)"
proof -
  have 1: "postR (MakeReadRequest c dev1 off n z) (\<lambda>(s, z'). \<exists>i. s = (None, i) \<and> holding c H [i] z')"
    using MakeReadRequest_post [OF rep, of H "[]"] inv by simp
  have up: "postR (update_slot (None, i) (\<lambda>ctx. ctx\<lparr>response_body := b\<rparr>) z) (holding c H [i])"
    if "holding c H [i] z" for i z b
    by (rule update_slot_post [OF that]) (auto simp: context_ok_def)
  show ?thesis
    unfolding postR_bindR return_key_None [OF rep]
    by (rule postR_mono [OF 1])
       (auto intro!: postR_mono [OF zoneReadDummy_post] assert_success_post pure_post
          postR_any [of _ "slot_ctx s z" for s z] postR_mono [OF up] get_chunks_post [OF rep]
          postR_mono [OF return_slot_post])
qed


lemma handle_get_post:
  assumes rep: "\<not> gReplayWorkload c" and inv: "ctrl_inv c z H"
  shows "postR (handle_get c env object_key key_hash req z) (\<lambda>(r, z'). ctrl_inv c z' H)"
proof -
  have "ctrl_inv c (AddToBroadcast key_hash z) H" using inv by simp
  note rd = read_object_post [OF rep this]
  show ?thesis
    unfolding handle_get_def Let_def
    using inv by (auto intro!: postR_any [of _ "handle_list_request a b" for a b] rd [simplified] simp: inv split: option.split)
qed

lemma put_small_post:
  assumes rep: "\<not> gReplayWorkload c" and inv: "ctrl_inv c z H"
  shows "postR (put_small c env key tgts devs n req z) (\<lambda>(r, z'). ctrl_inv c z' H)"
proof (cases devs)
  case (fields d1 d2 d3)
  have mk: "postR (MakeWriteRequest c d vd m z) (\<lambda>(s, z'). \<exists>i. s = (None, i) \<and> holding c H (is @ [i]) z')"
    if "holding c H is z" for d vd m z "is" by (rule MakeWriteRequest_post [OF rep that])
  have 1: "postR (MakeWriteRequest c d vd m z) (\<lambda>(s, z'). \<exists>i. s = (None, i) \<and> holding c H [i] z')" for d vd m
    using mk [of "[]"] inv by simp
  have 2: "postR (MakeWriteRequest c d vd m z) (\<lambda>(s, z'). \<exists>j. s = (None, j) \<and> holding c H [i, j] z')"
    if "holding c H [i] z" for d vd m z i using mk [OF that] by simp
  have 3: "postR (MakeWriteRequest c d vd m z) (\<lambda>(s, z'). \<exists>k. s = (None, k) \<and> holding c H [i, j, k] z')"
    if "holding c H [i, j] z" for d vd m z i j using mk [OF that] by simp
  have ap: "postR (append_all env 0 [(None, i), (None, j), (None, k)] z) (holding c H [i, j, k])"
    if "holding c H [i, j, k] z" for i j k z using append_all_post [OF that, of "[i, j, k]"] by simp
  have ret: "postR (foldR (return_slot None) [(None, i), (None, j), (None, k)] z) (\<lambda>z'. ctrl_inv c z' H)"
    if "holding c H [i, j, k] z" for i j k z using return_all_post [OF that] by simp
  show ?thesis
    unfolding put_small_def fields prod.case postR_bindR return_key_None [OF rep] BroadcastLocations_def Let_def
    by (rule postR_any, rule postR_any, rule postR_mono [OF 1], clarsimp simp del: foldR.simps append_all_Cons,
        rule postR_mono [OF 2], assumption, clarsimp simp del: foldR.simps append_all_Cons,
        rule postR_mono [OF 3], assumption, clarsimp simp del: foldR.simps append_all_Cons,
        rule postR_mono [OF ap], assumption, rule postR_any, rule postR_any, rule postR_any,
        rule postR_mono [OF ret], assumption)
       (simp add: PutObject_def ctrl_inv_def)
qed

text \<open>A PUT of a larger object never returns: it ends in freeing a chunk that \<^verbatim>\<open>malloc\<close> allocated.\<close>

lemma put_large_no_return: "postR (put_large c env key tgts devs n req z) P"
  unfolding put_large_def Let_def
  by (auto intro!: postR_bind_any simp del: postR_bindR split: prod.split)

lemma handle_put_post:
  assumes rep: "\<not> gReplayWorkload c" and inv: "ctrl_inv c z H"
  shows "postR (handle_put c env object_key key_hash req z) (\<lambda>(r, z'). ctrl_inv c z' H)"
  unfolding handle_put_def Let_def BroadcastToInflight_def
  using inv by (auto intro!: postR_any [of _ "GetDevTuple a b d" for a b d] put_large_no_return put_small_post [OF rep])

lemma awaitable_post:
  assumes rep: "\<not> gReplayWorkload c" and inv: "ctrl_inv c z H"
  shows "postR (awaitable_on_request c env req z) (\<lambda>(r, z'). ctrl_inv c z' H)"
  using handle_get_post [OF assms] handle_put_post [OF assms] inv
  by (auto simp: awaitable_on_request_def Let_def DeleteObject_def ctrl_inv_def split: verb.split prod.split)

lemma do_session_post:
  assumes rep: "\<not> gReplayWorkload c"
  shows "ctrl_inv c z H \<Longrightarrow> postR (do_session c evs z) (\<lambda>(msgs, e, z'). ctrl_inv c z' H)"
proof (induction evs arbitrary: z)
  case Nil
  then show ?case by simp
next
  case (Cons ev evs)
  obtain env rd wr where ev: "ev = (env, rd, wr)" by (cases ev)
  show ?case
  proof (cases rd)
    case (ReadRequest req)
    show ?thesis
    proof (cases "awaitable_on_request c env req z")
      case (Inl f)
      then show ?thesis using Cons.prems ReadRequest ev by simp
    next
      case (Inr r)
      obtain msg z1 where r: "r = (msg, z1)" by (cases r)
      have "ctrl_inv c z1 H" using postR_D [OF awaitable_post [OF rep Cons.prems] Inr] r by simp
      with Cons.IH [OF this] show ?thesis
        using ReadRequest Inr r ev by (cases wr) (auto intro: postR_mono)
    qed
  qed (use Cons.prems ev in simp_all)
qed

section \<open>A controller that serves requests\<close>

definition system_ready :: "conf \<Rightarrow> zctrl \<Rightarrow> nat set \<Rightarrow> bool" where
  "system_ready c z H \<longleftrightarrow> ctrl_inv c z H \<and> 6 \<le> length (mDevices z) \<and> length (mDevices z) < 2 ^ 64 \<and>
     (\<forall>d < 6. mIoQueues (mDevices z ! d) \<noteq> []) \<and> mDevHash z \<noteq> [] \<and> (\<forall>t \<in> set (mDevHash z). dev_tuple_ok t)"

definition replicas_ok :: "MapEntry \<Rightarrow> bool" where
  "replicas_ok e \<longleftrightarrow> distinct [device_id (loc0 e), device_id (loc1 e), device_id (loc2 e)] \<and>
     (\<forall>l \<in> {loc0 e, loc1 e, loc2 e}. 0 \<le> device_id l \<and> device_id l < 6)"

lemma system_ready_device:
  assumes "system_ready c z H" and "(a :: u8) < 6"
  shows "GetDeviceById (uint a) z = Some (unat a)" "device_ready (Some (unat a)) z"
proof -
  have a: "unat a < 6" using assms(2) by (simp add: word_less_nat_alt)
  have n: "nat (uint a) = unat a" by simp
  show "GetDeviceById (uint a) z = Some (unat a)"
    using assms(1) a by (subst GetDeviceById_nat) (auto simp: system_ready_def)
  show "device_ready (Some (unat a)) z"
    using assms(1) a by (auto simp: system_ready_def device_ready_def)
qed

lemma GetDevTuple_ok:
  assumes "system_ready c z H"
  obtains a za b zb d zd where "GetDevTuple rnd key z = Inr ((a, za), (b, zb), (d, zd))"
    "a \<noteq> b" "a \<noteq> d" "b \<noteq> d" "a < 6" "b < 6" "d < 6"
proof -
  have ne: "mDevHash z \<noteq> []" using assms by (simp add: system_ready_def)
  define t where "t = mDevHash z ! (unat (of_int (rnd (arrayToSeed key)) :: u64) mod length (mDevHash z))"
  have "t \<in> set (mDevHash z)" using ne by (simp add: t_def)
  then have "dev_tuple_ok t" using assms by (simp add: system_ready_def)
  moreover have "GetDevTuple rnd key z = Inr t" using ne by (simp add: GetDevTuple_def t_def Let_def)
  ultimately show thesis by (cases t) (auto simp: dev_tuple_ok_def intro: that)
qed

lemma system_ready_frame:
  assumes "system_ready c z H" and "io_frame K (z\<lparr>mBroadcast := bc, mMap := m\<rparr>) z'" and "ctrl_inv c z' H"
  shows "system_ready c z' H"
  using assms(1,3) io_frame_fields(2,5) [OF assms(2)] by (simp add: system_ready_def)

lemma put_small_request:
  assumes sm: "small_objects c" and ex: "\<not> gExperimental c" and env: "env_ok env"
    and cpl: "\<And>k. outcomes env k = Completed (cpl k)" and ready: "system_ready c z H"
    and req: "rq_method req \<in> {PutV, PostV}" "snd (parse_url (rq_target req)) = key" "key \<noteq> []"
  shows "\<exists>resp z' e. awaitable_on_request c env req z = Inr (resp, z') \<and> rs_status resp = 200 \<and>
    system_ready c z' H \<and> mMap z' = (mMap z)(computeSHA256 (sha env) key \<mapsto> e) \<and> replicas_ok e \<and>
    (\<forall>l \<in> {loc0 e, loc1 e, loc2 e}. lba l = ucast (cdw0 (cpl 0))) \<and> len e = 1 \<and> \<not> tombstoned e"
proof -
  define h where "h = computeSHA256 (sha env) key"
  define zb where "zb = AddToBroadcast h z"
  have zb: "system_ready c zb H" using ready
    by (simp add: system_ready_def zb_def AddToBroadcast_def ctrl_inv_def)
  obtain a za b zb' d zd where t: "GetDevTuple (rand_after env) h zb = Inr ((a, za), (b, zb'), (d, zd))"
      "a \<noteq> b" "a \<noteq> d" "b \<noteq> d" "a < 6" "b < 6" "d < 6"
    by (rule GetDevTuple_ok [OF zb])
  have inv: "ctrl_inv c zb H" using zb by (simp add: system_ready_def)
  note dv = system_ready_device [OF zb]
  let ?n = "ucast (gObjectSizeInBytes c) :: u64" and ?lba = "ucast (cdw0 (cpl 0)) :: u64"
  define e where "e = createMapEntry ((a, mZoneId (mDevices zb ! unat a)), (b, mZoneId (mDevices zb ! unat b)),
      (d, mZoneId (mDevices zb ! unat d))) ?lba ?lba ?lba 1"
  obtain z' where put: "put_small c env h (uint a, uint b, uint d) (Some (unat a), Some (unat b), Some (unat d)) ?n req zb =
      Inr (handle_request req, z')" "ctrl_inv c z' H" "io_frame H (zb\<lparr>mMap := mMap z'\<rparr>) z'" "mMap z' = (mMap zb)(h \<mapsto> e)"
    using put_small_ok [OF sm env cpl inv dv(2) [OF t(5)] dv(2) [OF t(6)] dv(2) [OF t(7)], of h "uint a" "uint b" "uint d" req]
    by (auto elim!: okRE simp: e_def)
  have "\<not> gChunkSize c < ?n" using sm by (simp add: small_objects_def not_less)
  then have "handle_put c env key h req z = Inr (handle_request req, z')"
    using put(1) t dv(1) sm ex req(3)
    by (simp add: handle_put_def Let_def zb_def [symmetric] CreateFakeObject_def createMapEntry_def
        BroadcastToInflight_def small_objects_def)
  then have "awaitable_on_request c env req z = Inr (handle_request req, z')"
    using req by (auto simp: awaitable_on_request_def h_def Let_def split: prod.split)
  moreover have "rs_status (handle_request req) = 200"
    using req(1) by (auto simp: handle_request_def response_def)
  moreover have "system_ready c z' H"
    using system_ready_frame [OF ready, of H] put(2,3) by (simp add: zb_def AddToBroadcast_def)
  moreover have "replicas_ok e"
    using t by (auto simp: replicas_ok_def e_def createMapEntry_def word_less_def dest: unsigned_word_eqI)
  ultimately show ?thesis using put(4)
    by (intro exI [of _ "handle_request req"] exI [of _ z'] exI [of _ e])
       (auto simp: h_def zb_def AddToBroadcast_def e_def createMapEntry_def)
qed

text \<open>
  (C1) A PUT or POST of an object that fits a chunk, on a ready controller whose device commands
  complete, answers 200, gives back every request context, and stores for the object's key
  exactly one new entry: three different devices of the six, each with the block that the
  first append reported, and one block of length. Nothing else of the map changes.
\<close>

theorem put_stores_three_replicas:
  assumes sm: "small_objects c" and ex: "\<not> gExperimental c" and env: "env_ok env"
    and cpl: "\<And>k. outcomes env k = Completed (cpl k)" and ready: "system_ready c z H"
    and req: "rq_method req \<in> {PutV, PostV}" "snd (parse_url (rq_target req)) = key" "key \<noteq> []"
  shows "\<exists>resp z' e. awaitable_on_request c env req z = Inr (resp, z') \<and> rs_status resp = 200 \<and>
    system_ready c z' H \<and> mMap z' = (mMap z)(computeSHA256 (sha env) key \<mapsto> e) \<and> replicas_ok e \<and>
    (\<forall>l \<in> {loc0 e, loc1 e, loc2 e}. lba l = ucast (cdw0 (cpl 0))) \<and> len e = 1 \<and> \<not> tombstoned e"
  by (rule put_small_request [OF assms])

text \<open>A small deployment: the default configuration, six devices with one queue pair, and an
  empty map. Commands complete at block 7.\<close>

definition ex_device :: "nat \<Rightarrow> device" where
  "ex_device i = new_Device\<lparr>mIoQueues := [i], mZoneId := 65\<rparr>"

definition ex_zctrl :: zctrl where
  "ex_zctrl = PopulateDevHash conf_default \<lparr>mKeyExperiment = 0, mOption = 0, mDevHash = [], mMap = Map.empty,
     mInflight = {}, mBroadcast = {}, mRequestContextPool = new_RequestContextPool conf_default (\<lambda>_. zero_context) 4,
     mReplayRequestContextPool = Map.empty, mTotalCounts = 0, mManagementCounts = 0,
     mDevices = map ex_device [0..<6], mZkConnected = 0, mZkExpired = 0, nodeName = [], leaderNodeName = [],
     mEpoch = 0, mGateway = 0, mN = 0, mContextPoolSize = 4, mRandReadMapSize = 0, mCkptMapSize = 0,
     mCkptRecentMapSize = 0, mCkpt = False, mHasRunCkpt = False, mSelfIp = []\<rparr>"

definition ex_env :: http_env where
  "ex_env = \<lparr>sha = (\<lambda>bs. take 32 (bs @ replicate 32 0)), rand_after = (\<lambda>s. uint s),
     visit_order = [], moved_from = (\<lambda>req. req\<lparr>rq_target := [], rq_body := []\<rparr>), string_memory = (\<lambda>_. []),
     vec_data = 4096, malloc_ok = (\<lambda>_. True), junk = replicate 65 0,
     outcomes = (\<lambda>_. Completed \<lparr>cpl_error = False, cdw0 = 7\<rparr>), dma = (\<lambda>_. []), sent = True\<rparr>"

definition ex_request :: "verb \<Rightarrow> string \<Rightarrow> HttpRequest" where
  "ex_request v url = \<lparr>rq_method = v, rq_target = url, rq_version = 11, rq_keep_alive = True, rq_body = ''payload''\<rparr>"

lemma ex_small: "small_objects conf_default" "\<not> gExperimental conf_default" "env_ok ex_env"
  using conf_default_wf by (simp_all add: small_objects_def conf_default_def env_ok_def ex_env_def)

lemma ex_ready: "system_ready conf_default ex_zctrl {}"
proof -
  have dev: "mDevices ex_zctrl = map ex_device [0..<6]" by (simp add: ex_zctrl_def)
  have hash: "mDevHash ex_zctrl \<noteq> []" by (simp add: ex_zctrl_def PopulateDevHash_def tgt_dev_vec_def Let_def upt_rec)
  have "dev_tuple_ok t" if "t \<in> set (mDevHash ex_zctrl)" for t
    using dev_hash_new_ok that by (fastforce simp: ex_zctrl_def)
  then show ?thesis using hash new_pool_inv
    by (auto simp: system_ready_def ctrl_inv_def dev ex_device_def) (simp add: ex_zctrl_def)
qed

theorem put_stores_three_replicas_witness:
  "\<exists>resp z' e. awaitable_on_request conf_default ex_env (ex_request PutV ''/b/k'') ex_zctrl = Inr (resp, z') \<and>
     rs_status resp = 200 \<and> GetObject (computeSHA256 (sha ex_env) ''k'') z' = Some e \<and> replicas_ok e"
proof -
  have cpl: "\<And>k. outcomes ex_env k = Completed ((\<lambda>_. \<lparr>cpl_error = False, cdw0 = 7\<rparr>) k)" by (simp add: ex_env_def)
  show ?thesis
    using put_stores_three_replicas [OF ex_small cpl ex_ready, of "ex_request PutV ''/b/k''" "''k''"]
    by (auto simp: ex_request_def parse_url_def GetObject_def)
qed

section \<open>Sessions and contexts\<close>



text \<open>
  A session that has answered its requests and waits for more goes on as a fresh session would:
  the responses come in the order of the requests, one for each, and the later requests see the
  state that the earlier ones left.
\<close>

lemma session_waiting_length:
  "do_session c evs z = Inr (msgs, Waiting, z') \<Longrightarrow> length msgs = length evs"
proof (induction evs arbitrary: z msgs)
  case Nil
  then show ?case by simp
next
  case (Cons ev evs)
  then show ?case
    by (cases ev) (auto simp: bindR_eq_Inr split: read_result.splits write_result.splits sum.splits if_splits)
qed

lemma session_append:
  "do_session c xs z = Inr (msgs, Waiting, z1) \<Longrightarrow>
   do_session c (xs @ ys) z = bindR (do_session c ys z1) (\<lambda>(ms, e, z'). Inr (msgs @ ms, e, z'))"
proof (induction xs arbitrary: z msgs)
  case Nil
  then show ?case by (cases "do_session c ys z1") auto
next
  case (Cons ev xs)
  obtain env rd wr where ev: "ev = (env, rd, wr)" by (cases ev)
  obtain req msg z2 msgs2 where st: "rd = ReadRequest req" "wr = WriteOk"
      "awaitable_on_request c env req z = Inr (msg, z2)" "rs_keep_alive msg"
      "do_session c xs z2 = Inr (msgs2, Waiting, z1)" "msgs = msg # msgs2"
    using Cons.prems ev
    by (auto simp: bindR_eq_Inr split: read_result.splits write_result.splits sum.splits if_splits)
  have "do_session c (xs @ ys) z2 = bindR (do_session c ys z1) (\<lambda>(ms, e, z'). Inr (msgs2 @ ms, e, z'))"
    by (rule Cons.IH [OF st(5)])
  then show ?case using ev st by (cases "do_session c ys z1") auto
qed

lemma session_continues:
  assumes "do_session c xs z = Inr (msgs, Waiting, z1)"
  shows "length msgs = length xs \<and>
    do_session c (xs @ ys) z = bindR (do_session c ys z1) (\<lambda>(ms, e, z'). Inr (msgs @ ms, e, z'))"
  using session_waiting_length [OF assms] session_append [OF assms] by blast

lemma session_continues_example:
  "\<exists>msgs z1. do_session conf_default [(ex_env, ReadRequest (ex_request DeleteV ''/b/k''), WriteOk)] ex_zctrl = Inr (msgs, Waiting, z1) \<and>
     length msgs = 1"
proof -
  let ?evs = "[(ex_env, ReadRequest (ex_request DeleteV ''/b/k''), WriteOk)]"
  have "\<exists>msgs z1. do_session conf_default ?evs ex_zctrl = Inr (msgs, Waiting, z1)"
    by (simp add: awaitable_on_request_def ex_request_def parse_url_def handle_request_def response_def DeleteObject_def)
  then show ?thesis using session_continues [of conf_default ?evs ex_zctrl] by auto
qed

section \<open>GET, DELETE and lists\<close>

lemma MakeReadRequest_buffer:
  assumes "MakeReadRequest c dev off n z = Inr ((None, j), z')" and "\<not> gReplayWorkload c"
    and "availableContexts (mRequestContextPool z) = xs @ [i]" and "heap z i = Some ctx"
  shows "j = i" "\<exists>ctx'. heap z' i = Some ctx' \<and> dataBuffer ctx' = dataBuffer ctx"
  using assms
  by (auto simp: MakeReadRequest_def get_slot_def pool_key_def pool_at_def put_pool_def acquire_context_def
      GetRequestContext_def Let_def Clear_def bindR_eq_Inr update_slot_def update_context_def)

lemma read_buffer_ok:
  assumes sm: "small_objects c" and "context_ok c ctx"
  shows "mem_read (dataBuffer ctx) 0 (unat (bufferSize ctx)) = Inr (dataBuffer ctx)"
  using assms small_buffer(3) [OF sm]
  by (simp add: context_ok_def mem_read_def unsigned_ucast_eq take_bit_nat_eq_self)

text \<open>The read path of a small object, from the request to the return of its context.\<close>

lemma read_small_object:
  assumes sm: "small_objects c" and snt: "sent env" and inv: "ctrl_inv c z H" and dev: "device_ready (Some d) z"
  obtains i bs z1 z2 ctx2 z3 z4 where "MakeReadRequest c (Some d) off n z = Inr ((None, i), z1)"
    "zoneReadDummy (sent env) (None, i) z1 = Inr z2" "assert_success (None, i) z2 = Inr ()"
    "slot_ctx (None, i) z2 = Inr ctx2" "mem_read (dataBuffer ctx2) 0 (unat (bufferSize ctx2)) = Inr bs"
    "update_slot (None, i) (\<lambda>x. x\<lparr>response_body := bytes_string bs\<rparr>) z2 = Inr z3"
    "return_slot None (None, i) z3 = Inr z4" "ctrl_inv c z4 H" "io_frame H z z4"
    "\<forall>xs j ctx. availableContexts (mRequestContextPool z) = xs @ [j] \<and> heap z j = Some ctx \<longrightarrow> bs = dataBuffer ctx"
proof -
  have rep: "\<not> gReplayWorkload c" using sm by (simp add: small_objects_def)
  obtain i z1 ctx1 where r: "MakeReadRequest c (Some d) off n z = Inr ((None, i), z1)" "i \<notin> H"
      "ctrl_inv c z1 (insert i H)" "io_frame H z z1" "heap z1 i = Some ctx1" "has_ctrl ctx1" "context_ok c ctx1"
    using MakeReadRequest_ok [OF rep inv dev, of off n] by (auto elim!: okRE simp: request_for_def)
  have buf: "\<forall>xs j ctx. availableContexts (mRequestContextPool z) = xs @ [j] \<and> heap z j = Some ctx \<longrightarrow> dataBuffer ctx1 = dataBuffer ctx"
    using MakeReadRequest_buffer [OF r(1) rep] r(5) by fastforce
  let ?ctx2 = "ctx1\<lparr>response_body := bytes_string (dataBuffer ctx1), success := True\<rparr>"
  obtain z2 where z2: "zoneReadDummy True (None, i) z1 = Inr z2" "completed c (insert i H) i z1 ?ctx2 z2"
    using zoneReadDummy_ok [OF r(3) _ r(5,6) small_buffer(3) [OF sm]] by (auto elim!: okRE)
  have inv2: "ctrl_inv c z2 (insert i H)" "io_frame (- {i}) z1 z2" "heap z2 i = Some ?ctx2"
    using z2(2) by (simp_all add: completed_def)
  note ctx2 = held_context [OF inv2(1) _ inv2(3)]
  obtain z3 where z3: "update_slot (None, i) (\<lambda>x. x\<lparr>response_body := bytes_string (dataBuffer ctx1)\<rparr>) z2 = Inr z3"
      "ctrl_inv c z3 (insert i H)" "io_frame (- {i}) z2 z3"
    using update_slot_ok [OF inv2(1), of i "\<lambda>x. x\<lparr>response_body := bytes_string (dataBuffer ctx1)\<rparr>"]
    by (auto elim!: okRE simp: context_ok_def)
  obtain z4 where z4: "return_slot None (None, i) z3 = Inr z4" "ctrl_inv c z4 (insert i H - {i})" "io_frame (- {i}) z3 z4"
    using return_slot_ok [OF z3(2), of i] by (auto elim!: okRE)
  have sub: "H \<subseteq> - {i}" and H: "insert i H - {i} = H" using r(2) by auto
  have fr: "io_frame H z z4"
    by (rule io_frame_trans [OF io_frame_trans [OF io_frame_trans [OF r(4) inv2(2)] z3(3)] z4(3)]) (use sub in auto)
  have i: "i \<in> insert i H" by simp
  show thesis
    by (rule that [OF r(1) _ _ ctx2(1) [OF i] _ z3(1) z4(1) _ fr buf])
       (use z2(1) snt ctx2 [OF i] read_buffer_ok [OF sm ctx2(2) [OF i]] z4(2) H in \<open>simp_all add: assert_success_def\<close>)
qed

lemma get_stored_object:
  assumes sm: "small_objects c" and "sent env" and inv: "ctrl_inv c z H"
    and url: "\<not> contains_str (rq_target req) ''max-keys=''" "snd (parse_url (rq_target req)) = key" "key \<noteq> []"
    and get: "rq_method req = GetV" "GetObject (computeSHA256 (sha env) key) z = Some e"
    and dev: "GetDeviceById (device_id (loc0 e)) z = Some d" "device_ready (Some d) z"
  shows "\<exists>bs z'. awaitable_on_request c env req z = Inr (response 200 ''object'' (bytes_string bs) req, z') \<and>
    ctrl_inv c z' H \<and> io_frame H (AddToBroadcast (computeSHA256 (sha env) key) z) z' \<and>
    (\<forall>xs j ctx. availableContexts (mRequestContextPool z) = xs @ [j] \<and> heap z j = Some ctx \<longrightarrow> bs = dataBuffer ctx)"
proof -
  define h where "h = computeSHA256 (sha env) key"
  define zb where "zb = AddToBroadcast h z"
  have zb: "ctrl_inv c zb H" "device_ready (Some d) zb" "mRequestContextPool zb = mRequestContextPool z" "GetObject h zb = Some e" "GetDeviceById (device_id (loc0 e)) zb = Some d"
    using inv dev get(2)
    by (simp_all add: zb_def h_def AddToBroadcast_def ctrl_inv_def device_ready_def GetObject_def GetDeviceById_def)
  obtain i bs z1 z2 ctx2 z3 z4 where r: "MakeReadRequest c (Some d) (lba (loc0 e)) (len e) zb = Inr ((None, i), z1)"
    "zoneReadDummy (sent env) (None, i) z1 = Inr z2" "assert_success (None, i) z2 = Inr ()"
    "slot_ctx (None, i) z2 = Inr ctx2" "mem_read (dataBuffer ctx2) 0 (unat (bufferSize ctx2)) = Inr bs"
    "update_slot (None, i) (\<lambda>x. x\<lparr>response_body := bytes_string bs\<rparr>) z2 = Inr z3"
    "return_slot None (None, i) z3 = Inr z4" "ctrl_inv c z4 H" "io_frame H zb z4"
    "\<forall>xs j ctx. availableContexts (mRequestContextPool zb) = xs @ [j] \<and> heap zb j = Some ctx \<longrightarrow> bs = dataBuffer ctx"
    by (rule read_small_object [OF sm assms(2) zb(1,2), where off = "lba (loc0 e)" and n = "len e"])
  have small: "\<not> gChunkSize c < ucast (gObjectSizeInBytes c)" and key: "return_key c (len e) = None"
    using sm by (simp_all add: small_objects_def return_key_def not_less)
  have "handle_get c env key h req z = Inr (handle_request (req\<lparr>rq_body := bytes_string bs\<rparr>), z4)"
    using r(1-7) zb(4,5) url small key by (simp add: handle_get_def Let_def zb_def [symmetric])
  then have "awaitable_on_request c env req z = Inr (response 200 ''object'' (bytes_string bs) req, z4)"
    using get(1) url(2) by (auto simp: awaitable_on_request_def h_def Let_def handle_request_def response_def split: prod.split)
  then show ?thesis using r(8-10) zb(3) unfolding zb_def h_def by auto
qed

text \<open>
  (C36) A GET of a stored object that fits a chunk sends nothing to the device: it answers 200 with
  what the buffer of the context it happened to get held before, and leaves the map as it is.
\<close>

theorem get_returns_context_buffer:
  assumes sm: "small_objects c" and "sent env" and inv: "ctrl_inv c z H"
    and url: "\<not> contains_str (rq_target req) ''max-keys=''" "snd (parse_url (rq_target req)) = key" "key \<noteq> []"
    and get: "rq_method req = GetV" "GetObject (computeSHA256 (sha env) key) z = Some e"
    and dev: "GetDeviceById (device_id (loc0 e)) z = Some d" "device_ready (Some d) z"
    and pool: "availableContexts (mRequestContextPool z) = xs @ [i]" "heap z i = Some ctx"
  shows "\<exists>z'. awaitable_on_request c env req z =
      Inr (response 200 ''object'' (bytes_string (dataBuffer ctx)) req, z') \<and> ctrl_inv c z' H \<and> mMap z' = mMap z"
proof -
  obtain bs z' where "awaitable_on_request c env req z = Inr (response 200 ''object'' (bytes_string bs) req, z')" "ctrl_inv c z' H"
      "io_frame H (AddToBroadcast (computeSHA256 (sha env) key) z) z'" "bs = dataBuffer ctx"
    using get_stored_object [OF assms(1-10)] pool by blast
  then show ?thesis using io_frame_fields(1) by (fastforce simp: AddToBroadcast_def)
qed

theorem get_returns_context_buffer_witness:
  "\<exists>z'. awaitable_on_request conf_default ex_env (ex_request GetV ''/b/k'')
       (ex_zctrl\<lparr>mMap := [computeSHA256 (sha ex_env) ''k'' \<mapsto> CreateFakeObject [] ((1, 65), (3, 65), (4, 65))]\<rparr>) =
     Inr (response 200 ''object'' (bytes_string (replicate 131072 0)) (ex_request GetV ''/b/k''), z')"
proof -
  let ?e = "CreateFakeObject [] ((1, 65), (3, 65), (4, 65))"
  let ?z = "ex_zctrl\<lparr>mMap := [computeSHA256 (sha ex_env) ''k'' \<mapsto> ?e]\<rparr>" and ?req = "ex_request GetV ''/b/k''"
  have sr: "system_ready conf_default ?z {}" using ex_ready by (simp add: system_ready_def ctrl_inv_def)
  then have inv: "ctrl_inv conf_default ?z {}" by (simp add: system_ready_def)
  have dev: "GetDeviceById (device_id (loc0 ?e)) ?z = Some 1" "device_ready (Some 1) ?z"
    using system_ready_device [OF sr, of 1] by (simp_all add: CreateFakeObject_def createMapEntry_def)
  have url: "\<not> contains_str (rq_target ?req) ''max-keys=''" "snd (parse_url (rq_target ?req)) = ''k''" "''k'' \<noteq> []"
    by (simp_all add: contains_str_def ex_request_def parse_url_def upt_rec)
  have pool: "availableContexts (mRequestContextPool ?z) = [0, 1, 2] @ [3]"
      "heap ?z 3 = Some (fresh_context conf_default zero_context)"
    by (simp_all add: ex_zctrl_def new_RequestContextPool_def upt_rec)
  have "sent ex_env" "rq_method ?req = GetV" "GetObject (computeSHA256 (sha ex_env) ''k'') ?z = Some ?e"
    by (simp_all add: ex_env_def ex_request_def GetObject_def)
  from get_returns_context_buffer [OF ex_small(1) this(1) inv url this(2,3) dev pool]
  show ?thesis by (auto simp: fresh_context_def)
qed

text \<open>
  After a DELETE, which always answers 200, the object is gone: a later GET of the same target
  answers 404 and does not change the map, unless the experimental mode makes entries up.
\<close>

lemma delete_then_get:
  assumes "\<not> gExperimental c" and "\<not> contains_str (rq_target req) ''max-keys=''" and "rq_method req = GetV"
    and "sha env = sha env'"
  shows "\<exists>r1 z1 r2 z2. awaitable_on_request c env (req\<lparr>rq_method := DeleteV\<rparr>) z = Inr (r1, z1) \<and> rs_status r1 = 200 \<and>
    awaitable_on_request c env' req z1 = Inr (r2, z2) \<and> rs_status r2 = 404 \<and>
    mMap z1 = (mMap z)(computeSHA256 (sha env) (snd (parse_url (rq_target req))) := None) \<and> mMap z2 = mMap z1"
  using assms
  by (auto simp: awaitable_on_request_def handle_get_def handle_request_def handle_not_found_request_def response_def
      DeleteObject_def GetObject_def AddToBroadcast_def Let_def split: prod.split)

lemma delete_then_get_example:
  "\<exists>r1 z1 r2 z2. awaitable_on_request conf_default ex_env (ex_request DeleteV ''/b/k'') ex_zctrl = Inr (r1, z1) \<and>
     awaitable_on_request conf_default ex_env (ex_request GetV ''/b/k'') z1 = Inr (r2, z2) \<and> rs_status r2 = 404"
proof -
  have "\<not> contains_str (rq_target (ex_request GetV ''/b/k'')) ''max-keys=''"
    by (simp add: contains_str_def ex_request_def upt_rec)
  from delete_then_get [OF ex_small(2) this, of ex_env ex_env ex_zctrl] show ?thesis
    by (auto simp: ex_request_def)
qed

section \<open>Objects larger than a chunk\<close>

lemma large_blocks:
  assumes wf: "conf_wf c" and big: "gChunkSize c < ucast (gObjectSizeInBytes c)"
  shows "bytes_to_blocks c (ucast (gChunkSize c)) \<noteq> bytes_to_blocks c (gObjectSizeInBytes c)"
    "unat (ucast (gObjectSizeInBytes c) :: u64) = unat (gObjectSizeInBytes c)"
    "unat (gChunkSize c) < unat (gObjectSizeInBytes c)"
proof -
  show u: "unat (ucast (gObjectSizeInBytes c) :: u64) = unat (gObjectSizeInBytes c)"
    using unat_bound [of "gObjectSizeInBytes c"] by (simp add: unsigned_ucast_eq take_bit_nat_eq_self)
  then show lt: "unat (gChunkSize c) < unat (gObjectSizeInBytes c)" using big by (simp add: word_less_nat_alt)
  have "unat (ucast (gChunkSize c) :: u32) = unat (gChunkSize c)"
    using wf by (simp add: conf_wf_def unsigned_ucast_eq take_bit_nat_eq_self)
  moreover have "unat (gChunkSize c) div nat (gBlockSize c) < unat (gObjectSizeInBytes c) div nat (gBlockSize c)"
    using wf lt by (auto simp: conf_wf_def elim!: dvdE)
  ultimately show "bytes_to_blocks c (ucast (gChunkSize c)) \<noteq> bytes_to_blocks c (gObjectSizeInBytes c)"
    using unat_bytes_to_blocks [OF wf] by (metis less_irrefl)
qed

lemma put_large_assert:
  assumes wf: "conf_wf c" and rep: "\<not> gReplayWorkload c" and big: "gChunkSize c < ucast (gObjectSizeInBytes c)"
    and env: "env_ok env" and inv: "ctrl_inv c z H" and dev: "device_ready (Some d1) z"
  shows "put_large c env key tgts (Some d1, d2, d3) (ucast (gObjectSizeInBytes c)) req z = Inl AssertFail"
proof -
  let ?n = "ucast (gObjectSizeInBytes c) :: u64"
  note lb = large_blocks [OF wf big]
  have n: "unat ?n < 2 ^ 40" "0 < ?n"
    using lb(2,3) unat_bound [of "gObjectSizeInBytes c"] by (simp_all add: word_less_nat_alt)
  obtain obj where obj: "put_object env ?n (rq_body req) = Inr obj" "object_wf obj" "o_datalen obj = ?n"
      "body_bytes obj = replicate (unat ?n) (first_byte (rq_body req))"
    by (rule put_object_ok [OF env n])
  have ck: "0 < gChunkSize c" "unat (gChunkSize c) < 2 ^ 32" using wf by (simp_all add: conf_wf_def)
  then have ok: "malloc_ok env (gChunkSize c)" using env by (simp add: env_ok_def word_less_nat_alt)
  obtain b where b: "o_body obj = HeapBody b" "length b = unat (o_datalen obj)"
    using obj(2,3) n(2) by (auto simp: object_wf_def split: body_ptr.splits)
  let ?cs = "map (chunk_of c (junk env) obj b) [0..<unat (o_datalen obj) div unat (gChunkSize c)]"
  have split: "splitObjectIntoChunks c (malloc_ok env) (junk env) obj = Inr ?cs"
    using splitObjectIntoChunks_eq [where malloc_ok = "malloc_ok env", OF obj(3) ck(1) b ok] .
  have cnt: "num_chunks c = unat (o_datalen obj) div unat (gChunkSize c)" "0 < num_chunks c"
    using obj(3) lb(2,3) ck(1) by (simp_all add: num_chunks_def unat_div_distrib div_greater_zero_iff word_less_nat_alt)
  let ?b0 = "take (unat (gChunkSize c)) b"
  have body0: "chunk_body ?cs 0 = Inr ?b0" using cnt by (simp add: chunk_body_def chunk_of_def)
  have rb: "request_buffer_size c = gChunkSize c" using big by (simp add: request_buffer_size_def)
  have "MakeWriteChunk c (Some d1) ?b0 (gObjectSizeInBytes c) z = Inl AssertFail"
    by (rule MakeWriteChunk_assert [OF rep inv dev]) (use rb b(2) obj(3) lb ck in simp_all)
  then have w: "write_chunk3 c (Some d1, d2, d3) ?b0 ?n z = Inl AssertFail"
    by (simp add: write_chunk3_def ucast_up_ucast_id is_up)
  have "[0..<num_chunks c] = 0 # [1..<num_chunks c]" using cnt(2) by (simp add: upt_conv_Cons)
  then show ?thesis using body0 w by (simp add: put_large_def obj(1) split)
qed

text \<open>
  (C37) When objects are larger than a chunk, every PUT or POST of an object on a ready controller
  stops the process at the size assertion of its first chunk write: no such object is ever stored.
\<close>

theorem put_large_aborts:
  assumes wf: "conf_wf c" and rep: "\<not> gReplayWorkload c" and ex: "\<not> gExperimental c"
    and big: "gChunkSize c < ucast (gObjectSizeInBytes c)"
    and env: "env_ok env" and ready: "system_ready c z H"
    and req: "rq_method req \<in> {PutV, PostV}" "snd (parse_url (rq_target req)) \<noteq> []"
  shows "awaitable_on_request c env req z = Inl AssertFail"
proof -
  define h where "h = computeSHA256 (sha env) (snd (parse_url (rq_target req)))"
  define zb where "zb = AddToBroadcast h z"
  have zb: "system_ready c zb H" using ready
    by (simp add: system_ready_def zb_def AddToBroadcast_def ctrl_inv_def)
  then have inv: "ctrl_inv c zb H" by (simp add: system_ready_def)
  obtain a za b zb' d zd where t: "GetDevTuple (rand_after env) h zb = Inr ((a, za), (b, zb'), (d, zd))"
      "a < 6" "b < 6" "d < 6"
    by (rule GetDevTuple_ok [OF zb])
  note dv = system_ready_device [OF zb]
  have "handle_put c env (snd (parse_url (rq_target req))) h req z = Inl AssertFail"
    using put_large_assert [OF wf rep big env inv dv(2) [OF t(2)]] t dv(1) ex rep req(2) big
    by (simp add: handle_put_def Let_def zb_def [symmetric] CreateFakeObject_def createMapEntry_def BroadcastToInflight_def)
  then show ?thesis using req(1) by (auto simp: awaitable_on_request_def h_def Let_def split: prod.split)
qed

theorem put_large_aborts_witness:
  "awaitable_on_request (conf_default\<lparr>gChunkSize := 4096\<rparr>) ex_env (ex_request PutV ''/b/k'')
     (ex_zctrl\<lparr>mRequestContextPool := new_RequestContextPool (conf_default\<lparr>gChunkSize := 4096\<rparr>) (\<lambda>_. zero_context) 4\<rparr>) = Inl AssertFail"
proof (rule put_large_aborts [where H = "{}"])
  show "system_ready (conf_default\<lparr>gChunkSize := 4096\<rparr>) (ex_zctrl\<lparr>mRequestContextPool :=
      new_RequestContextPool (conf_default\<lparr>gChunkSize := 4096\<rparr>) (\<lambda>_. zero_context) 4\<rparr>) {}"
    using ex_ready new_pool_inv by (simp add: system_ready_def ctrl_inv_def)
  show "env_ok ex_env" by (rule ex_small)
qed (simp_all add: conf_wf_def conf_default_def ex_request_def parse_url_def)

section \<open>URLs and list requests\<close>

text \<open>
  \<^verbatim>\<open>parse_url\<close> splits \<^verbatim>\<open>/bucket/key\<close> at the first slash after the leading one, whatever the key
  contains; a target without a second slash has no key, and one that does not start with a slash
  has neither.
\<close>

lemma parse_url_splits:
  assumes "CHR ''/'' \<notin> set bucket"
  shows "parse_url (CHR ''/'' # bucket @ CHR ''/'' # key) = (bucket, key) \<and>
    parse_url (CHR ''/'' # bucket) = (bucket, []) \<and> parse_url bucket = ([], [])"
proof -
  have tw: "takeWhile (\<lambda>x. x \<noteq> CHR ''/'') (bucket @ CHR ''/'' # key) = bucket"
    using assms by (subst takeWhile_append2) auto
  have dw: "dropWhile (\<lambda>x. x \<noteq> CHR ''/'') (bucket @ CHR ''/'' # key) = CHR ''/'' # key"
    using assms by (subst dropWhile_append2) auto
  show ?thesis
    unfolding parse_url_def list.case tw dw using assms by (auto split: list.split)
qed

lemma parse_url_splits_example: "parse_url ''/b/a/c'' = (''b'', ''a/c'')"
  using parse_url_splits [of "''b''" "''a/c''"] by simp

lemma match_list_bucket:
  assumes "bucket \<noteq> []" and "CHR ''?'' \<notin> set bucket" and "ds \<noteq> []" and "list_all is_digit ds"
  shows "match_list (CHR ''/'' # bucket @ ''?max-keys='' @ ds) = Some (bucket, ds)"
proof -
  have tw: "takeWhile (\<lambda>x. x \<noteq> CHR ''?'') (bucket @ ''?max-keys='' @ ds) = bucket"
    using assms(2) by (subst takeWhile_append2) auto
  have dw: "dropWhile (\<lambda>x. x \<noteq> CHR ''?'') (bucket @ ''?max-keys='' @ ds) = ''?max-keys='' @ ds"
    using assms(2) by (subst dropWhile_append2) auto
  show ?thesis
    unfolding match_list_def list.case Let_def tw dw using assms by simp
qed

text \<open>
  A list request for a bucket with a limit that fits an \<open>int\<close> prints, into the handler's copy
  of the request, the listing of the bucket's first so many keys in visiting order.
\<close>

lemma list_request_prints:
  assumes "bucket \<noteq> []" and "CHR ''?'' \<notin> set bucket" and "n < 2 ^ 31"
    and "rq_target req = CHR ''/'' # bucket @ ''?max-keys='' @ dec_string n"
  shows "handle_list_request order req =
    bindR (Print (create_s3_list_objects_response (newXMLDocument True PRESERVE_WHITESPACE) bucket (int n) (take n order))
             (newXMLPrinter False 0)) (\<lambda>printer. Inr (req\<lparr>rq_body := CStr printer\<rparr>))"
  using assms dec_string_props [of n] match_list_bucket [of bucket "dec_string n"]
  by (simp add: handle_list_request_def stoi_def ListObjects_eq)



end
