(* ===== verification/Zstore_Gc.thy ===== *)
theory Zstore_Gc
  imports Zstore_Requests
begin

text \<open>
  Dumping the map and moving garbage-collected objects (\<^verbatim>\<open>src/src/zstore_controller.cc\<close>:
  \<^verbatim>\<open>dumpMap\<close>, \<^verbatim>\<open>Map2Tx\<close>, \<^verbatim>\<open>Map2Gc\<close> and the two workloads inside \<^verbatim>\<open>Checkpoint\<close>). The order in which
  \<^verbatim>\<open>visit_all\<close> visits the map is a list of its keys.
\<close>

section \<open>Dumping the map\<close>

definition entries_in :: "ObjectKeyHash list \<Rightarrow> (ObjectKeyHash \<rightharpoonup> MapEntry) \<Rightarrow> (ObjectKeyHash \<times> MapEntry) list" where
  "entries_in order m = List.map_filter (\<lambda>k. map_option (Pair k) (m k)) order"

text \<open>The pointers of \<^verbatim>\<open>dumpMap\<close> are pointers to the entries.\<close>

definition dumpMap :: "ObjectKeyHash list \<Rightarrow> (ObjectKeyHash \<rightharpoonup> MapEntry) \<Rightarrow> MapEntry list" where
  "dumpMap order m = map snd (entries_in order m)"

definition dumpRecentWriteMap :: "ObjectKeyHash set \<Rightarrow> MapEntry list" where
  "dumpRecentWriteMap s = []"

text \<open>
  \<^verbatim>\<open>Map2Tx\<close> allocates one buffer, at address \<open>buf\<close>, copies every entry into it in turn and pushes
  its address each time; then it cuts the array of these addresses. \<open>totalSize\<close> counts the
  entries, the pointer arithmetic counts in elements and \<^verbatim>\<open>memcpy\<close> in bytes.
\<close>

definition Map2Tx :: "conf \<Rightarrow> u64 \<Rightarrow> ObjectKeyHash list \<Rightarrow> (ObjectKeyHash \<rightharpoonup> MapEntry) \<Rightarrow> u8 list list res" where
  "Map2Tx c buf order m =
     (let tmpBuffer = map (\<lambda>_. buf) (entries_in order m);
          bytes = concat (map le64 tmpBuffer);
          bufferSize = unat (request_buffer_size c);
          totalSize = length tmpBuffer
      in if bufferSize = 0 then Inl DivByZero
         else foldR (\<lambda>i tx_map.
                let copySize = min bufferSize (totalSize - i * bufferSize) in
                bindR (mem_read bytes (8 * (i * bufferSize)) copySize) (\<lambda>chunk.
                  Inr (tx_map @ [chunk @ replicate (bufferSize - copySize) 0])))
              [0..<(totalSize + bufferSize - 1) div bufferSize] [])"

text \<open>
  \<^verbatim>\<open>Map2Gc\<close>: the first list collects the (shared) buffer once for each entry that is not
  tombstoned, so it is a number; the second collects, for a tombstoned entry with a replica on
  device 0, another replica's location and the length.
\<close>

definition gc_move :: "MapEntry \<Rightarrow> (Location \<times> u32) list" where
  "gc_move e =
     (if tombstoned e \<and> (device_id (loc0 e) = 0 \<or> device_id (loc1 e) = 0 \<or> device_id (loc2 e) = 0) then
        (if device_id (loc0 e) = 0 then [(loc1 e, len e)]
         else if device_id (loc1 e) = 0 then [(loc2 e, len e)]
         else if device_id (loc2 e) = 0 then [(loc0 e, len e)]
         else [])
      else [])"

definition Map2Gc :: "ObjectKeyHash list \<Rightarrow> (ObjectKeyHash \<rightharpoonup> MapEntry) \<Rightarrow> nat \<times> (Location \<times> u32) list" where
  "Map2Gc order m =
     fold (\<lambda>(k, e) (prunedObjects, gcObjectsToMove).
        (if \<not> tombstoned e then Suc prunedObjects else prunedObjects, gcObjectsToMove @ gc_move e))
      (entries_in order m) (0, [])"

section \<open>Batches\<close>

text \<open>The requests run in batches of 256; a batch is awaited before the next one starts.\<close>

function batches :: "nat \<Rightarrow> 'a list \<Rightarrow> 'a list list" where
  "batches n xs = (if xs = [] \<or> n = 0 then [] else take n xs # batches n (drop n xs))"
  by auto
termination by (relation "measure (\<lambda>(n, xs). length xs)") auto

declare batches.simps [simp del]

definition MAX_CONCURRENCY :: nat where
  "MAX_CONCURRENCY = 256"

definition run_batches :: "(nat \<times> ctx_ref \<Rightarrow> zctrl \<Rightarrow> zctrl res) \<Rightarrow> nat \<Rightarrow> ctx_ref list \<Rightarrow> zctrl \<Rightarrow> zctrl res" where
  "run_batches f k slots z = foldR (\<lambda>batch z. foldR f batch z) (batches MAX_CONCURRENCY (enumerate k slots)) z"

lemma concat_batches: "0 < n \<Longrightarrow> concat (batches n xs) = xs"
proof (induction n xs rule: batches.induct)
  case (1 n xs)
  then show ?case by (subst batches.simps) simp
qed

lemma batches_small: "0 < n \<Longrightarrow> b \<in> set (batches n xs) \<Longrightarrow> b \<noteq> [] \<and> length b \<le> n"
proof (induction n xs rule: batches.induct)
  case (1 n xs)
  from 1(3) show ?case by (subst (asm) batches.simps) (use 1 in \<open>auto split: if_splits\<close>)
qed

lemma foldR_concat: "foldR (foldR f) bs = foldR f (concat bs)"
proof (induction bs)
  case Nil
  show ?case by (rule ext) simp
next
  case (Cons b bs)
  show ?case by (rule ext) (simp add: foldR_append Cons)
qed

lemma run_batches_eq: "run_batches f k slots z = foldR f (enumerate k slots) z"
  by (simp add: run_batches_def foldR_concat concat_batches MAX_CONCURRENCY_def)

section \<open>The workloads of a checkpoint\<close>

definition gc_read_slots :: "conf \<Rightarrow> nat option \<Rightarrow> (Location \<times> u32) list \<Rightarrow> zctrl \<Rightarrow> (ctx_ref list \<times> zctrl) res" where
  "gc_read_slots c dev moves z =
     foldR (\<lambda>mv (slots, z).
        bindR (MakeReadRequest c dev (lba (fst mv)) (gObjectSizeInBytes c) z) (\<lambda>(s, z).
          Inr (slots @ [s], z))) moves ([], z)"

text \<open>For every read context a write of its buffer is set up; then the context goes back.\<close>

definition gc_write_slots :: "conf \<Rightarrow> nat option \<Rightarrow> ctx_ref list \<Rightarrow> zctrl \<Rightarrow> (ctx_ref list \<times> zctrl) res" where
  "gc_write_slots c dev reads z =
     foldR (\<lambda>s (slots, z).
        bindR (slot_ctx s z) (\<lambda>ctx.
        bindR (MakeWriteChunk c dev (dataBuffer ctx) (gObjectSizeInBytes c) z) (\<lambda>(w, z).
        bindR (return_slot None s z) (\<lambda>z. Inr (slots @ [w], z))))) reads ([], z)"

definition gc_workload :: "conf \<Rightarrow> http_env \<Rightarrow> zctrl \<Rightarrow> zctrl res" where
  "gc_workload c env z =
     (let (pruned, moves) = Map2Gc (visit_order env) (mMap z) in
      bindR (GetDevice ''Zstore2Dev1'' z) (\<lambda>dev.
      bindR (gc_read_slots c dev moves z) (\<lambda>(read_reqs, z).
      bindR (run_batches (\<lambda>(k, s). zoneRead (outcomes env k) (dma env k) s) 0 read_reqs z) (\<lambda>z.
      bindR (gc_write_slots c dev read_reqs z) (\<lambda>(write_reqs, z).
      bindR (run_batches (\<lambda>(k, s). zoneAppend (outcomes env k) s) (length read_reqs) write_reqs z) (\<lambda>z.
        foldR (return_slot None) write_reqs z))))))"

definition checkpoint_workload :: "conf \<Rightarrow> http_env \<Rightarrow> zctrl \<Rightarrow> zctrl res" where
  "checkpoint_workload c env z =
     bindR (Map2Tx c (vec_data env) (visit_order env) (mMap z)) (\<lambda>tx_map.
     bindR (cassert (length tx_map \<le> nat (mContextPoolSize z))) (\<lambda>_.
     bindR (GetDevice ''Zstore2Dev1'' z) (\<lambda>dev.
     bindR (foldR (\<lambda>buffer (slots, z).
          bindR (MakeWriteChunk c dev buffer (gObjectSizeInBytes c) z) (\<lambda>(s, z). Inr (slots @ [s], z)))
        tx_map ([], z)) (\<lambda>(reqs, z).
     bindR (run_batches (\<lambda>(k, s). zoneAppend (outcomes env k) s) 0 reqs z) (\<lambda>z.
       foldR (return_slot None) reqs z)))))"

section \<open>Garbage collection completes\<close>

text \<open>The contexts \<open>is\<close> are in use, and every one of them is set up for a request.\<close>

definition armed :: "conf \<Rightarrow> nat set \<Rightarrow> zctrl \<Rightarrow> nat list \<Rightarrow> nat list \<Rightarrow> zctrl \<Rightarrow> bool" where
  "armed c H z0 is js z \<longleftrightarrow> holding c H (is @ js) z \<and> io_frame H z0 z \<and>
     (\<forall>i \<in> set is \<union> set js. \<exists>ctx. heap z i = Some ctx \<and> has_ctrl ctx)"

lemma armed_add:
  assumes "armed c H z0 is js z" and "i \<notin> set (is @ js) \<union> H" and "ctrl_inv c z' (insert i (set (is @ js) \<union> H))"
    and "io_frame (set (is @ js) \<union> H) z z'" and "heap z' i = Some ctx" "has_ctrl ctx"
  shows "armed c H z0 is (js @ [i]) z'"
proof -
  have "io_frame H z0 z'" by (rule io_frame_trans [of H z0 z _ z']) (use assms(1,4) in \<open>auto simp: armed_def\<close>)
  moreover have "\<exists>ctx. heap z' j = Some ctx \<and> has_ctrl ctx" if "j \<in> set is \<union> set js" for j
    using assms(1) io_frame_heap [OF assms(4), of j] that by (auto simp: armed_def)
  ultimately show ?thesis using assms(1,2,3,5,6) by (auto simp: armed_def holding_def)
qed

lemma armed_inv: "armed c H z0 is js z \<Longrightarrow> ctrl_inv c z (set (is @ js) \<union> H)"
  by (simp add: armed_def holding_def)

lemma armed_complete:
  assumes "armed c H z0 is js z" and "i \<in> set is \<union> set js" and "completed c (set (is @ js) \<union> H) i z ctx z'" and "has_ctrl ctx"
  shows "armed c H z0 is js z'"
proof -
  have fr: "io_frame (- {i}) z z'" and inv: "ctrl_inv c z' (set (is @ js) \<union> H)" and ctx: "heap z' i = Some ctx"
    using assms(3) by (simp_all add: completed_def)
  have "i \<notin> H" using assms(1,2) by (auto simp: armed_def holding_def)
  then have "io_frame H z0 z'" by (intro io_frame_trans [OF _ fr, of H z0]) (use assms(1) in \<open>auto simp: armed_def\<close>)
  moreover have "\<exists>ctx. heap z' j = Some ctx \<and> has_ctrl ctx" if "j \<in> set is \<union> set js" for j
    using assms(1,4) ctx that io_frame_heap [OF fr, of j] by (cases "j = i") (auto simp: armed_def)
  ultimately show ?thesis using assms(1) inv by (simp add: armed_def holding_def)
qed

lemma armed_return:
  assumes "armed c H z0 (i # is) js z"
  shows "okR (return_slot None (None, i) z) (armed c H z0 is js)"
proof -
  have i: "i \<notin> set is" "i \<notin> set js" "i \<notin> H" using assms by (auto simp: armed_def holding_def)
  have H: "set ((i # is) @ js) \<union> H - {i} = set (is @ js) \<union> H" using i by auto
  show ?thesis
  proof (rule okR_mono [OF return_slot_ok [OF armed_inv [OF assms]]])
    fix z'
    assume z': "ctrl_inv c z' (set ((i # is) @ js) \<union> H - {i}) \<and> io_frame (- {i}) z z' \<and> mTotalCounts z' = mTotalCounts z"
    then have fr: "io_frame (- {i}) z z'" by simp
    have "io_frame H z0 z'" by (rule io_frame_trans [OF _ fr, of H z0]) (use assms i in \<open>auto simp: armed_def\<close>)
    moreover have "\<exists>ctx. heap z' j = Some ctx \<and> has_ctrl ctx" if "j \<in> set is \<union> set js" for j
    proof -
      have "j \<noteq> i" using that i by auto
      then have "heap z' j = heap z j" by (intro io_frame_heap [OF fr]) simp
      moreover have "\<exists>ctx. heap z j = Some ctx \<and> has_ctrl ctx" using assms that by (simp add: armed_def)
      ultimately show ?thesis by simp
    qed
    ultimately show "armed c H z0 is js z'" using assms z' H by (simp add: armed_def holding_def)
  qed simp
qed

lemma MakeWriteChunk_ok:
  assumes sm: "small_objects c" and inv: "ctrl_inv c z H" and dev: "device_ready (Some d) z"
    and buf: "length buffer = unat (request_buffer_size c)"
  shows "okR (MakeWriteChunk c (Some d) buffer (gObjectSizeInBytes c) z) (\<lambda>(s, z'). \<exists>i ctx. s = (None, i) \<and> i \<notin> H \<and>
    ctrl_inv c z' (insert i H) \<and> io_frame H z z' \<and> heap z' i = Some ctx \<and> has_ctrl ctx)"
proof -
  note sb = small_buffer [OF sm]
  have rep: "\<not> gReplayWorkload c" using sm by (simp add: small_objects_def)
  obtain i z1 ctx where g: "get_slot c (bytes_to_blocks c (gObjectSizeInBytes c)) z = Inr ((None, i), z1)" "i \<notin> H"
      "ctrl_inv c z1 (insert i H)" "io_frame H z z1" "slot_ctx (None, i) z1 = Inr ctx" "heap z1 i = Some ctx"
      "context_ok c ctx"
    by (rule get_slot_cases [OF rep inv])
  note dv = the_device_ready [OF dev [folded device_ready_frame [OF g(4)]], unfolded io_frame_fields(2) [OF g(4)]]
  have "unat (request_buffer_size c) = unat (gObjectSizeInBytes c)"
    unfolding sb(1) using unat_bound [of "gObjectSizeInBytes c"] by (simp add: unsigned_ucast_eq take_bit_nat_eq_self)
  then have sz: "unat (bufferSize ctx) = length buffer" "length (dataBuffer ctx) = length buffer"
      "bytes_to_blocks c (bufferSize ctx) = bytes_to_blocks c (gObjectSizeInBytes c)"
    using g(7) buf sb(4) by (simp_all add: context_ok_def)
  then have rw: "mem_read buffer 0 (unat (bufferSize ctx)) = Inr buffer" "mem_write (dataBuffer ctx) 0 buffer = Inr buffer"
    by (simp_all add: mem_read_def mem_write_def)
  let ?f = "\<lambda>ctx. ctx\<lparr>has_ctrl := True, dataBuffer := buffer,
      ioContext := \<lparr>io_ns = mNamespace (mDevices z ! d), io_qpair = hd (mIoQueues (mDevices z ! d)),
        io_offset = zone_base c (mDevices z ! d), io_size = bytes_to_blocks c (bufferSize ctx), io_flags = 0\<rparr>,
      io_thread := Some 0, rc_device := Some d, is_write := True\<rparr>"
  have "okR (update_slot (None, i) ?f z1) (\<lambda>z'. i \<notin> H \<and> ctrl_inv c z' (insert i H) \<and> io_frame H z z' \<and>
      (\<exists>ctx. heap z' i = Some ctx \<and> request_for c (mDevices z ! d) (zone_base c (mDevices z ! d))
         (bytes_to_blocks c (gObjectSizeInBytes c)) True ctx))"
    by (rule fill_request [OF g(3,2,4)]) (use g(6,7) buf sz in \<open>auto simp: request_for_def context_ok_def\<close>)
  then show ?thesis
    using g(1,5) dv rw sz(3)
    by (simp add: MakeWriteChunk_def Let_def io_frame_fields [OF g(4)]) (erule okR_mono, auto simp: request_for_def)
qed

lemma armed_ready: "armed c H z0 is js z \<Longrightarrow> device_ready dev z = device_ready dev z0"
  unfolding armed_def using device_ready_frame by blast

lemma gc_read_slots_ok:
  assumes sm: "small_objects c" and inv: "ctrl_inv c z H" and dev: "device_ready (Some d) z"
  shows "okR (gc_read_slots c (Some d) moves z) (\<lambda>(slots, z'). \<exists>is. slots = map (Pair None) is \<and>
    length is = length moves \<and> armed c H z is [] z')"
proof -
  let ?P = "\<lambda>pre (slots, z'). \<exists>is. slots = map (Pair None) is \<and> length is = length pre \<and> armed c H z [] is z'"
  have rep: "\<not> gReplayWorkload c" using sm by (simp add: small_objects_def)
  have "okR (gc_read_slots c (Some d) moves z) (?P moves)"
    unfolding gc_read_slots_def
  proof (rule okR_foldR [where P = ?P])
    show "?P [] ([], z)" using inv by (simp add: armed_def)
  next
    fix pre :: "(Location \<times> u32) list" and mv and s :: "ctx_ref list \<times> zctrl"
    assume "?P pre s"
    then obtain "is" z1 where s: "s = (map (Pair None) is, z1)" "length is = length pre" "armed c H z [] is z1" by auto
    have "device_ready (Some d) z1" using armed_ready [OF s(3)] dev by simp
    then show "okR (case s of (slots, z) \<Rightarrow> bindR (MakeReadRequest c (Some d) (lba (fst mv)) (gObjectSizeInBytes c) z)
        (\<lambda>(s, z). Inr (slots @ [s], z))) (?P (pre @ [mv]))"
      unfolding s(1) prod.case okR_bindR
      by (rule okR_mono [OF MakeReadRequest_ok [OF rep armed_inv [OF s(3)]]])
         (use s(2) in \<open>auto simp: request_for_def intro!: exI [of _ "is @ [i]" for i] armed_add [OF s(3)]\<close>)
  qed
  then show ?thesis by (rule okR_mono) (auto simp: armed_def)
qed

lemma gc_reads_ok:
  assumes sm: "small_objects c" and cpl: "\<And>k. outcomes env k = Completed (cpl k)"
    and dma: "\<And>k. length (dma env k) = unat (request_buffer_size c)"
  shows "armed c H z0 is [] z \<Longrightarrow> set js \<subseteq> set is \<Longrightarrow>
    okR (foldR (\<lambda>(k, s). zoneRead (outcomes env k) (dma env k) s) (enumerate n (map (Pair None) js)) z) (armed c H z0 is [])"
proof (induction js arbitrary: z n)
  case Nil
  then show ?case by simp
next
  case (Cons j js)
  obtain ctx where ctx: "heap z j = Some ctx" "has_ctrl ctx" using Cons.prems by (auto simp: armed_def)
  have j: "j \<in> set (is @ []) \<union> H" using Cons.prems(2) by simp
  have step: "okR (zoneRead (outcomes env n) (dma env n) (None, j) z) (armed c H z0 is [])"
    unfolding cpl
    by (rule okR_mono [OF zoneRead_ok [OF armed_inv [OF Cons.prems(1)] j ctx small_buffer(3) [OF sm] dma]])
       (erule armed_complete [OF Cons.prems(1), rotated], use Cons.prems(2) ctx in auto)
  show ?case by (simp, rule okR_mono [OF step], rule Cons.IH) (use Cons.prems(2) in auto)
qed

lemma gc_appends_ok:
  assumes cpl: "\<And>k. outcomes env k = Completed (cpl k)"
  shows "armed c H z0 [] is z \<Longrightarrow> set js \<subseteq> set is \<Longrightarrow>
    okR (foldR (\<lambda>(k, s). zoneAppend (outcomes env k) s) (enumerate n (map (Pair None) js)) z) (armed c H z0 [] is)"
proof (induction js arbitrary: z n)
  case Nil
  then show ?case by simp
next
  case (Cons j js)
  obtain ctx where ctx: "heap z j = Some ctx" "has_ctrl ctx" using Cons.prems by (auto simp: armed_def)
  have j: "j \<in> set ([] @ is) \<union> H" using Cons.prems(2) by simp
  have step: "okR (zoneAppend (outcomes env n) (None, j) z) (armed c H z0 [] is)"
    unfolding cpl
    by (rule okR_mono [OF zoneAppend_ok [OF armed_inv [OF Cons.prems(1)] j ctx]])
       (erule armed_complete [OF Cons.prems(1), rotated], use Cons.prems(2) ctx in auto)
  show ?case by (simp, rule okR_mono [OF step], rule Cons.IH) (use Cons.prems(2) in auto)
qed

lemma gc_write_slots_ok:
  assumes sm: "small_objects c" and dev: "device_ready (Some d) z0"
  shows "armed c H z0 is js z \<Longrightarrow>
    okR (foldR (\<lambda>s (slots, z). bindR (slot_ctx s z) (\<lambda>ctx.
        bindR (MakeWriteChunk c (Some d) (dataBuffer ctx) (gObjectSizeInBytes c) z) (\<lambda>(w, z).
        bindR (return_slot None s z) (\<lambda>z. Inr (slots @ [w], z))))) (map (Pair None) is) (map (Pair None) js, z))
      (\<lambda>(slots, z'). \<exists>ks. slots = map (Pair None) ks \<and> length ks = length is + length js \<and> armed c H z0 [] ks z')"
proof (induction "is" arbitrary: js z)
  case Nil
  then show ?case by auto
next
  case (Cons i "is")
  note inv = armed_inv [OF Cons.prems]
  obtain ctx where ctx: "heap z i = Some ctx" using Cons.prems by (auto simp: armed_def)
  have held: "slot_ctx (None, i) z = Inr ctx" "context_ok c ctx" using held_context [OF inv _ ctx] by simp_all
  have "device_ready (Some d) z" using armed_ready [OF Cons.prems] dev by simp
  then obtain w z1 where w: "MakeWriteChunk c (Some d) (dataBuffer ctx) (gObjectSizeInBytes c) z = Inr ((None, w), z1)"
      "armed c H z0 (i # is) (js @ [w]) z1"
    using MakeWriteChunk_ok [OF sm inv, of d "dataBuffer ctx"] held(2) armed_add [OF Cons.prems]
    by (auto elim!: okRE simp: context_ok_def)
  obtain z2 where z2: "return_slot None (None, i) z1 = Inr z2" "armed c H z0 is (js @ [w]) z2"
    using armed_return [OF w(2)] by (auto elim!: okRE)
  show ?case using Cons.IH [OF z2(2)] held(1) w(1) z2(1) by simp
qed

text \<open>The whole workload, for objects that fit a chunk.\<close>

lemma gc_workload_ok:
  assumes sm: "small_objects c" and cpl: "\<And>k. outcomes env k = Completed (cpl k)"
    and dma: "\<And>k. length (dma env k) = unat (request_buffer_size c)" and ready: "system_ready c z H"
  shows "okR (gc_workload c env z) (\<lambda>z'. ctrl_inv c z' H \<and> io_frame H z z')"
proof -
  let ?moves = "snd (Map2Gc (visit_order env) (mMap z))"
  have inv: "ctrl_inv c z H" and dev: "device_ready (Some 0) z" and get: "GetDevice ''Zstore2Dev1'' z = Inr (Some 0)"
    using ready by (auto simp: system_ready_def device_ready_def GetDevice_def device_at_def)
  obtain "is" z1 where r: "gc_read_slots c (Some 0) ?moves z = Inr (map (Pair None) is, z1)" "armed c H z is [] z1"
    using gc_read_slots_ok [OF sm inv dev, of ?moves] by (auto elim!: okRE)
  obtain z2 where z2: "foldR (\<lambda>(k, s). zoneRead (outcomes env k) (dma env k) s) (enumerate 0 (map (Pair None) is)) z1 = Inr z2"
      "armed c H z is [] z2"
    using gc_reads_ok [where js = "is" and n = 0, OF sm cpl dma r(2)] by (auto elim!: okRE)
  obtain ks z3 where w: "gc_write_slots c (Some 0) (map (Pair None) is) z2 = Inr (map (Pair None) ks, z3)" "armed c H z [] ks z3"
    using gc_write_slots_ok [OF sm dev z2(2)] unfolding gc_write_slots_def by (auto elim!: okRE)
  obtain z4 where z4: "foldR (\<lambda>(k, s). zoneAppend (outcomes env k) s) (enumerate (length is) (map (Pair None) ks)) z3 = Inr z4"
      "armed c H z [] ks z4"
    using gc_appends_ok [where js = ks and n = "length is", OF cpl w(2)] by (auto elim!: okRE)
  have hold: "distinct ks" "set ks \<subseteq> set ks \<union> H" "set ks \<union> H - set ks = H" "ctrl_inv c z4 (set ks \<union> H)" "io_frame H z z4"
    using z4(2) by (auto simp: armed_def holding_def)
  obtain z5 where z5: "foldR (return_slot None) (map (Pair None) ks) z4 = Inr z5" "ctrl_inv c z5 H" "io_frame (- set ks) z4 z5"
    using return_all_ok [OF hold(1,2,4)] hold(3) by (auto elim!: okRE)
  have "io_frame H z z5" by (rule io_frame_trans [OF hold(5) z5(3)]) (use hold(3) in auto)
  then show ?thesis using get r(1) z2(1) w(1) z4(1) z5(1,2)
    by (simp add: gc_workload_def case_prod_beta run_batches_eq)
qed

text \<open>
  (C9) A garbage collection of a ready system whose commands the devices complete always finishes.
  It gives every context back, the contexts of other requests keep their contents, and the whole
  controller state but the pool and the request counter is unchanged: in particular the map still
  names the old locations of the objects that were moved.
\<close>

theorem gc_completes:
  assumes "small_objects c" and "\<And>k. outcomes env k = Completed (cpl k)"
    and "\<And>k. length (dma env k) = unat (request_buffer_size c)" and "system_ready c z H"
  shows "\<exists>z'. gc_workload c env z = Inr z' \<and> system_ready c z' H \<and> mMap z' = mMap z \<and>
    (\<forall>i \<in> H. heap z' i = heap z i)"
proof -
  obtain z' where z': "gc_workload c env z = Inr z'" "ctrl_inv c z' H" "io_frame H z z'"
    using gc_workload_ok [OF assms] by (auto elim!: okRE)
  then show ?thesis using assms(4) io_frame_heap [OF z'(3)]
    by (auto simp: system_ready_def io_frame_fields [OF z'(3)])
qed

definition ex_entry :: MapEntry where
  "ex_entry = \<lparr>locations = (\<lparr>device_id = 0, lba = 5\<rparr>, \<lparr>device_id = 1, lba = 6\<rparr>,
     \<lparr>device_id = 2, lba = 7\<rparr>), len = 1, tombstoned = True\<rparr>"

definition ex_gc :: zctrl where
  "ex_gc = ex_zctrl\<lparr>mMap := [replicate 32 0 \<mapsto> ex_entry]\<rparr>"

definition ex_gc_env :: http_env where
  "ex_gc_env = ex_env\<lparr>visit_order := [replicate 32 0],
     dma := \<lambda>_. replicate (unat (request_buffer_size conf_default)) 9\<rparr>"

lemma ex_gc_ready: "system_ready conf_default ex_gc {}"
  using ex_ready by (simp add: ex_gc_def system_ready_def ctrl_inv_def)

theorem gc_completes_witness:
  "snd (Map2Gc (visit_order ex_gc_env) (mMap ex_gc)) \<noteq> [] \<and>
   (\<exists>z'. gc_workload conf_default ex_gc_env ex_gc = Inr z' \<and> system_ready conf_default z' {} \<and> mMap z' = mMap ex_gc)"
proof -
  have "outcomes ex_gc_env k = Completed \<lparr>cpl_error = False, cdw0 = 7\<rparr>" for k
    by (simp add: ex_gc_env_def ex_env_def)
  moreover have "length (dma ex_gc_env k) = unat (request_buffer_size conf_default)" for k
    by (simp add: ex_gc_env_def)
  moreover have "snd (Map2Gc (visit_order ex_gc_env) (mMap ex_gc)) \<noteq> []"
    by (simp add: Map2Gc_def entries_in_def List.map_filter_def gc_move_def ex_gc_env_def ex_gc_def ex_entry_def)
  ultimately show ?thesis
    using gc_completes [OF ex_small(1) _ _ ex_gc_ready, of ex_gc_env "\<lambda>_. \<lparr>cpl_error = False, cdw0 = 7\<rparr>"] by blast
qed

section \<open>What is dumped and what is moved\<close>

text \<open>A complete visit of the map.\<close>

definition visits :: "ObjectKeyHash list \<Rightarrow> (ObjectKeyHash \<rightharpoonup> MapEntry) \<Rightarrow> bool" where
  "visits order m \<longleftrightarrow> distinct order \<and> set order = dom m"

lemma entries_in_visits:
  assumes "visits order m"
  shows "entries_in order m = map (\<lambda>k. (k, the (m k))) order"
proof -
  have "entries_in order m = map (\<lambda>k. (k, the (m k))) order" if "set order \<subseteq> dom m"
    using that by (induction order) (auto simp: entries_in_def List.map_filter_simps)
  then show ?thesis using assms by (simp add: visits_def)
qed

lemma Map2Gc_eq:
  "Map2Gc order m = (length (filter (\<lambda>(k, e). \<not> tombstoned e) (entries_in order m)),
     concat (map (gc_move \<circ> snd) (entries_in order m)))"
proof -
  have "fold (\<lambda>(k, e) (n, ms). (if \<not> tombstoned e then Suc n else n, ms @ gc_move e)) xs (n, ms) =
      (n + length (filter (\<lambda>(k, e). \<not> tombstoned e) xs), ms @ concat (map (gc_move \<circ> snd) xs))"
    for xs :: "(ObjectKeyHash \<times> MapEntry) list" and n ms
    by (induction xs arbitrary: n ms) auto
  then show ?thesis by (simp add: Map2Gc_def)
qed

text \<open>
  Garbage collection selects every tombstoned object with a replica on device 0 exactly once
  and no live object; what it notes is the location of a replica that is \<^emph>\<open>not\<close> the first one found on
  device 0, so for replicas on three different devices never a location on device 0. The first
  result counts the live objects.
\<close>

lemma Map2Gc_selects:
  assumes "visits order m" and "\<And>k e. m k = Some e \<Longrightarrow> replicas_ok e"
  shows "fst (Map2Gc order m) = card {k. \<exists>e. m k = Some e \<and> \<not> tombstoned e} \<and>
    length (snd (Map2Gc order m)) = card {k. \<exists>e. m k = Some e \<and> tombstoned e \<and>
       (\<exists>l \<in> {loc0 e, loc1 e, loc2 e}. device_id l = 0)} \<and>
    (\<forall>(l, n) \<in> set (snd (Map2Gc order m)). device_id l \<noteq> 0 \<and>
       (\<exists>k e. m k = Some e \<and> tombstoned e \<and> l \<in> {loc0 e, loc1 e, loc2 e} \<and> len e = n))"
proof (intro conjI)
  note ent = entries_in_visits [OF assms(1)]
  have dist: "distinct order" and dom: "set order = dom m" using assms(1) by (simp_all add: visits_def)
  have count: "length (filter P order) = card {k. k \<in> dom m \<and> P k}" for P
    using dist dom by (simp add: distinct_length_filter Int_def conj_commute)
  have cong: "{k. k \<in> dom m \<and> P (the (m k))} = {k. \<exists>e. m k = Some e \<and> P e}" for P
    by force
  show "fst (Map2Gc order m) = card {k. \<exists>e. m k = Some e \<and> \<not> tombstoned e}"
    using count [of "\<lambda>k. \<not> tombstoned (the (m k))"] cong [of "\<lambda>e. \<not> tombstoned e"]
    by (simp add: Map2Gc_eq ent filter_map comp_def)
  let ?Q = "\<lambda>e. tombstoned e \<and> (\<exists>l \<in> {loc0 e, loc1 e, loc2 e}. device_id l = 0)"
  have "length (gc_move e) = (if ?Q e then 1 else 0)" for e
    by (auto simp: gc_move_def)
  then have "length (concat (map (gc_move \<circ> snd) (map (\<lambda>k. (k, the (m k))) ks))) = length (filter (\<lambda>k. ?Q (the (m k))) ks)" for ks
    by (induction ks) auto
  then show "length (snd (Map2Gc order m)) = card {k. \<exists>e. m k = Some e \<and> ?Q e}"
    using count [of "\<lambda>k. ?Q (the (m k))"] cong [of ?Q] by (simp add: Map2Gc_eq ent)
  show "\<forall>(l, n) \<in> set (snd (Map2Gc order m)). device_id l \<noteq> 0 \<and>
       (\<exists>k e. m k = Some e \<and> tombstoned e \<and> l \<in> {loc0 e, loc1 e, loc2 e} \<and> len e = n)"
  proof clarify
    fix l n
    assume "(l, n) \<in> set (snd (Map2Gc order m))"
    then obtain k where k: "k \<in> dom m" "(l, n) \<in> set (gc_move (the (m k)))"
      using dom by (auto simp: Map2Gc_eq ent)
    then obtain e where e: "m k = Some e" "(l, n) \<in> set (gc_move e)" by auto
    then show "device_id l \<noteq> 0 \<and> (\<exists>k e. m k = Some e \<and> tombstoned e \<and> l \<in> {loc0 e, loc1 e, loc2 e} \<and> len e = n)"
      using assms(2) [OF e(1)] by (auto simp: gc_move_def replicas_ok_def split: if_splits)
  qed
qed

lemma Map2Gc_selects_example:
  "visits [replicate 32 0] (mMap ex_gc) \<and> length (snd (Map2Gc [replicate 32 0] (mMap ex_gc))) = 1"
proof -
  have v: "visits [replicate 32 0] (mMap ex_gc)" by (simp add: visits_def ex_gc_def)
  have r: "replicas_ok e" if "mMap ex_gc k = Some e" for k e
    using that by (auto simp: ex_gc_def ex_entry_def replicas_ok_def split: if_splits)
  have "{k. \<exists>e. mMap ex_gc k = Some e \<and> tombstoned e \<and> (\<exists>l \<in> {loc0 e, loc1 e, loc2 e}. device_id l = 0)} = {replicate 32 0}"
    by (auto simp: ex_gc_def ex_entry_def split: if_splits)
  then show ?thesis using v Map2Gc_selects [OF v r] by simp
qed

lemma Map2Tx_ok:
  assumes "0 < request_buffer_size c"
  shows "okR (Map2Tx c buf order m) (\<lambda>tx. length tx = (length (entries_in order m) + unat (request_buffer_size c) - 1) div unat (request_buffer_size c) \<and>
    (\<forall>b \<in> set tx. length b = unat (request_buffer_size c)))"
proof -
  define bs where "bs = unat (request_buffer_size c)"
  define n where "n = length (entries_in order m)"
  define bytes where "bytes = concat (map (le64 \<circ> (\<lambda>_. buf)) (entries_in order m))"
  have bs: "0 < bs" using assms by (simp add: bs_def word_less_nat_alt)
  have len: "length bytes = 8 * n" by (simp add: bytes_def n_def length_concat comp_def sum_list_triv codec_simps)
  let ?P = "\<lambda>pre tx. length tx = length pre \<and> (\<forall>b \<in> set tx. length b = bs)"
  have "okR (foldR (\<lambda>i tx_map. bindR (mem_read bytes (8 * (i * bs)) (min bs (n - i * bs)))
      (\<lambda>chunk. Inr (tx_map @ [chunk @ replicate (bs - min bs (n - i * bs)) 0]))) [0..<(n + bs - 1) div bs] [])
      (?P [0..<(n + bs - 1) div bs])"
  proof (rule okR_foldR [where P = ?P])
    show "?P [] []" by simp
  next
    fix pre i post and tx :: "u8 list list"
    assume i: "[0..<(n + bs - 1) div bs] = pre @ i # post" and tx: "?P pre tx"
    have "i \<in> set [0..<(n + bs - 1) div bs]" unfolding i by simp
    then have "i * bs < n" using bs less_eq_div_iff_mult_less_eq [of bs "Suc i" "n + bs - 1"] by auto
    then have "8 * (i * bs) + min bs (n - i * bs) \<le> length bytes" unfolding len by linarith
    then show "okR (bindR (mem_read bytes (8 * (i * bs)) (min bs (n - i * bs)))
        (\<lambda>chunk. Inr (tx @ [chunk @ replicate (bs - min bs (n - i * bs)) 0]))) (?P (pre @ [i]))"
      using tx by (auto simp: mem_read_def)
  qed
  then show ?thesis using bs by (simp add: Map2Tx_def Let_def bytes_def [symmetric] bs_def [symmetric] n_def [symmetric])
qed

text \<open>
  \<^verbatim>\<open>Map2Tx\<close> succeeds for every map and yields as many chunks of the buffer size as it takes to hold
  one byte for each entry. The chunks do not depend on what the map holds, only on how many entries
  there are: two maps of the same size give the same bytes.
\<close>

lemma Map2Tx_ignores_contents:
  assumes "0 < request_buffer_size c"
  shows "\<exists>tx. Map2Tx c buf order m = Inr tx \<and>
    length tx = (length (entries_in order m) + unat (request_buffer_size c) - 1) div unat (request_buffer_size c) \<and>
    (\<forall>b \<in> set tx. length b = unat (request_buffer_size c)) \<and>
    (\<forall>order' m'. length (entries_in order' m') = length (entries_in order m) \<longrightarrow> Map2Tx c buf order' m' = Inr tx)"
proof -
  obtain tx where tx: "Map2Tx c buf order m = Inr tx" "length tx = (length (entries_in order m) + unat (request_buffer_size c) - 1) div unat (request_buffer_size c)"
      "\<forall>b \<in> set tx. length b = unat (request_buffer_size c)"
    using Map2Tx_ok [OF assms, of buf order m] by (auto elim!: okRE)
  have same: "Map2Tx c buf order' m' = Inr tx" if "length (entries_in order' m') = length (entries_in order m)" for order' m'
  proof -
    have "map (\<lambda>_. buf) (entries_in order' m') = map (\<lambda>_. buf) (entries_in order m)"
      by (simp only: map_replicate_const that)
    then show ?thesis using tx(1) unfolding Map2Tx_def by (simp only:)
  qed
  show ?thesis by (intro exI [of _ tx] conjI tx allI impI same)
qed

lemma Map2Tx_ignores_contents_example:
  "\<exists>tx. Map2Tx conf_default 4096 [replicate 32 0] (mMap ex_gc) = Inr tx \<and> length tx = 1 \<and>
     Map2Tx conf_default 4096 [replicate 32 1] [replicate 32 1 \<mapsto> ex_entry] = Inr tx"
proof -
  have pos: "0 < request_buffer_size conf_default" by (simp add: request_buffer_size_def conf_default_def)
  have e: "length (entries_in [replicate 32 0] (mMap ex_gc)) = 1" "length (entries_in [replicate 32 1] [replicate 32 1 \<mapsto> ex_entry]) = 1"
    by (simp_all add: entries_in_def List.map_filter_simps ex_gc_def)
  have "0 < unat (request_buffer_size conf_default)" using pos by (simp add: word_less_nat_alt)
  then show ?thesis using Map2Tx_ignores_contents [OF pos, of 4096 "[replicate 32 0]" "mMap ex_gc"] e by auto
qed

end
