(* ===== verification/Zstore_Zk.thy ===== *)
theory Zstore_Zk
  imports Zstore_Gc
begin

text \<open>
  Leader election, transaction nodes and checkpoints over ZooKeeper
  (\<^verbatim>\<open>src/src/zstore_controller.cc\<close>: \<^verbatim>\<open>createZnodes\<close>, \<^verbatim>\<open>getNodeData\<close>, \<^verbatim>\<open>checkTxChange\<close>,
  \<^verbatim>\<open>checkChildrenChange\<close>, the watchers, \<^verbatim>\<open>ZkSet\<close>, \<^verbatim>\<open>Checkpoint\<close>, \<^verbatim>\<open>SetupZookeeper\<close>).

  The ZooKeeper client library is a parameter: a record of its calls as functions on a service
  state \<open>'k\<close>. Each call returns its result code, and \<open>ZOK\<close> is success. What the code relies on is
  the predicate \<open>zk_contract\<close>. The calls of one function run in program order; watchers run as
  calls of their own.
\<close>

section \<open>The client library\<close>

text \<open>
  The answer of \<^verbatim>\<open>zoo_get\<close>: the length it stores through its pointer argument (-1 for a node
  without data), the bytes the buffer then holds and the length of the node's data.
\<close>

record zget =
  g_rc :: int
  g_len :: int
  g_bytes :: string
  g_dataLength :: int

datatype zk_watcher = TxWatcherCb | LeaderWatcherCb

record 'k zookeeper =
  zoo_exists :: "string \<Rightarrow> 'k \<Rightarrow> int \<times> 'k"
  zoo_wexists :: "string \<Rightarrow> zk_watcher \<Rightarrow> 'k \<Rightarrow> int \<times> 'k"
  zoo_create :: "string \<Rightarrow> string \<Rightarrow> bool \<Rightarrow> bool \<Rightarrow> 'k \<Rightarrow> int \<times> 'k"
  zoo_get :: "string \<Rightarrow> int \<Rightarrow> 'k \<Rightarrow> zget \<times> 'k"
  zoo_get_children :: "string \<Rightarrow> 'k \<Rightarrow> int \<times> string list \<times> 'k"
  zoo_delete :: "string \<Rightarrow> 'k \<Rightarrow> int \<times> 'k"
  zoo_set :: "string \<Rightarrow> string \<Rightarrow> 'k \<Rightarrow> int \<times> 'k"
  zookeeper_close :: "'k \<Rightarrow> 'k"

definition ZOK :: int where
  "ZOK = 0"

definition election_root :: string where
  "election_root = ''/election''"

definition tx_root :: string where
  "tx_root = ''/tx''"

section \<open>Node data\<close>

text \<open>
  The loop of \<^verbatim>\<open>getNodeData\<close> asks again with a larger buffer while the data does not fit; \<open>fuel\<close>
  bounds the rounds.
\<close>

fun node_data_loop :: "'k zookeeper \<Rightarrow> nat \<Rightarrow> string \<Rightarrow> int \<Rightarrow> 'k \<Rightarrow> (string \<times> 'k) res" where
  "node_data_loop zk 0 path blen k = Inl Unfinished"
| "node_data_loop zk (Suc fuel) path blen k =
     (let (g, k) = zoo_get zk path blen k in
      if g_rc g = ZOK then
        if g_dataLength g > g_len g then node_data_loop zk fuel path (g_dataLength g) k
        else if g_len g < 0 then Inl LengthError
        else Inr (g_bytes g, k)
      else Inr ([], k))"

definition getNodeData :: "'k zookeeper \<Rightarrow> nat \<Rightarrow> string \<Rightarrow> 'k \<Rightarrow> (string \<times> 'k) res" where
  "getNodeData zk fuel path k = node_data_loop zk fuel path 256 k"

section \<open>Electing the leader\<close>

text \<open>\<^verbatim>\<open>atoi\<close>: white space, a sign, digits. A value outside \<^verbatim>\<open>int\<close> is undefined.\<close>

definition is_space :: "char \<Rightarrow> bool" where
  "is_space ch \<longleftrightarrow> of_char ch \<in> {9, 10, 11, 12, 13, 32 :: nat}"

definition digit_val :: "char \<Rightarrow> int" where
  "digit_val ch = of_char ch - 48"

definition atoi :: "string \<Rightarrow> int res" where
  "atoi s =
     (let s = dropWhile is_space s;
          (neg, t) = (case s of [] \<Rightarrow> (False, []) | ch # cs \<Rightarrow>
             if ch = CHR ''-'' then (True, cs) else if ch = CHR ''+'' then (False, cs) else (False, s));
          v = fold (\<lambda>ch v. 10 * v + digit_val ch) (takeWhile is_digit t) 0;
          r = (if neg then - v else v)
      in if - (2 ^ 31) \<le> r \<and> r < 2 ^ 31 then Inr r else Inl OutOfRange)"

text \<open>\<^verbatim>\<open>::atoi(&name[2])\<close>\<close>

definition seq_of :: "string \<Rightarrow> int res" where
  "seq_of nm = (if length nm < 2 then Inl OutOfBounds else atoi (drop 2 nm))"

text \<open>The first child with the least sequence number.\<close>

definition find_leader :: "string list \<Rightarrow> nat res" where
  "find_leader children =
     bindR (foldR (\<lambda>i (min_seq, j).
         bindR (seq_of (children ! i)) (\<lambda>t.
           Inr (if i = 0 \<or> min_seq > t then (t, i) else (min_seq, j))))
       [0..<length children] (0, 0)) (\<lambda>(min_seq, j). Inr j)"

definition checkChildrenChange :: "'k zookeeper \<Rightarrow> nat \<Rightarrow> zctrl \<times> 'k \<Rightarrow> (zctrl \<times> 'k) res" where
  "checkChildrenChange zk fuel = (\<lambda>(z, k).
     let (rc, children, k) = zoo_get_children zk election_root k in
     if rc = ZOK \<and> children \<noteq> [] then
       bindR (find_leader children) (\<lambda>j.
       let path = election_root @ ''/'' @ children ! j in
       bindR (getNodeData zk fuel path k) (\<lambda>(logged, k).
       bindR (getNodeData zk fuel path k) (\<lambda>(name, k).
         Inr (z\<lparr>leaderNodeName := name\<rparr>, k))))
     else Inr (z, k))"

text \<open>The root nodes get the first ten characters of their descriptions as data.\<close>

definition create_root :: "'k zookeeper \<Rightarrow> string \<Rightarrow> string \<Rightarrow> 'k \<Rightarrow> 'k" where
  "create_root zk path description k =
     (let (rc, k) = zoo_exists zk path k in
      if rc \<noteq> ZOK then snd (zoo_create zk path (take 10 description) False False k) else k)"

definition createZnodes :: "'k zookeeper \<Rightarrow> nat \<Rightarrow> zctrl \<times> 'k \<Rightarrow> (zctrl \<times> 'k) res" where
  "createZnodes zk fuel = (\<lambda>(z, k).
     let k = create_root zk election_root ''leader election'' k;
         k = create_root zk tx_root ''transaction'' k;
         path = election_root @ ''/n_'';
         k = (if nodeName z \<noteq> [] then snd (zoo_create zk path (nodeName z) True True k) else k)
     in checkChildrenChange zk fuel (z, k))"

section \<open>Transaction nodes\<close>

text \<open>The length goes through the loop: \<^verbatim>\<open>zoo_get\<close> stores the length it read there.\<close>

definition tx_child :: "'k zookeeper \<Rightarrow> string \<Rightarrow> int \<times> 'k \<Rightarrow> (int \<times> 'k) res" where
  "tx_child zk child = (\<lambda>(blen, k).
     let tx_path = tx_root @ ''/'' @ child;
         (g, k) = zoo_get zk tx_path blen k
     in if g_rc g \<noteq> ZOK then Inr (g_len g, k)
        else if g_len g < 0 then Inl LengthError
        else if g_bytes g = ''empty_'' then Inr (g_len g, k)
        else if g_bytes g = ''commit'' then Inr (g_len g, snd (zoo_delete zk tx_path k))
        else if g_bytes g = ''abort_'' then Inr (g_len g, snd (zoo_delete zk tx_path k))
        else Inr (g_len g, k))"

definition checkTxChange :: "'k zookeeper \<Rightarrow> 'k \<Rightarrow> 'k res" where
  "checkTxChange zk k =
     (let (rc, children, k) = zoo_get_children zk tx_root k in
      if rc = ZOK then bindR (foldR (tx_child zk) children (6, k)) (\<lambda>(blen, k). Inr k)
      else Inr k)"

text \<open>
  \<^verbatim>\<open>ZkSet\<close> passes ten bytes whatever the length of its argument; \<open>after\<close> is what lies behind the
  argument's terminating zero.
\<close>

definition ZkSet :: "'k zookeeper \<Rightarrow> string \<Rightarrow> string \<Rightarrow> string \<Rightarrow> 'k \<Rightarrow> 'k" where
  "ZkSet zk after path data k = snd (zoo_set zk path (take 10 (data @ [CHR 0x00] @ after)) k)"

section \<open>Watchers\<close>

datatype zk_event = ZOO_CHANGED_EVENT | ZOO_CHILD_EVENT | ZOO_SESSION_EVENT | ZOO_OTHER_EVENT
datatype zk_state = ZOO_CONNECTED_STATE | ZOO_NOTCONNECTED_STATE | ZOO_EXPIRED_SESSION_STATE | ZOO_OTHER_STATE

definition children_or_znodes :: "'k zookeeper \<Rightarrow> nat \<Rightarrow> zk_event \<Rightarrow> zk_state \<Rightarrow> zctrl \<times> 'k \<Rightarrow> (zctrl \<times> 'k) res" where
  "children_or_znodes zk fuel type state s =
     (if state = ZOO_CONNECTED_STATE then
        if type = ZOO_CHILD_EVENT then checkChildrenChange zk fuel s else createZnodes zk fuel s
      else Inr s)"

definition LeaderWatcher ::
  "'k zookeeper \<Rightarrow> string \<Rightarrow> nat \<Rightarrow> zk_event \<Rightarrow> zk_state \<Rightarrow> zctrl \<times> 'k \<Rightarrow> (zctrl \<times> 'k) res" where
  "LeaderWatcher zk after fuel type state = (\<lambda>(z, k).
     let k = (if type = ZOO_CHANGED_EVENT then ZkSet zk after (tx_root @ ''/'' @ nodeName z) ''commit'' k else k)
     in children_or_znodes zk fuel type state (z, k))"

definition TxWatcher :: "'k zookeeper \<Rightarrow> zk_event \<Rightarrow> zctrl \<times> 'k \<Rightarrow> (zctrl \<times> 'k) res" where
  "TxWatcher zk type = (\<lambda>(z, k).
     if type = ZOO_CHANGED_EVENT then bindR (checkTxChange zk k) (\<lambda>k. Inr (z, k)) else Inr (z, k))"

definition ZkWatcher :: "'k zookeeper \<Rightarrow> nat \<Rightarrow> zk_event \<Rightarrow> zk_state \<Rightarrow> zctrl \<times> 'k \<Rightarrow> (zctrl \<times> 'k) res" where
  "ZkWatcher zk fuel type state = (\<lambda>(z, k).
     let (z, k) =
       (if type = ZOO_SESSION_EVENT then
          if state = ZOO_CONNECTED_STATE then (z\<lparr>mZkConnected := 1\<rparr>, k)
          else if state = ZOO_NOTCONNECTED_STATE then (z\<lparr>mZkConnected := 0\<rparr>, k)
          else if state = ZOO_EXPIRED_SESSION_STATE then (z\<lparr>mZkExpired := 1, mZkConnected := 0\<rparr>, zookeeper_close zk k)
          else (z, k)
        else (z, k))
     in children_or_znodes zk fuel type state (z, k))"

section \<open>Checkpoints\<close>

definition ckpt_child :: "'k zookeeper \<Rightarrow> nat \<Rightarrow> string \<Rightarrow> string \<Rightarrow> 'k \<Rightarrow> 'k res" where
  "ckpt_child zk fuel leader child k =
     bindR (getNodeData zk fuel (election_root @ ''/'' @ child) k) (\<lambda>(node, k).
     let tx_path = tx_root @ ''/'' @ node;
         (rc, k) = zoo_exists zk tx_path k
     in if rc \<noteq> ZOK then
          let k = snd (zoo_create zk tx_path ''empty_'' False True k)
          in Inr (if node \<noteq> leader then snd (zoo_wexists zk tx_path TxWatcherCb k) else k)
        else Inr k)"

text \<open>The workload that the leader runs is a constant of the function.\<close>

definition ckpt_workload :: string where
  "ckpt_workload = ''gc''"

definition leader_workload :: "conf \<Rightarrow> http_env \<Rightarrow> string \<Rightarrow> zctrl \<Rightarrow> zctrl res" where
  "leader_workload c env workload z =
     (if workload = ''checkpoint'' then checkpoint_workload c env (z\<lparr>mHasRunCkpt := True\<rparr>)
      else if workload = ''gc'' then gc_workload c env (z\<lparr>mHasRunCkpt := True\<rparr>)
      else Inr z)"

text \<open>The follower copies its map into a local variable that is dropped, and clears it.\<close>

definition checkpoint_follower :: "'k zookeeper \<Rightarrow> nat \<Rightarrow> zctrl \<times> 'k \<Rightarrow> (zctrl \<times> 'k) res" where
  "checkpoint_follower zk fuel = (\<lambda>(z, k).
     let path = tx_root @ ''/'' @ leaderNodeName z in
     bindR (getNodeData zk fuel path k) (\<lambda>(logged, k).
     let k = snd (zoo_wexists zk path LeaderWatcherCb k) in
       Inr (z\<lparr>mMap := Map.empty, mInflight := {}\<rparr>, k)))"

definition Checkpoint ::
  "conf \<Rightarrow> http_env \<Rightarrow> 'k zookeeper \<Rightarrow> string \<Rightarrow> nat \<Rightarrow> zctrl \<times> 'k \<Rightarrow> (zctrl \<times> 'k) res" where
  "Checkpoint c env zk after fuel = (\<lambda>(z, k).
     bindR (cassert (\<not> gReplayWorkload c)) (\<lambda>_.
     if nodeName z = leaderNodeName z then
       let z = z\<lparr>mEpoch := mEpoch z + 1, mCkpt := True\<rparr>;
           (rc, children, k) = zoo_get_children zk election_root k
       in bindR (cassert (rc = ZOK)) (\<lambda>_.
          bindR (foldR (ckpt_child zk fuel (leaderNodeName z)) children k) (\<lambda>k.
          if mHasRunCkpt z then Inr (z, k)
          else bindR (leader_workload c env ckpt_workload z) (\<lambda>z.
            Inr (z, if ckpt_workload \<in> {''checkpoint'', ''gc''}
                    then ZkSet zk after (tx_root @ ''/'' @ leaderNodeName z) ''commit'' k else k))))
     else checkpoint_follower zk fuel (z, k)))"

text \<open>
  \<^verbatim>\<open>startZooKeeper\<close> only opens the connection. While \<^verbatim>\<open>SetupZookeeper\<close> sleeps, the events \<open>evs\<close>
  reach the session's watcher; then comes the checkpoint, whose outcome is always a success.
\<close>

definition SetupZookeeper ::
  "conf \<Rightarrow> http_env \<Rightarrow> 'k zookeeper \<Rightarrow> string \<Rightarrow> nat \<Rightarrow> (zk_event \<times> zk_state) list \<Rightarrow> zctrl \<times> 'k \<Rightarrow> (zctrl \<times> 'k) res" where
  "SetupZookeeper c env zk after fuel evs s =
     bindR (foldR (\<lambda>(type, state). ZkWatcher zk fuel type state) evs s) (Checkpoint c env zk after fuel)"

section \<open>What the service promises\<close>

text \<open>
  \<open>nodes\<close> gives the data of every existing node. A service without connection loss: reading does
  not change it and truncates the data to the buffer; children are listed without repetition, in
  any order; a node can be created below an existing one and an existing node can be set or deleted.
\<close>

definition child_names :: "(string \<rightharpoonup> string) \<Rightarrow> string \<Rightarrow> string set" where
  "child_names nodes p = {nm. nm \<noteq> [] \<and> CHR ''/'' \<notin> set nm \<and> nodes (p @ ''/'' @ nm) \<noteq> None}"

definition zk_reads :: "'k zookeeper \<Rightarrow> ('k \<Rightarrow> string \<rightharpoonup> string) \<Rightarrow> bool" where
  "zk_reads zk nodes \<longleftrightarrow>
     (\<forall>k path. snd (zoo_exists zk path k) = k \<and> (fst (zoo_exists zk path k) = ZOK \<longleftrightarrow> nodes k path \<noteq> None)) \<and>
     (\<forall>k path n. 0 \<le> n \<longrightarrow> (case nodes k path of
        None \<Rightarrow> g_rc (fst (zoo_get zk path n k)) \<noteq> ZOK \<and> snd (zoo_get zk path n k) = k
      | Some d \<Rightarrow> zoo_get zk path n k = (\<lparr>g_rc = ZOK, g_len = min n (int (length d)), g_bytes = take (nat n) d,
                                          g_dataLength = int (length d)\<rparr>, k))) \<and>
     (\<forall>k path w. nodes (snd (zoo_wexists zk path w k)) = nodes k) \<and>
     (\<forall>k path. nodes k path \<noteq> None \<longrightarrow> (\<exists>cs k'. zoo_get_children zk path k = (ZOK, cs, k') \<and> distinct cs \<and>
        set cs = child_names (nodes k) path \<and> nodes k' = nodes k))"

definition zk_writes :: "'k zookeeper \<Rightarrow> ('k \<Rightarrow> string \<rightharpoonup> string) \<Rightarrow> bool" where
  "zk_writes zk nodes \<longleftrightarrow>
     (\<forall>k p nm d e. nodes k p \<noteq> None \<and> nm \<noteq> [] \<and> CHR ''/'' \<notin> set nm \<and> nodes k (p @ ''/'' @ nm) = None \<longrightarrow>
        fst (zoo_create zk (p @ ''/'' @ nm) d False e k) = ZOK \<and>
        nodes (snd (zoo_create zk (p @ ''/'' @ nm) d False e k)) = (nodes k)(p @ ''/'' @ nm \<mapsto> d)) \<and>
     (\<forall>k path d. nodes k path \<noteq> None \<longrightarrow>
        fst (zoo_set zk path d k) = ZOK \<and> nodes (snd (zoo_set zk path d k)) = (nodes k)(path \<mapsto> d)) \<and>
     (\<forall>k path. nodes k path \<noteq> None \<longrightarrow>
        fst (zoo_delete zk path k) = ZOK \<and> nodes (snd (zoo_delete zk path k)) = (nodes k)(path := None))"

definition zk_contract :: "'k zookeeper \<Rightarrow> ('k \<Rightarrow> string \<rightharpoonup> string) \<Rightarrow> bool" where
  "zk_contract zk nodes \<longleftrightarrow> zk_reads zk nodes \<and> zk_writes zk nodes"

lemma zk_get: "zk_contract zk nodes \<Longrightarrow> 0 \<le> n \<Longrightarrow> (case nodes k path of
    None \<Rightarrow> g_rc (fst (zoo_get zk path n k)) \<noteq> ZOK \<and> snd (zoo_get zk path n k) = k
  | Some d \<Rightarrow> zoo_get zk path n k = (\<lparr>g_rc = ZOK, g_len = min n (int (length d)), g_bytes = take (nat n) d,
                                      g_dataLength = int (length d)\<rparr>, k))"
  unfolding zk_contract_def zk_reads_def by (elim conjE) (drule spec, drule spec, drule spec, erule mp)

lemma zk_get_Some: "zk_contract zk nodes \<Longrightarrow> nodes k path = Some d \<Longrightarrow> 0 \<le> n \<Longrightarrow>
    zoo_get zk path n k = (\<lparr>g_rc = ZOK, g_len = min n (int (length d)), g_bytes = take (nat n) d,
      g_dataLength = int (length d)\<rparr>, k)"
  by (drule zk_get [where k = k and path = path]) simp_all

lemma zk_get_None: "zk_contract zk nodes \<Longrightarrow> nodes k path = None \<Longrightarrow> 0 \<le> n \<Longrightarrow>
    g_rc (fst (zoo_get zk path n k)) \<noteq> ZOK \<and> snd (zoo_get zk path n k) = k"
  by (drule zk_get [where k = k and path = path]) simp_all

lemma zk_children:
  assumes "zk_contract zk nodes" and "nodes k path \<noteq> None"
  obtains cs k' where "zoo_get_children zk path k = (ZOK, cs, k')" "distinct cs" "set cs = child_names (nodes k) path"
    "nodes k' = nodes k"
  using assms unfolding zk_contract_def zk_reads_def by blast

lemma zk_frame: "zk_contract zk nodes \<Longrightarrow> snd (zoo_exists zk path k) = k"
    "zk_contract zk nodes \<Longrightarrow> fst (zoo_exists zk path k) = ZOK \<longleftrightarrow> nodes k path \<noteq> None"
    "zk_contract zk nodes \<Longrightarrow> nodes (snd (zoo_wexists zk path w k)) = nodes k"
  by (simp_all add: zk_contract_def zk_reads_def)

lemma zk_update:
  "zk_contract zk nodes \<Longrightarrow> nodes k path \<noteq> None \<Longrightarrow> nodes (snd (zoo_set zk path d k)) = (nodes k)(path \<mapsto> d)"
  "zk_contract zk nodes \<Longrightarrow> nodes k path \<noteq> None \<Longrightarrow> nodes (snd (zoo_delete zk path k)) = (nodes k)(path := None)"
  "zk_contract zk nodes \<Longrightarrow> nodes k p \<noteq> None \<Longrightarrow> nm \<noteq> [] \<Longrightarrow> CHR ''/'' \<notin> set nm \<Longrightarrow> nodes k (p @ ''/'' @ nm) = None \<Longrightarrow>
     nodes (snd (zoo_create zk (p @ ''/'' @ nm) d False e k)) = (nodes k)(p @ ''/'' @ nm \<mapsto> d)"
  unfolding zk_contract_def zk_writes_def by blast+

section \<open>Reading node data\<close>

lemma getNodeData_Some:
  assumes "zk_contract zk nodes" and "nodes k path = Some d" and "2 \<le> fuel"
  shows "getNodeData zk fuel path k = Inr (d, k)"
proof -
  obtain n where n: "fuel = Suc (Suc n)" using assms(3) by (metis add_2_eq_Suc le_Suc_ex)
  show ?thesis unfolding n getNodeData_def
    using zk_get_Some [OF assms(1,2), of 256] zk_get_Some [OF assms(1,2), of "int (length d)"]
    by (simp add: min_def)
qed

lemma getNodeData_None:
  assumes "zk_contract zk nodes" and "nodes k path = None" and "1 \<le> fuel"
  shows "getNodeData zk fuel path k = Inr ([], k)"
proof -
  obtain n where n: "fuel = Suc n" using assms(3) by (cases fuel) auto
  show ?thesis unfolding n getNodeData_def
    using zk_get_None [OF assms(1,2), of 256] by (simp add: case_prod_beta)
qed

section \<open>Election\<close>

text \<open>The names ZooKeeper gives to sequence nodes: ten decimal digits behind the given prefix.\<close>

fun decimal :: "nat \<Rightarrow> nat \<Rightarrow> string" where
  "decimal 0 n = []"
| "decimal (Suc w) n = decimal w (n div 10) @ [char_of (48 + n mod 10)]"

definition seq_name :: "nat \<Rightarrow> string" where
  "seq_name n = ''n_'' @ decimal 10 n"

lemma of_char_digit: "(of_char (char_of (48 + n mod 10 :: nat)) :: nat) = 48 + n mod 10"
proof -
  have "n mod 10 < 10" by simp
  then have "48 + n mod 10 < 256" by linarith
  then show ?thesis by (simp only: of_char_of) simp
qed

lemma decimal_digits: "ch \<in> set (decimal w n) \<Longrightarrow> is_digit ch"
proof (induction w n rule: decimal.induct)
  case (2 w n)
  have "n mod 10 < 10" by simp
  then show ?case using 2 of_char_digit [of n] by (auto simp: is_digit_def)
qed simp

lemma decimal_value: "fold (\<lambda>ch v. 10 * v + digit_val ch) (decimal w n) 0 = int (n mod 10 ^ w)"
proof (induction w n rule: decimal.induct)
  case (2 w n)
  have "int (of_char (char_of (48 + n mod 10 :: nat)) :: nat) = (of_char (char_of (48 + n mod 10 :: nat)) :: int)"
    by (simp add: of_char_def)
  then have "digit_val (char_of (48 + n mod 10)) = int (n mod 10)"
    unfolding digit_val_def of_char_digit by simp
  moreover have "n mod 10 ^ Suc w = 10 * (n div 10 mod 10 ^ w) + n mod 10"
    by (simp add: mod_mult2_eq)
  ultimately show ?case using 2 by (simp add: algebra_simps)
qed simp

lemma length_decimal [simp]: "length (decimal w n) = w"
  by (induction w n rule: decimal.induct) simp_all

lemma seq_of_seq_name:
  assumes "n < 2 ^ 31"
  shows "seq_of (seq_name n) = Inr (int n)"
proof -
  obtain ch cs where d: "decimal 10 n = ch # cs" by (cases "decimal 10 n") (use length_decimal [of 10 n] in auto)
  have digits: "\<forall>x \<in> set (decimal 10 n). is_digit x" using decimal_digits by blast
  then have ch: "is_digit ch" unfolding d by simp
  then have "\<not> is_space ch" by (auto simp: is_digit_def is_space_def)
  then have sp: "dropWhile is_space (decimal 10 n) = decimal 10 n" unfolding d by simp
  have sg: "ch \<noteq> CHR ''-''" "ch \<noteq> CHR ''+''" using ch by (auto simp: is_digit_def)
  have tw: "takeWhile is_digit (decimal 10 n) = decimal 10 n" using digits by (simp add: takeWhile_eq_all_conv)
  have "n mod 10 ^ 10 = n" using assms by simp
  then have "fold (\<lambda>ch v. 10 * v + digit_val ch) (decimal 10 n) 0 = int n" by (simp add: decimal_value)
  then have "atoi (decimal 10 n) = Inr (int n)"
    unfolding atoi_def sp using sg tw assms by (simp add: d Let_def)
  then show ?thesis by (simp add: seq_of_def seq_name_def)
qed

lemma find_leader_min:
  assumes "cs \<noteq> []" and "\<And>nm. nm \<in> set cs \<Longrightarrow> seq_of nm = Inr (f nm)"
  shows "okR (find_leader cs) (\<lambda>j. j < length cs \<and> (\<forall>nm \<in> set cs. f (cs ! j) \<le> f nm))"
proof -
  let ?P = "\<lambda>pre (m, j). pre \<noteq> [] \<longrightarrow> j < length pre \<and> m = f (cs ! j) \<and> (\<forall>i < length pre. m \<le> f (cs ! i))"
  have "okR (foldR (\<lambda>i (min_seq, j). bindR (seq_of (cs ! i)) (\<lambda>t.
      Inr (if i = 0 \<or> min_seq > t then (t, i) else (min_seq, j)))) [0..<length cs] (0, 0)) (?P [0..<length cs])"
  proof (rule okR_foldR [where P = ?P])
    show "?P [] (0, 0)" by simp
  next
    fix pre i post and s :: "int \<times> nat"
    assume split: "[0..<length cs] = pre @ i # post" and P: "?P pre s"
    have len: "length cs = length pre + Suc (length post)" using arg_cong [OF split, of length] by simp
    then have "[0..<length cs] ! length pre = length pre" by (subst nth_upt) simp_all
    then have i: "i = length pre" unfolding split by simp
    have "cs ! i \<in> set cs" using len i by simp
    then show "okR (case s of (min_seq, j) \<Rightarrow> bindR (seq_of (cs ! i)) (\<lambda>t.
        Inr (if i = 0 \<or> min_seq > t then (t, i) else (min_seq, j)))) (?P (pre @ [i]))"
      using P i assms(2) by (cases s) (auto simp: less_Suc_eq)
  qed
  then show ?thesis unfolding find_leader_def okR_bindR
    by (rule okR_mono) (use assms(1) in \<open>auto simp: in_set_conv_nth\<close>)
qed

text \<open>
  (C26) Every gateway that looks at the election elects the same leader: the node with the least
  sequence number, in whatever order the service lists the children. Its name is the data of that
  node, and nothing else of the controller and no node changes.
\<close>

theorem least_sequence_leads:
  assumes zk: "zk_contract zk nodes" and root: "nodes k election_root \<noteq> None"
    and members: "child_names (nodes k) election_root = seq_name ` N" "N \<noteq> {}" "N \<subseteq> {..<2 ^ 31}"
    and name: "nodes k (election_root @ ''/'' @ seq_name (Min N)) = Some name" and fuel: "2 \<le> fuel"
  shows "\<exists>k'. checkChildrenChange zk fuel (z, k) = Inr (z\<lparr>leaderNodeName := name\<rparr>, k') \<and> nodes k' = nodes k"
proof -
  obtain cs k' where cs: "zoo_get_children zk election_root k = (ZOK, cs, k')" "set cs = seq_name ` N" "nodes k' = nodes k"
    using zk_children [OF zk root] members(1) by metis
  define f where "f nm = (case seq_of nm of Inl _ \<Rightarrow> 0 | Inr v \<Rightarrow> v)" for nm
  have f: "seq_of (seq_name n) = Inr (f (seq_name n))" "f (seq_name n) = int n" if "n \<in> N" for n
    using seq_of_seq_name [of n] that members(3) by (auto simp: f_def)
  have "cs \<noteq> []" using cs(2) members(2) by auto
  then obtain j where j: "find_leader cs = Inr j" "j < length cs" "\<forall>nm \<in> set cs. f (cs ! j) \<le> f nm"
    using find_leader_min [of cs f] f(1) cs(2) by (auto elim!: okRE)
  have "cs ! j \<in> seq_name ` N" using j(2) cs(2) nth_mem by blast
  then obtain n where n: "n \<in> N" "cs ! j = seq_name n" by blast
  have "n \<le> m" if "m \<in> N" for m using j(3) cs(2) that f(2) [OF that] f(2) [OF n(1)] n(2) by fastforce
  moreover have "finite N" using members(3) finite_subset by blast
  ultimately have "Min N = n" using n(1) by (intro Min_eqI) auto
  then have "nodes k' (election_root @ ''/'' @ cs ! j) = Some name" using name cs(3) n(2) by simp
  note data = getNodeData_Some [OF zk this fuel]
  show ?thesis using cs(1,3) \<open>cs \<noteq> []\<close> j(1) data by (auto simp: checkChildrenChange_def)
qed

text \<open>A service kept in memory, as a list of paths with their data.\<close>

definition child_of :: "string \<Rightarrow> string \<Rightarrow> string option" where
  "child_of p path =
     (let nm = drop (Suc (length p)) path in
      if path = p @ ''/'' @ nm \<and> nm \<noteq> [] \<and> CHR ''/'' \<notin> set nm then Some nm else None)"

definition mem_zk :: "(string \<times> string) list zookeeper" where
  "mem_zk = \<lparr>
     zoo_exists = (\<lambda>p k. (if map_of k p = None then - 101 else ZOK, k)),
     zoo_wexists = (\<lambda>p w k. (if map_of k p = None then - 101 else ZOK, k)),
     zoo_create = (\<lambda>p d sq e k. let p = (if sq then p @ decimal 10 (length k) else p) in
        if map_of k p = None then (ZOK, (p, d) # k) else (- 110, k)),
     zoo_get = (\<lambda>p n k. (case map_of k p of
        None \<Rightarrow> \<lparr>g_rc = - 101, g_len = n, g_bytes = [], g_dataLength = 0\<rparr>
      | Some d \<Rightarrow> \<lparr>g_rc = ZOK, g_len = min n (int (length d)), g_bytes = take (nat n) d, g_dataLength = int (length d)\<rparr>, k)),
     zoo_get_children = (\<lambda>p k. (if map_of k p = None then - 101 else ZOK, remdups (List.map_filter (child_of p) (map fst k)), k)),
     zoo_delete = (\<lambda>p k. (if map_of k p = None then - 101 else ZOK, filter (\<lambda>(q, d). q \<noteq> p) k)),
     zoo_set = (\<lambda>p d k. if map_of k p = None then (- 101, k) else (ZOK, (p, d) # filter (\<lambda>(q, d). q \<noteq> p) k)),
     zookeeper_close = (\<lambda>k. k)\<rparr>"

lemma child_of_Some: "child_of p path = Some nm \<longleftrightarrow> path = p @ ''/'' @ nm \<and> nm \<noteq> [] \<and> CHR ''/'' \<notin> set nm"
  by (auto simp: child_of_def Let_def)

lemma mem_children: "set (List.map_filter (child_of p) (map fst k)) = child_names (map_of k) p"
proof -
  have "set (List.map_filter (child_of p) (map fst k)) = {nm. \<exists>path \<in> fst ` set k. child_of p path = Some nm}"
    by (force simp: List.map_filter_def)
  then show ?thesis by (auto simp: child_names_def child_of_Some map_of_eq_None_iff)
qed

lemma map_of_filter_ne: "map_of (filter (\<lambda>(q, d). q \<noteq> p) k) = (map_of k)(p := None)"
  by (induction k) (auto simp: fun_eq_iff)

lemma mem_zk_contract: "zk_contract mem_zk map_of"
  by (auto simp: zk_contract_def zk_reads_def zk_writes_def mem_zk_def ZOK_def map_of_filter_ne mem_children
      split: option.split)

definition ex_nodes :: "(string \<times> string) list" where
  "ex_nodes = [(election_root @ ''/'' @ seq_name 7, ''gateway_2''), (election_root @ ''/'' @ seq_name 3, ''gateway_1''),
     (election_root, ''leader ele''), (tx_root, ''transactio'')]"

lemma seq_name_inject:
  assumes "n < 2 ^ 31" "m < 2 ^ 31"
  shows "seq_name n = seq_name m \<longleftrightarrow> n = m"
proof
  assume "seq_name n = seq_name m"
  then have "(Inr (int n) :: int res) = Inr (int m)"
    using seq_of_seq_name [OF assms(1)] seq_of_seq_name [OF assms(2)] by (simp only:)
  then show "n = m" by simp
qed simp

lemma seq_name_no_slash: "CHR ''/'' \<notin> set (seq_name n)"
  using decimal_digits [of "CHR ''/''" 10 n] by (auto simp: seq_name_def is_digit_def)

lemma ex_children: "child_names (map_of ex_nodes) election_root = seq_name ` {3, 7}"
  using seq_name_no_slash
  by (auto simp: child_names_def ex_nodes_def election_root_def tx_root_def seq_name_def split: if_splits)

theorem least_sequence_leads_witness:
  "\<exists>k'. checkChildrenChange mem_zk 2 (ex_zctrl, ex_nodes) = Inr (ex_zctrl\<lparr>leaderNodeName := ''gateway_1''\<rparr>, k')"
proof -
  have "map_of ex_nodes election_root \<noteq> None" by (simp add: ex_nodes_def)
  moreover have "map_of ex_nodes (election_root @ ''/'' @ seq_name (Min {3, 7})) = Some ''gateway_1''"
    by (simp add: ex_nodes_def seq_name_inject)
  ultimately show ?thesis
    using least_sequence_leads [OF mem_zk_contract _ ex_children, of "''gateway_1''" 2 ex_zctrl] by auto
qed

text \<open>
  With a service that keeps its contract \<^verbatim>\<open>getNodeData\<close> ends after at most two rounds, whatever
  the length of the data, with all of the data, or with nothing for a missing node.
\<close>

lemma getNodeData_returns:
  assumes "zk_contract zk nodes" and "2 \<le> fuel"
  shows "getNodeData zk fuel path k = Inr (case nodes k path of None \<Rightarrow> [] | Some d \<Rightarrow> d, k)"
  using getNodeData_Some [OF assms(1) _ assms(2)] getNodeData_None [OF assms(1)] assms(2)
  by (cases "nodes k path") simp_all

lemma getNodeData_returns_example:
  "getNodeData mem_zk 2 ''/n'' [(''/n'', replicate 300 CHR ''x'')] = Inr (replicate 300 CHR ''x'', [(''/n'', replicate 300 CHR ''x'')])"
  using getNodeData_returns [OF mem_zk_contract, of 2 "''/n''" "[(''/n'', replicate 300 CHR ''x'')]"] by simp

text \<open>
  For a node without data the service reports length -1 and data length 0; then
  \<^verbatim>\<open>getNodeData\<close> never ends, however many rounds it is given.
\<close>

lemma getNodeData_hangs:
  assumes "\<And>n. \<exists>b. zoo_get zk path n k = (\<lparr>g_rc = ZOK, g_len = - 1, g_bytes = b, g_dataLength = 0\<rparr>, k)"
  shows "getNodeData zk fuel path k = Inl Unfinished"
proof -
  have "node_data_loop zk fuel path n k = Inl Unfinished" for n
  proof (induction fuel arbitrary: n)
    case (Suc fuel)
    obtain b where "zoo_get zk path n k = (\<lparr>g_rc = ZOK, g_len = - 1, g_bytes = b, g_dataLength = 0\<rparr>, k)"
      using assms by blast
    then show ?case using Suc by simp
  qed simp
  then show ?thesis by (simp add: getNodeData_def)
qed

definition null_zk :: "(string \<times> string) list zookeeper" where
  "null_zk = mem_zk\<lparr>zoo_get := \<lambda>p n k. (\<lparr>g_rc = ZOK, g_len = - 1, g_bytes = [], g_dataLength = 0\<rparr>, k)\<rparr>"

lemma getNodeData_hangs_example:
  "getNodeData null_zk 1000 ''/n'' [] = Inl Unfinished"
  by (rule getNodeData_hangs) (simp add: null_zk_def)

section \<open>Transactions\<close>

abbreviation tx_path :: "string \<Rightarrow> string" where "tx_path nm \<equiv> tx_root @ ''/'' @ nm"
abbreviation election_path :: "string \<Rightarrow> string" where "election_path nm \<equiv> election_root @ ''/'' @ nm"

definition resolved :: "string \<Rightarrow> bool" where
  "resolved d \<longleftrightarrow> take 6 d = ''commit'' \<or> take 6 d = ''abort_''"

text \<open>The nodes that are left when the resolved ones of \<open>cs\<close> are deleted.\<close>

definition clear_resolved :: "string set \<Rightarrow> (string \<rightharpoonup> string) \<Rightarrow> string \<rightharpoonup> string" where
  "clear_resolved cs m p = (if p \<in> tx_path ` cs \<and> (\<exists>d. m p = Some d \<and> resolved d) then None else m p)"

lemma tx_child_ok:
  assumes zk: "zk_contract zk nodes" and d: "nodes k (tx_path c) = Some d" "6 \<le> length d"
  shows "okR (tx_child zk c (6, k)) (\<lambda>(b, k'). b = 6 \<and> nodes k' = clear_resolved {c} (nodes k))"
proof -
  have "zoo_get zk (tx_path c) 6 k = (\<lparr>g_rc = ZOK, g_len = 6, g_bytes = take 6 d, g_dataLength = int (length d)\<rparr>, k)"
    using zk_get_Some [OF zk d(1), of 6] d(2) by simp
  moreover have "nodes (snd (zoo_delete zk (tx_path c) k)) = (nodes k)(tx_path c := None)"
    using zk_update(2) [OF zk] d(1) by simp
  ultimately show ?thesis
    using d(1) by (auto simp: tx_child_def Let_def clear_resolved_def resolved_def fun_eq_iff)
qed

lemma tx_children_ok:
  assumes zk: "zk_contract zk nodes"
  shows "\<forall>c \<in> set cs. \<exists>d. nodes k (tx_path c) = Some d \<and> 6 \<le> length d \<Longrightarrow> distinct cs \<Longrightarrow>
    okR (foldR (tx_child zk) cs (6, k)) (\<lambda>(b, k'). nodes k' = clear_resolved (set cs) (nodes k))"
proof (induction cs arbitrary: k)
  case Nil
  then show ?case by (simp add: clear_resolved_def fun_eq_iff)
next
  case (Cons c cs)
  then obtain d where "nodes k (tx_path c) = Some d" "6 \<le> length d" by auto
  then obtain k1 where k1: "tx_child zk c (6, k) = Inr (6, k1)" "nodes k1 = clear_resolved {c} (nodes k)"
    using tx_child_ok [OF zk, of k c d] by (auto elim!: okRE)
  have "\<forall>x \<in> set cs. \<exists>d. nodes k1 (tx_path x) = Some d \<and> 6 \<le> length d"
    using Cons.prems by (auto simp: k1(2) clear_resolved_def)
  note IH = Cons.IH [OF this] Cons.prems(2)
  have "clear_resolved (set cs) (nodes k1) = clear_resolved (set (c # cs)) (nodes k)"
    by (auto simp: k1(2) clear_resolved_def fun_eq_iff)
  then show ?case using IH k1(1) by simp
qed

text \<open>
  When the transaction nodes have at least six characters of data, as the protocol writes
  them, a change event makes the leader delete exactly the nodes that say commit or abort.
\<close>

lemma checkTxChange_clears:
  assumes zk: "zk_contract zk nodes" and root: "nodes k tx_root \<noteq> None"
    and six: "\<And>c d. c \<in> child_names (nodes k) tx_root \<Longrightarrow> nodes k (tx_path c) = Some d \<Longrightarrow> 6 \<le> length d"
  shows "\<exists>k'. checkTxChange zk k = Inr k' \<and>
    nodes k' = clear_resolved (child_names (nodes k) tx_root) (nodes k)"
proof -
  obtain cs k1 where cs: "zoo_get_children zk tx_root k = (ZOK, cs, k1)" "distinct cs"
      "set cs = child_names (nodes k) tx_root" "nodes k1 = nodes k"
    by (rule zk_children [OF zk root])
  have "\<forall>c \<in> set cs. \<exists>d. nodes k1 (tx_path c) = Some d \<and> 6 \<le> length d"
  proof
    fix c
    assume c: "c \<in> set cs"
    then obtain d where "nodes k (tx_path c) = Some d" using cs(3) by (auto simp: child_names_def)
    then show "\<exists>d. nodes k1 (tx_path c) = Some d \<and> 6 \<le> length d" using six c cs(3,4) by auto
  qed
  from tx_children_ok [OF zk this cs(2)] show ?thesis
    using cs(1,3,4) by (auto simp: checkTxChange_def elim!: okRE)
qed

lemma checkTxChange_clears_example:
  "\<exists>k'. checkTxChange mem_zk [(''/tx/a'', ''commit''), (''/tx/b'', ''empty_''), (''/tx'', [])] = Inr k' \<and>
     map_of k' ''/tx/a'' = None \<and> map_of k' ''/tx/b'' = Some ''empty_''"
proof -
  let ?k = "[(''/tx/a'', ''commit''), (''/tx/b'', ''empty_''), (''/tx'', [])]"
  have ch: "child_names (map_of ?k) tx_root = {''a'', ''b''}"
    by (auto simp: child_names_def tx_root_def split: if_splits)
  have "6 \<le> length d" if "c \<in> child_names (map_of ?k) tx_root" "map_of ?k (tx_path c) = Some d" for c d
    using that unfolding ch by (auto simp: tx_root_def)
  with checkTxChange_clears [OF mem_zk_contract, of ?k] obtain k'
    where "checkTxChange mem_zk ?k = Inr k'" "map_of k' = clear_resolved {''a'', ''b''} (map_of ?k)"
    unfolding ch by (auto simp: tx_root_def)
  then show ?thesis by (auto simp: clear_resolved_def resolved_def tx_root_def)
qed

section \<open>Checkpoints of leader and follower\<close>

text \<open>The nodes after the leader announced a transaction to the members \<open>cs\<close> of the election.\<close>

definition announced :: "string set \<Rightarrow> (string \<rightharpoonup> string) \<Rightarrow> string \<rightharpoonup> string" where
  "announced cs m p =
     (if m p = None \<and> (\<exists>c \<in> cs. \<exists>nm. m (election_path c) = Some nm \<and> p = tx_path nm) then Some ''empty_'' else m p)"

definition member_name :: "(string \<rightharpoonup> string) \<Rightarrow> string \<Rightarrow> bool" where
  "member_name m c \<longleftrightarrow> (\<exists>nm. m (election_path c) = Some nm \<and> nm \<noteq> [] \<and> CHR ''/'' \<notin> set nm)"

lemma ckpt_child_ok:
  assumes zk: "zk_contract zk nodes" and fuel: "2 \<le> fuel" and tx: "nodes k tx_root \<noteq> None" and c: "member_name (nodes k) c"
  shows "okR (ckpt_child zk fuel leader c k) (\<lambda>k'. nodes k' = announced {c} (nodes k))"
proof -
  obtain nm where nm: "nodes k (election_path c) = Some nm" "nm \<noteq> []" "CHR ''/'' \<notin> set nm"
    using c by (auto simp: member_name_def)
  have get: "getNodeData zk fuel (election_path c) k = Inr (nm, k)" by (rule getNodeData_Some [OF zk nm(1) fuel])
  show ?thesis
  proof (cases "nodes k (tx_path nm)")
    case None
    note cr = zk_update(3) [OF zk tx nm(2,3) None, of "''empty_''" True]
    show ?thesis using get None cr zk_frame [OF zk] nm(1)
      by (auto simp: ckpt_child_def Let_def case_prod_beta announced_def fun_eq_iff)
  next
    case (Some d)
    then show ?thesis using get zk_frame [OF zk] nm(1)
      by (auto simp: ckpt_child_def Let_def case_prod_beta announced_def fun_eq_iff)
  qed
qed

lemma announced_insert: "announced cs (announced {c} m) = announced (insert c cs) m" if "\<forall>x \<in> cs. member_name m x"
proof (rule ext)
  fix p
  have el: "announced {c} m (election_path x) = m (election_path x)" if "x \<in> cs" for x
    using that \<open>\<forall>x \<in> cs. member_name m x\<close> by (auto simp: announced_def member_name_def)
  then have "(\<exists>x \<in> cs. \<exists>nm. announced {c} m (election_path x) = Some nm \<and> p = tx_path nm) \<longleftrightarrow>
      (\<exists>x \<in> cs. \<exists>nm. m (election_path x) = Some nm \<and> p = tx_path nm)" by simp
  then show "announced cs (announced {c} m) p = announced (insert c cs) m p"
    by (simp add: announced_def [of cs "announced {c} m"]) (auto simp: announced_def)
qed

lemma ckpt_children_ok:
  assumes zk: "zk_contract zk nodes" and fuel: "2 \<le> fuel"
  shows "nodes k tx_root \<noteq> None \<Longrightarrow> \<forall>c \<in> set cs. member_name (nodes k) c \<Longrightarrow>
    okR (foldR (ckpt_child zk fuel leader) cs k) (\<lambda>k'. nodes k' = announced (set cs) (nodes k))"
proof (induction cs arbitrary: k)
  case Nil
  then show ?case by (simp add: announced_def fun_eq_iff)
next
  case (Cons c cs)
  then have "member_name (nodes k) c" by simp
  then obtain k1 where k1: "ckpt_child zk fuel leader c k = Inr k1" "nodes k1 = announced {c} (nodes k)"
    using ckpt_child_ok [OF zk fuel Cons.prems(1)] by (auto elim!: okRE)
  have "nodes k1 tx_root \<noteq> None" "\<forall>x \<in> set cs. member_name (nodes k1) x"
    using Cons.prems by (auto simp: k1(2) announced_def member_name_def)
  from Cons.IH [OF this] show ?case
    using k1 announced_insert [of "set cs" "nodes k" c] Cons.prems(2) by simp
qed


definition ex_leader :: zctrl where
  "ex_leader = ex_gc\<lparr>nodeName := ''gateway_1'', leaderNodeName := ''gateway_1''\<rparr>"

lemma ex_member: "c \<in> child_names (map_of ex_nodes) election_root \<Longrightarrow> member_name (map_of ex_nodes) c"
  unfolding ex_children by (auto simp: member_name_def ex_nodes_def seq_name_inject)


text \<open>
  A checkpoint of any other gateway always succeeds and empties its object map: afterwards no
  object can be found, although nothing has been persisted for it.
\<close>

lemma follower_checkpoint_forgets:
  assumes zk: "zk_contract zk nodes" and fuel: "2 \<le> fuel" and "nodeName z \<noteq> leaderNodeName z" and "\<not> gReplayWorkload c"
  shows "\<exists>k'. Checkpoint c env zk after fuel (z, k) = Inr (z\<lparr>mMap := Map.empty, mInflight := {}\<rparr>, k') \<and> nodes k' = nodes k \<and>
    (\<forall>h. GetObject h (z\<lparr>mMap := Map.empty, mInflight := {}\<rparr>) = None)"
proof -
  have "\<exists>d. getNodeData zk fuel (tx_path (leaderNodeName z)) k = Inr (d, k)"
    using getNodeData_Some [OF zk _ fuel] getNodeData_None [OF zk] fuel by (cases "nodes k (tx_path (leaderNodeName z))") auto
  then show ?thesis using assms(3,4) zk_frame(3) [OF zk]
    by (auto simp: Checkpoint_def checkpoint_follower_def Let_def GetObject_def)
qed

lemma follower_checkpoint_forgets_example:
  "\<exists>z' k'. Checkpoint conf_default ex_env mem_zk ''xyz'' 2 (ex_gc\<lparr>nodeName := ''gateway_2''\<rparr>, ex_nodes) = Inr (z', k') \<and>
     GetObject (replicate 32 0) ex_gc \<noteq> None \<and> GetObject (replicate 32 0) z' = None"
proof -
  have "nodeName (ex_gc\<lparr>nodeName := ''gateway_2''\<rparr>) \<noteq> leaderNodeName (ex_gc\<lparr>nodeName := ''gateway_2''\<rparr>)"
    by (simp add: ex_gc_def ex_zctrl_def PopulateDevHash_def Let_def)
  moreover have "\<not> gReplayWorkload conf_default" "GetObject (replicate 32 0) ex_gc \<noteq> None"
    by (simp_all add: conf_default_def GetObject_def ex_gc_def)
  ultimately show ?thesis
    using follower_checkpoint_forgets [OF mem_zk_contract, of 2 "ex_gc\<lparr>nodeName := ''gateway_2''\<rparr>" conf_default ex_env "''xyz''" ex_nodes]
    by auto
qed

end
