(* ===== verification/Zstore_Rdma.thy ===== *)
theory Zstore_Rdma
  imports Zstore_Controller
begin

text \<open>
  RDMA between gateways (\<^verbatim>\<open>src/src/rdma_common.cc\<close>, \<^verbatim>\<open>src/src/rdma_utils.cc\<close> and
  \<^verbatim>\<open>RdmaClientConnect\<close> of \<^verbatim>\<open>src/src/zstore_controller.cc\<close>): the connection manager's event loop with
  its registered callbacks, the server's side of the protocol and the client's.

  The verbs and connection-manager libraries are seen through the calls that reach them: every
  operation returns the calls it made, in order. A failing call is only reported on standard
  error, since \<^verbatim>\<open>rc_die\<close> no longer exits, so results of calls do not change what the code does. What the libraries
  supply (fresh memory, addresses and keys of registered regions) is the parameter \<open>rdma_env\<close>. A
  connection identifier is a number.
\<close>

section \<open>Messages and calls\<close>

definition MSG_INVALID :: int where "MSG_INVALID = 0"
definition MSG_MR :: int where "MSG_MR = 1"
definition MSG_READY :: int where "MSG_READY = 2"
definition MSG_DONE :: int where "MSG_DONE = 3"

lemmas msg_ids = MSG_INVALID_def MSG_MR_def MSG_READY_def MSG_DONE_def

record message =
  msg_id :: int
  mr_addr :: u64
  mr_rkey :: u32

definition sizeof_message :: nat where
  "sizeof_message = 24"

definition sizeof_pointer :: nat where
  "sizeof_pointer = 8"

definition RDMA_BUFFER_SIZE :: nat where
  "RDMA_BUFFER_SIZE = 10 * 1024 * 1024"

definition MAX_SERVER_NAME :: nat where
  "MAX_SERVER_NAME = 16"

datatype verb_call =
    PostRecv nat nat                    \<comment> \<open>identifier, bytes that the posted buffer holds\<close>
  | PostSend nat message
  | PostWrite nat u64 u32 "u8 list" u32 \<comment> \<open>identifier, remote address and key, data, immediate value\<close>
  | AllocContext nat                    \<comment> \<open>protection domain, completion channel, queue and poller of a device\<close>
  | CreateQp nat
  | ResolveRoute nat
  | Connect nat
  | Accept nat
  | Disconnect nat
  | DestroyQp nat
  | DestroyId nat
  | DeregMr nat

record rdma_env =
  fresh_buffer :: "nat \<Rightarrow> u8 list"
  fresh_message :: "nat \<Rightarrow> message"
  fresh_name :: "nat \<Rightarrow> u8 list"
  region_of :: "nat \<Rightarrow> u64 \<times> u32"

section \<open>C strings\<close>

text \<open>\<open>None\<close> when no terminating zero follows.\<close>

definition c_strlen :: "u8 list \<Rightarrow> nat option" where
  "c_strlen bs = (if 0 \<in> set bs then Some (length (takeWhile (\<lambda>b. b \<noteq> 0) bs)) else None)"

text \<open>\<^verbatim>\<open>strcpy(dst, src)\<close>\<close>

definition strcpy :: "u8 list \<Rightarrow> u8 list \<Rightarrow> u8 list res" where
  "strcpy dst src = (case c_strlen src of None \<Rightarrow> Inl OutOfBounds | Some n \<Rightarrow> mem_write dst 0 (take (Suc n) src))"

definition c_string :: "string \<Rightarrow> u8 list" where
  "c_string s = map (\<lambda>ch. of_nat (of_char ch)) s @ [0]"

section \<open>The server's side\<close>

record conn_context =
  cc_buffer :: "u8 list"
  cc_region :: "u64 \<times> u32"
  cc_msg :: message
  cc_server_name :: "u8 list"

datatype wc_opcode = WC_SEND | WC_RDMA_WRITE | WC_RECV | WC_RECV_RDMA_WITH_IMM

record ibv_wc =
  wc_id :: nat
  wc_opcode :: wc_opcode
  wc_imm :: u32

definition send_message :: "nat \<Rightarrow> conn_context \<Rightarrow> verb_call list" where
  "send_message i ctx = [PostSend i (cc_msg ctx)]"

text \<open>The server's receives have no buffer: only an immediate value arrives.\<close>

definition post_receive :: "nat \<Rightarrow> verb_call list" where
  "post_receive i = [PostRecv i 0]"

definition on_pre_conn :: "rdma_env \<Rightarrow> nat \<Rightarrow> conn_context \<times> verb_call list" where
  "on_pre_conn env i =
     (\<lparr>cc_buffer = fresh_buffer env i, cc_region = region_of env i, cc_msg = fresh_message env i,
       cc_server_name = (fresh_name env i)[0 := 0]\<rparr>, post_receive i)"

definition on_connection :: "nat \<Rightarrow> conn_context \<Rightarrow> conn_context \<times> verb_call list" where
  "on_connection i ctx =
     (let ctx = ctx\<lparr>cc_msg := \<lparr>msg_id = MSG_MR, mr_addr = fst (cc_region ctx), mr_rkey = snd (cc_region ctx)\<rparr>\<rparr>
      in (ctx, send_message i ctx))"

definition reply :: "nat \<Rightarrow> int \<Rightarrow> conn_context \<Rightarrow> conn_context \<times> verb_call list" where
  "reply i what ctx = (let ctx = ctx\<lparr>cc_msg := (cc_msg ctx)\<lparr>msg_id := what\<rparr>\<rparr> in (ctx, send_message i ctx))"

text \<open>
  The search in the set of inflight writes only selects what is printed, so it is left out; it
  is done with an array that \<^verbatim>\<open>to_key_hash\<close> leaves uninitialised.
\<close>

definition on_completion :: "ibv_wc \<Rightarrow> conn_context \<Rightarrow> (conn_context \<times> verb_call list) res" where
  "on_completion wc ctx =
     (let i = wc_id wc; size = wc_imm wc in
      if wc_opcode wc = WC_RECV_RDMA_WITH_IMM then
        if size = 0 then Inr (reply i MSG_DONE ctx)
        else if cc_server_name ctx ! 0 \<noteq> 0 then
          bindR (strcpy (replicate 16 0) (cc_buffer ctx)) (\<lambda>hash.
          let (ctx, calls) = reply i MSG_READY ctx in Inr (ctx, post_receive i @ calls))
        else
          bindR (mem_read (cc_buffer ctx) 0 16) (\<lambda>bytes.
          bindR (mem_write (cc_server_name ctx) 0 bytes) (\<lambda>name.
          bindR (mem_write name (unat (size - 1)) [0]) (\<lambda>name.
          let (ctx, calls) = reply i MSG_READY (ctx\<lparr>cc_server_name := name\<rparr>)
          in Inr (ctx, post_receive i @ calls))))
      else Inr (ctx, []))"

definition on_disconnect :: "nat \<Rightarrow> verb_call list" where
  "on_disconnect i = [DeregMr i, DeregMr i]"

section \<open>The client's side\<close>

record client_context =
  cl_buffer :: "u8 list"
  cl_msg :: message
  peer_addr :: u64
  peer_rkey :: u32
  server_name :: string

definition write_remote :: "client_context \<Rightarrow> nat \<Rightarrow> u32 \<Rightarrow> verb_call list res" where
  "write_remote cl i n =
     bindR (mem_read (cl_buffer cl) 0 (unat n)) (\<lambda>data.
       Inr [PostWrite i (peer_addr cl) (peer_rkey cl) data n])"

text \<open>The length is that of the pointer variable \<^verbatim>\<open>message\<close>, not of a message.\<close>

definition post_receive_client :: "nat \<Rightarrow> verb_call list" where
  "post_receive_client i = [PostRecv i sizeof_pointer]"

definition next_hash :: string where
  "next_hash = ''1234567890abcdef''"

definition send_next_hash :: "client_context \<Rightarrow> nat \<Rightarrow> (client_context \<times> verb_call list) res" where
  "send_next_hash cl i =
     bindR (strcpy (cl_buffer cl) (c_string next_hash)) (\<lambda>buf.
     let cl = cl\<lparr>cl_buffer := buf\<rparr> in
     bindR (write_remote cl i 17) (\<lambda>calls. Inr (cl, calls)))"

definition send_server_name :: "client_context \<Rightarrow> nat \<Rightarrow> (client_context \<times> verb_call list) res" where
  "send_server_name cl i =
     bindR (strcpy (cl_buffer cl) (c_string (server_name cl))) (\<lambda>buf.
     let cl = cl\<lparr>cl_buffer := buf\<rparr> in
     bindR (write_remote cl i (of_nat (length (server_name cl) + 1))) (\<lambda>calls. Inr (cl, calls)))"

definition on_pre_conn_client :: "rdma_env \<Rightarrow> nat \<Rightarrow> client_context \<Rightarrow> client_context \<times> verb_call list" where
  "on_pre_conn_client env i cl =
     (cl\<lparr>cl_buffer := fresh_buffer env i, cl_msg := fresh_message env i\<rparr>, post_receive_client i)"

text \<open>
  Erasing from a concurrent set while it is being visited is a re-entrant call, which the
  container refuses with an assertion.
\<close>

definition on_completion_client :: "zctrl \<Rightarrow> ibv_wc \<Rightarrow> client_context \<Rightarrow> (client_context \<times> verb_call list) res" where
  "on_completion_client z wc cl =
     (let i = wc_id wc in
      if wc_opcode wc \<in> {WC_RECV, WC_RECV_RDMA_WITH_IMM} then
        if msg_id (cl_msg cl) = MSG_MR then
          bindR (send_server_name (cl\<lparr>peer_addr := mr_addr (cl_msg cl), peer_rkey := mr_rkey (cl_msg cl)\<rparr>) i) (\<lambda>(cl, calls).
            Inr (cl, calls @ post_receive_client i))
        else if msg_id (cl_msg cl) = MSG_READY then
          if mBroadcast z \<noteq> {} then bindR (send_next_hash cl i) (\<lambda>_. Inl AssertFail)
          else Inr (cl, post_receive_client i)
        else if msg_id (cl_msg cl) = MSG_DONE then Inr (cl, [Disconnect i])
        else Inr (cl, post_receive_client i)
      else Inr (cl, []))"

section \<open>The event loop\<close>

text \<open>
  The four callback pointers: \<open>True\<close> for the function that \<^verbatim>\<open>rdma_utils.cc\<close> defines with the
  pointer's type, \<open>False\<close> for a null pointer. These types select the server's overloads.
\<close>

record callbacks =
  s_on_pre_conn_cb :: bool
  s_on_connect_cb :: bool
  s_on_completion_cb :: bool
  s_on_disconnect_cb :: bool

record rdma =
  s_ctx :: "nat option"
  cbs :: callbacks
  conns :: "nat \<rightharpoonup> conn_context"
  calls :: "verb_call list"

datatype cm_event = ADDR_RESOLVED | ROUTE_RESOLVED | CONNECT_REQUEST | ESTABLISHED | DISCONNECTED | OTHER_EVENT

definition rc_init :: "bool \<Rightarrow> bool \<Rightarrow> bool \<Rightarrow> bool \<Rightarrow> rdma \<Rightarrow> rdma" where
  "rc_init pc conn cmpl disc s = s\<lparr>cbs := \<lparr>s_on_pre_conn_cb = pc, s_on_connect_cb = conn,
     s_on_completion_cb = cmpl, s_on_disconnect_cb = disc\<rparr>\<rparr>"

definition emit :: "verb_call list \<Rightarrow> rdma \<Rightarrow> rdma" where
  "emit cs s = s\<lparr>calls := calls s @ cs\<rparr>"

text \<open>A second device is only complained about: the context of the first one is used.\<close>

definition build_context :: "nat \<Rightarrow> rdma \<Rightarrow> rdma" where
  "build_context verbs s = (case s_ctx s of Some v \<Rightarrow> s | None \<Rightarrow> emit [AllocContext verbs] (s\<lparr>s_ctx := Some verbs\<rparr>))"

definition build_connection :: "nat \<Rightarrow> nat \<Rightarrow> rdma \<Rightarrow> rdma" where
  "build_connection i verbs s = emit [CreateQp i] (build_context verbs s)"

definition pre_conn :: "rdma_env \<Rightarrow> nat \<Rightarrow> rdma \<Rightarrow> rdma" where
  "pre_conn env i s =
     (if s_on_pre_conn_cb (cbs s) then
        let (ctx, cs) = on_pre_conn env i in emit cs (s\<lparr>conns := (conns s)(i \<mapsto> ctx)\<rparr>)
      else s)"

definition handle_event :: "rdma_env \<Rightarrow> cm_event \<times> nat \<times> nat \<Rightarrow> rdma \<Rightarrow> rdma res" where
  "handle_event env = (\<lambda>(ev, i, verbs) s.
     (case ev of
        ADDR_RESOLVED \<Rightarrow> Inr (emit [ResolveRoute i] (pre_conn env i (build_connection i verbs s)))
      | ROUTE_RESOLVED \<Rightarrow> Inr (emit [Connect i] s)
      | CONNECT_REQUEST \<Rightarrow> Inr (emit [Accept i] (pre_conn env i (build_connection i verbs s)))
      | ESTABLISHED \<Rightarrow>
          if s_on_connect_cb (cbs s) then
            (case conns s i of
               None \<Rightarrow> Inl UseAfterFree
             | Some ctx \<Rightarrow> let (ctx, cs) = on_connection i ctx in Inr (emit cs (s\<lparr>conns := (conns s)(i \<mapsto> ctx)\<rparr>)))
          else Inr s
      | DISCONNECTED \<Rightarrow>
          let s = emit [DestroyQp i] s in
          if s_on_disconnect_cb (cbs s) then
            (case conns s i of
               None \<Rightarrow> Inl UseAfterFree
             | Some ctx \<Rightarrow> Inr (emit (on_disconnect i @ [DestroyId i]) (s\<lparr>conns := (conns s)(i := None)\<rparr>)))
          else Inr (emit [DestroyId i] s)
      | OTHER_EVENT \<Rightarrow> Inr s))"

text \<open>\<open>evs\<close> are the events until the channel fails.\<close>

fun event_loop :: "rdma_env \<Rightarrow> bool \<Rightarrow> (cm_event \<times> nat \<times> nat) list \<Rightarrow> rdma \<Rightarrow> rdma res" where
  "event_loop env exit_on_disconnect [] s = Inr s"
| "event_loop env exit_on_disconnect (ev # evs) s =
     bindR (handle_event env ev s) (\<lambda>s.
       if fst ev = DISCONNECTED \<and> exit_on_disconnect then Inr s
       else event_loop env exit_on_disconnect evs s)"

text \<open>One work completion, as \<^verbatim>\<open>poll_cq\<close> hands it to the callback; \<open>ok\<close> is its status.\<close>

definition poll_cq :: "bool \<Rightarrow> ibv_wc \<Rightarrow> rdma \<Rightarrow> rdma res" where
  "poll_cq ok wc s =
     (if \<not> ok then Inr s
      else if \<not> s_on_completion_cb (cbs s) then Inl NullDeref
      else case conns s (wc_id wc) of
             None \<Rightarrow> Inl UseAfterFree
           | Some ctx \<Rightarrow> bindR (on_completion wc ctx) (\<lambda>(ctx, cs).
               Inr (emit cs (s\<lparr>conns := (conns s)(wc_id wc \<mapsto> ctx)\<rparr>))))"

definition rc_server_loop :: "rdma_env \<Rightarrow> (cm_event \<times> nat \<times> nat) list \<Rightarrow> rdma \<Rightarrow> rdma res" where
  "rc_server_loop env evs s = event_loop env False evs s"

definition rc_client_loop :: "rdma_env \<Rightarrow> (cm_event \<times> nat \<times> nat) list \<Rightarrow> rdma \<Rightarrow> rdma res" where
  "rc_client_loop env evs s = event_loop env True evs s"

text \<open>The callbacks are the process's only ones: the client replaces those of the server.\<close>

definition RdmaServerInit :: "rdma \<Rightarrow> rdma" where
  "RdmaServerInit s = rc_init True True True True s"

definition RdmaClientConnect :: "rdma_env \<Rightarrow> int \<Rightarrow> (cm_event \<times> nat \<times> nat) list \<Rightarrow> rdma \<Rightarrow> rdma res" where
  "RdmaClientConnect env mOpt evs s =
     (let s = rc_init True False True False s in
      if mOpt = 1 \<or> mOpt = 5 then rc_client_loop env evs s else Inr s)"

definition rdma_start :: rdma where
  "rdma_start = \<lparr>s_ctx = None, cbs = \<lparr>s_on_pre_conn_cb = False, s_on_connect_cb = False,
     s_on_completion_cb = False, s_on_disconnect_cb = False\<rparr>, conns = Map.empty, calls = []\<rparr>"

section \<open>C strings of a protocol\<close>

definition no_nul :: "string \<Rightarrow> bool" where
  "no_nul s \<longleftrightarrow> CHR 0x00 \<notin> set s"

lemma char_byte_nonzero: "ch \<noteq> CHR 0x00 \<Longrightarrow> (of_nat (of_char ch) :: u8) \<noteq> 0"
proof
  assume ch: "ch \<noteq> CHR 0x00" and "(of_nat (of_char ch) :: u8) = 0"
  then have "256 dvd (of_char ch :: nat)" by (simp add: word_of_nat_eq_0_iff)
  moreover have "of_char ch < (256 :: nat)" by simp
  ultimately have "of_char ch = (0 :: nat)" using nat_dvd_not_less by blast
  then have "char_of (of_char ch :: nat) = (CHR 0x00)" by (simp add: char_of_def)
  with ch show False by simp
qed

lemma length_c_string [simp]: "length (c_string s) = Suc (length s)"
  by (simp add: c_string_def)

lemma takeWhile_stop: "(\<And>b. b \<in> set xs \<Longrightarrow> P b) \<Longrightarrow> \<not> P z \<Longrightarrow> takeWhile P (xs @ z # rest) = xs"
  by (induction xs) auto

lemma c_strlen_c_string:
  assumes "no_nul s"
  shows "c_strlen (c_string s @ rest) = Some (length s)"
proof -
  define bs :: "u8 list" where "bs = map (\<lambda>ch. of_nat (of_char ch)) s"
  have "b \<noteq> 0" if b: "b \<in> set bs" for b
  proof -
    obtain ch where ch: "ch \<in> set s" "b = of_nat (of_char ch)" using b unfolding bs_def set_map by blast
    then have "ch \<noteq> CHR 0x00" using assms unfolding no_nul_def by blast
    then show ?thesis unfolding ch(2) by (rule char_byte_nonzero)
  qed
  then have "takeWhile (\<lambda>b. b \<noteq> 0) (bs @ 0 # rest) = bs" by (rule takeWhile_stop) simp_all
  moreover have "c_string s @ rest = bs @ 0 # rest" "length bs = length s" by (simp_all add: c_string_def bs_def)
  ultimately show ?thesis by (simp add: c_strlen_def)
qed

lemma strcpy_c_string:
  assumes "no_nul s"
  shows "strcpy dst (c_string s @ rest) = mem_write dst 0 (c_string s)"
  by (simp add: strcpy_def c_strlen_c_string [OF assms])

lemma c_string_first: "no_nul s \<Longrightarrow> s \<noteq> [] \<Longrightarrow> c_string s ! 0 \<noteq> 0"
  by (cases s) (auto simp: c_string_def no_nul_def char_byte_nonzero)

lemma mem_write_same:
  assumes "i < length xs"
  shows "mem_write xs i [xs ! i] = Inr xs"
proof -
  have "take i xs @ xs ! i # drop (Suc i) xs = xs" by (rule id_take_nth_drop [symmetric, OF assms])
  then show ?thesis using assms by (simp add: mem_write_def)
qed

lemma unat_of_nat_u32: "n < 2 ^ 32 \<Longrightarrow> unat (of_nat n :: u32) = n"
  by (simp add: unsigned_of_nat take_bit_nat_eq_self)

section \<open>The two sides together\<close>

lemma write_remote_ok:
  assumes "unat n \<le> length (cl_buffer cl)"
  shows "write_remote cl i n = Inr [PostWrite i (peer_addr cl) (peer_rkey cl) (take (unat n) (cl_buffer cl)) n]"
  using assms by (simp add: write_remote_def mem_read_def)

lemma send_server_name_ok:
  assumes "no_nul (server_name cl)" and "length (server_name cl) < length (cl_buffer cl)" and "length (server_name cl) < 2 ^ 32 - 1"
  shows "\<exists>buf. send_server_name cl i = Inr (cl\<lparr>cl_buffer := buf\<rparr>,
    [PostWrite i (peer_addr cl) (peer_rkey cl) (c_string (server_name cl)) (of_nat (length (server_name cl) + 1))])"
proof -
  let ?nm = "c_string (server_name cl)"
  have cp: "strcpy (cl_buffer cl) ?nm = Inr (?nm @ drop (length ?nm) (cl_buffer cl))"
    using strcpy_c_string [OF assms(1), of "cl_buffer cl" "[]"] assms(2) by (simp add: mem_write_def)
  have "unat (of_nat (length (server_name cl) + 1) :: u32) = length ?nm"
    using assms(3) by (subst unat_of_nat_u32) simp_all
  then show ?thesis
    using assms(2) cp by (simp add: send_server_name_def write_remote_ok del: of_nat_Suc) blast
qed

text \<open>
  The handshake. When the memory region of the server is announced to a client, the client
  writes its server's name, of at most 15 characters, there; a server that has no name yet and finds these bytes in its buffer
  takes the name over, posts a receive and then says that it is ready.
\<close>

lemma name_handshake:
  assumes "msg_id (cl_msg cl) = MSG_MR" and "wc_opcode wc = WC_RECV" and "length (cl_buffer cl) = RDMA_BUFFER_SIZE"
    and nm: "no_nul (server_name cl)" "server_name cl \<noteq> []" "length (server_name cl) \<le> 15"
    and srv: "length (cc_server_name ctx) = MAX_SERVER_NAME" "cc_server_name ctx ! 0 = 0"
      "cc_buffer ctx = c_string (server_name cl) @ rest" "15 \<le> length rest"
  shows "\<exists>cl' n. on_completion_client z wc cl = Inr (cl', [PostWrite (wc_id wc) (mr_addr (cl_msg cl)) (mr_rkey (cl_msg cl))
      (c_string (server_name cl)) n, PostRecv (wc_id wc) sizeof_pointer]) \<and>
    (\<exists>ctx'. on_completion \<lparr>wc_id = j, wc_opcode = WC_RECV_RDMA_WITH_IMM, wc_imm = n\<rparr> ctx =
        Inr (ctx', [PostRecv j 0, PostSend j ((cc_msg ctx)\<lparr>msg_id := MSG_READY\<rparr>)]) \<and>
      take (Suc (length (server_name cl))) (cc_server_name ctx') = c_string (server_name cl) \<and>
      cc_server_name ctx' ! 0 \<noteq> 0 \<and> length (cc_server_name ctx') = MAX_SERVER_NAME)"
proof -
  let ?nm = "server_name cl"
  let ?n = "of_nat (length ?nm + 1) :: u32"
  obtain buf where cl: "send_server_name (cl\<lparr>peer_addr := mr_addr (cl_msg cl), peer_rkey := mr_rkey (cl_msg cl)\<rparr>) (wc_id wc) =
      Inr (cl\<lparr>peer_addr := mr_addr (cl_msg cl), peer_rkey := mr_rkey (cl_msg cl), cl_buffer := buf\<rparr>,
        [PostWrite (wc_id wc) (mr_addr (cl_msg cl)) (mr_rkey (cl_msg cl)) (c_string ?nm) ?n])"
    using send_server_name_ok [of "cl\<lparr>peer_addr := mr_addr (cl_msg cl), peer_rkey := mr_rkey (cl_msg cl)\<rparr>" "wc_id wc"] nm assms(3)
    by (auto simp: RDMA_BUFFER_SIZE_def)
  have "unat ?n = length ?nm + 1" using nm(3) by (subst unat_of_nat_u32) simp_all
  then have n0: "?n \<noteq> 0" by (metis add_is_0 one_neq_zero unsigned_0)
  have n1: "unat (?n - 1) = length ?nm" using nm(3) unat_of_nat_u32 [of "length ?nm"] by simp
  define name where "name = take 16 (c_string ?nm @ rest)"
  have name: "length name = 16" "take (Suc (length ?nm)) name = c_string ?nm" "name ! length ?nm = 0"
    using nm(3) srv(4) by (simp_all add: name_def c_string_def nth_append take_Cons')
  have wr: "mem_write name (length ?nm) [0] = Inr name"
    using mem_write_same [of "length ?nm" name] name(1,3) nm(3) by simp
  have "mem_read (cc_buffer ctx) 0 16 = Inr name" "mem_write (cc_server_name ctx) 0 name = Inr name"
    using srv name(1) by (simp_all add: mem_read_def mem_write_def name_def MAX_SERVER_NAME_def)
  moreover have "name ! 0 \<noteq> 0" using c_string_first [OF nm(1,2)] name(2) by (metis nth_take zero_less_Suc)
  ultimately show ?thesis using assms(1,2) cl srv n0 n1 wr name(1,2)
    by (auto simp: on_completion_client_def on_completion_def reply_def post_receive_def post_receive_client_def
        send_message_def MAX_SERVER_NAME_def Let_def)
qed

definition ex_client :: client_context where
  "ex_client = \<lparr>cl_buffer = replicate RDMA_BUFFER_SIZE 0, cl_msg = \<lparr>msg_id = MSG_MR, mr_addr = 4096, mr_rkey = 7\<rparr>,
     peer_addr = 0, peer_rkey = 0, server_name = ''zstore1''\<rparr>"

definition ex_conn :: conn_context where
  "ex_conn = \<lparr>cc_buffer = c_string ''zstore1'' @ replicate 100 0, cc_region = (4096, 7),
     cc_msg = \<lparr>msg_id = MSG_MR, mr_addr = 4096, mr_rkey = 7\<rparr>, cc_server_name = replicate 16 0\<rparr>"

lemma name_handshake_example:
  "\<exists>cl' n ctx'. on_completion_client ex_ctrl \<lparr>wc_id = 3, wc_opcode = WC_RECV, wc_imm = 0\<rparr> ex_client =
      Inr (cl', [PostWrite 3 4096 7 (c_string ''zstore1'') n, PostRecv 3 sizeof_pointer]) \<and>
    on_completion \<lparr>wc_id = 5, wc_opcode = WC_RECV_RDMA_WITH_IMM, wc_imm = n\<rparr> ex_conn =
      Inr (ctx', [PostRecv 5 0, PostSend 5 \<lparr>msg_id = MSG_READY, mr_addr = 4096, mr_rkey = 7\<rparr>])"
proof -
  have "msg_id (cl_msg ex_client) = MSG_MR" "length (cl_buffer ex_client) = RDMA_BUFFER_SIZE" "no_nul (server_name ex_client)"
      "server_name ex_client \<noteq> []" "length (server_name ex_client) \<le> 15"
    by (simp_all add: ex_client_def no_nul_def)
  moreover have "length (cc_server_name ex_conn) = MAX_SERVER_NAME" "cc_server_name ex_conn ! 0 = 0"
      "cc_buffer ex_conn = c_string (server_name ex_client) @ replicate 100 0" "15 \<le> length (replicate 100 (0 :: u8))"
    by (simp_all add: ex_conn_def ex_client_def MAX_SERVER_NAME_def)
  ultimately show ?thesis
    using name_handshake [of ex_client "\<lparr>wc_id = 3, wc_opcode = WC_RECV, wc_imm = 0\<rparr>" ex_conn "replicate 100 0" ex_ctrl 5]
    by (auto simp: ex_client_def ex_conn_def)
qed

text \<open>
  What the client sends for every broadcast key is the fixed string of 16 characters with its
  terminating zero. A server that has received its name and finds these 17 bytes copies them into
  an array of 16: the copy always leaves the array.
\<close>

lemma sent_hash_overflows:
  assumes "17 \<le> length (cl_buffer cl)" and "cc_server_name ctx ! 0 \<noteq> 0"
    and "cc_buffer ctx = c_string next_hash @ rest"
  shows "\<exists>cl'. send_next_hash cl i = Inr (cl', [PostWrite i (peer_addr cl) (peer_rkey cl) (c_string next_hash) 17]) \<and>
    on_completion \<lparr>wc_id = j, wc_opcode = WC_RECV_RDMA_WITH_IMM, wc_imm = 17\<rparr> ctx = Inl OutOfBounds"
proof -
  have nn: "no_nul next_hash" and len: "length (c_string next_hash) = 17" by (simp_all add: next_hash_def no_nul_def)
  have "strcpy (cl_buffer cl) (c_string next_hash) = Inr (c_string next_hash @ drop 17 (cl_buffer cl))"
    using strcpy_c_string [OF nn, of "cl_buffer cl" "[]"] assms(1) len by (simp add: mem_write_def)
  then have "send_next_hash cl i = Inr (cl\<lparr>cl_buffer := c_string next_hash @ drop 17 (cl_buffer cl)\<rparr>,
      [PostWrite i (peer_addr cl) (peer_rkey cl) (c_string next_hash) 17])"
    using assms(1) len by (simp add: send_next_hash_def write_remote_ok)
  moreover have "strcpy (replicate 16 0) (cc_buffer ctx) = Inl OutOfBounds"
    using strcpy_c_string [OF nn] len by (simp add: assms(3) mem_write_def)
  ultimately show ?thesis using assms(2) by (simp add: on_completion_def)
qed

lemma sent_hash_overflows_example:
  "on_completion \<lparr>wc_id = 5, wc_opcode = WC_RECV_RDMA_WITH_IMM, wc_imm = 17\<rparr>
     (ex_conn\<lparr>cc_buffer := c_string next_hash @ [], cc_server_name := replicate 16 1\<rparr>) = Inl OutOfBounds"
  using sent_hash_overflows [of ex_client "ex_conn\<lparr>cc_buffer := c_string next_hash @ [], cc_server_name := replicate 16 1\<rparr>" "[]" 3 5]
  by (simp add: ex_client_def RDMA_BUFFER_SIZE_def)

section \<open>Flow control of the server\<close>

text \<open>
  A run of one connection: before each completion the peer may have changed the buffer. The calls
  of the run follow those of the connection set-up.
\<close>

definition serve :: "(ibv_wc \<times> u8 list) list \<Rightarrow> conn_context \<times> verb_call list \<Rightarrow> (conn_context \<times> verb_call list) res" where
  "serve evs st = foldR (\<lambda>(wc, buf) (ctx, cs).
     bindR (on_completion wc (ctx\<lparr>cc_buffer := buf\<rparr>)) (\<lambda>(ctx, new). Inr (ctx, cs @ new))) evs st"

fun is_recv :: "verb_call \<Rightarrow> bool" where
  "is_recv (PostRecv _ _) = True"
| "is_recv _ = False"

fun is_send :: "verb_call \<Rightarrow> bool" where
  "is_send (PostSend _ _) = True"
| "is_send _ = False"

definition writes_in :: "(ibv_wc \<times> u8 list) list \<Rightarrow> nat" where
  "writes_in evs = length (filter (\<lambda>(wc, b). wc_opcode wc = WC_RECV_RDMA_WITH_IMM) evs)"

definition ends_in :: "(ibv_wc \<times> u8 list) list \<Rightarrow> nat" where
  "ends_in evs = length (filter (\<lambda>(wc, b). wc_opcode wc = WC_RECV_RDMA_WITH_IMM \<and> wc_imm wc = 0) evs)"

definition num :: "(verb_call \<Rightarrow> bool) \<Rightarrow> verb_call list \<Rightarrow> nat" where
  "num P cs = length (filter P cs)"

lemma num_simps [simp]: "num P (xs @ ys) = num P xs + num P ys" "num P [] = 0"
    "num P (x # xs) = (if P x then Suc (num P xs) else num P xs)"
  by (simp_all add: num_def)

lemma on_completion_calls:
  assumes "on_completion wc ctx = Inr (ctx', new)"
  shows "num is_send new = writes_in [(wc, b)]" "num is_recv new + ends_in [(wc, b)] = writes_in [(wc, b)]"
  using assms
  by (auto simp: on_completion_def reply_def send_message_def post_receive_def writes_in_def ends_in_def Let_def bindR_eq_Inr
      split: if_splits)

lemma serve_calls:
  "serve evs (ctx, cs) = Inr (ctx', cs') \<Longrightarrow>
     num is_send cs' = num is_send cs + writes_in evs \<and> num is_recv cs' + ends_in evs = num is_recv cs + writes_in evs"
proof (induction evs arbitrary: ctx cs)
  case Nil
  then show ?case by (simp add: serve_def writes_in_def ends_in_def)
next
  case (Cons ev evs)
  obtain wc b where ev: "ev = (wc, b)" by (cases ev)
  obtain ctx1 new where st: "on_completion wc (ctx\<lparr>cc_buffer := b\<rparr>) = Inr (ctx1, new)" "serve evs (ctx1, cs @ new) = Inr (ctx', cs')"
    using Cons.prems by (auto simp: serve_def ev bindR_eq_Inr)
  have "writes_in (ev # evs) = writes_in [(wc, b)] + writes_in evs" "ends_in (ev # evs) = ends_in [(wc, b)] + ends_in evs"
    by (simp_all add: ev writes_in_def ends_in_def)
  then show ?case using Cons.IH [OF st(2)] on_completion_calls [OF st(1), of b] by simp
qed


definition ex_rdma_env :: rdma_env where
  "ex_rdma_env = \<lparr>fresh_buffer = (\<lambda>_. replicate 32 0), fresh_message = (\<lambda>_. \<lparr>msg_id = 0, mr_addr = 0, mr_rkey = 0\<rparr>),
     fresh_name = (\<lambda>_. replicate 16 0), region_of = (\<lambda>_. (4096, 7))\<rparr>"


section \<open>Connections of the event loop\<close>

lemma emit_fields [simp]: "s_ctx (emit cs s) = s_ctx s" "cbs (emit cs s) = cbs s" "conns (emit cs s) = conns s"
    "calls (emit cs s) = calls s @ cs"
  by (simp_all add: emit_def)

lemma build_connection_fields [simp]: "cbs (build_connection i v s) = cbs s" "conns (build_connection i v s) = conns s"
    "num is_send (calls (build_connection i v s)) = num is_send (calls s)"
  by (auto simp: build_connection_def build_context_def split: option.split)

lemma pre_conn_fields [simp]: "cbs (pre_conn env i s) = cbs s"
    "dom (conns (pre_conn env i s)) = (if s_on_pre_conn_cb (cbs s) then insert i (dom (conns s)) else dom (conns s))"
    "num is_send (calls (pre_conn env i s)) = num is_send (calls s)"
  by (auto simp: pre_conn_def on_pre_conn_def post_receive_def)

text \<open>The events that a server sees of its connections, in an order that the connection manager keeps.\<close>

fun lifecycle :: "(cm_event \<times> nat \<times> nat) list \<Rightarrow> nat set \<Rightarrow> nat set option" where
  "lifecycle [] live = Some live"
| "lifecycle ((ev, i, v) # evs) live =
     (case ev of
        CONNECT_REQUEST \<Rightarrow> if i \<in> live then None else lifecycle evs (insert i live)
      | ESTABLISHED \<Rightarrow> if i \<in> live then lifecycle evs live else None
      | DISCONNECTED \<Rightarrow> if i \<in> live then lifecycle evs (live - {i}) else None
      | OTHER_EVENT \<Rightarrow> lifecycle evs live
      | _ \<Rightarrow> None)"

definition server_cbs :: callbacks where
  "server_cbs = \<lparr>s_on_pre_conn_cb = True, s_on_connect_cb = True, s_on_completion_cb = True, s_on_disconnect_cb = True\<rparr>"

definition client_cbs :: callbacks where
  "client_cbs = \<lparr>s_on_pre_conn_cb = True, s_on_connect_cb = False, s_on_completion_cb = True, s_on_disconnect_cb = False\<rparr>"

lemma handle_event_live:
  assumes "cbs s = server_cbs" and "lifecycle ((ev, i, v) # evs) (dom (conns s)) = Some live"
  shows "okR (handle_event env (ev, i, v) s) (\<lambda>s'. cbs s' = server_cbs \<and> lifecycle evs (dom (conns s')) = Some live)"
  using assms
  by (cases ev)
     (auto simp: handle_event_def server_cbs_def Let_def on_connection_def insert_absorb domIff split: if_splits option.splits)



lemma handle_event_mute:
  assumes "cbs s = client_cbs"
  shows "okR (handle_event env e s) (\<lambda>s'. cbs s' = client_cbs \<and> num is_send (calls s') = num is_send (calls s) \<and>
    dom (conns s) \<subseteq> dom (conns s'))"
proof -
  obtain ev i v where "e = (ev, i, v)" by (cases e)
  then show ?thesis using assms by (cases ev) (auto simp: handle_event_def client_cbs_def Let_def)
qed

lemma event_loop_mute:
  "cbs s = client_cbs \<Longrightarrow> okR (event_loop env ex evs s) (\<lambda>s'. cbs s' = client_cbs \<and>
     num is_send (calls s') = num is_send (calls s) \<and> dom (conns s) \<subseteq> dom (conns s'))"
proof (induction evs arbitrary: s)
  case (Cons e evs)
  obtain s1 where s1: "handle_event env e s = Inr s1" "cbs s1 = client_cbs" "num is_send (calls s1) = num is_send (calls s)"
      "dom (conns s) \<subseteq> dom (conns s1)"
    using handle_event_mute [OF Cons.prems, of env e] by (auto elim!: okRE)
  have "okR (event_loop env ex evs s1) (\<lambda>s'. cbs s' = client_cbs \<and> num is_send (calls s') = num is_send (calls s) \<and>
      dom (conns s) \<subseteq> dom (conns s'))"
    by (rule okR_mono [OF Cons.IH [OF s1(2)]]) (use s1 in auto)
  then show ?case using s1 by simp
qed simp

lemma RdmaClientConnect_mute:
  "okR (RdmaClientConnect env mOpt cevs (RdmaServerInit s)) (\<lambda>s1. cbs s1 = client_cbs \<and>
     num is_send (calls s1) = num is_send (calls s) \<and> dom (conns s) \<subseteq> dom (conns s1))"
proof -
  let ?s = "rc_init True False True False (RdmaServerInit s)"
  have s: "cbs ?s = client_cbs" "calls ?s = calls s" "conns ?s = conns s"
    by (simp_all add: rc_init_def RdmaServerInit_def client_cbs_def)
  show ?thesis
  proof (cases "mOpt = 1 \<or> mOpt = 5")
    case True
    then show ?thesis using event_loop_mute [OF s(1), of env True cevs] s(2,3)
      by (simp add: RdmaClientConnect_def rc_client_loop_def)
  next
    case False
    then show ?thesis using s by (simp add: RdmaClientConnect_def)
  qed
qed

text \<open>
  The client side of a gateway replaces the callbacks of its server side. From then on the
  server side accepts connections, but it never sends a message on any of them, so no peer learns the address to
  write to, and it never frees the context of a connection, whatever events arrive.
\<close>

lemma client_silences_server:
  "\<exists>s1. RdmaClientConnect env mOpt cevs (RdmaServerInit s) = Inr s1 \<and>
     (\<exists>s2. rc_server_loop env evs s1 = Inr s2 \<and> num is_send (calls s2) = num is_send (calls s) \<and>
       dom (conns s) \<subseteq> dom (conns s1) \<and> dom (conns s1) \<subseteq> dom (conns s2))"
proof -
  obtain s1 where s1: "RdmaClientConnect env mOpt cevs (RdmaServerInit s) = Inr s1" "cbs s1 = client_cbs"
      "num is_send (calls s1) = num is_send (calls s)" "dom (conns s) \<subseteq> dom (conns s1)"
    using RdmaClientConnect_mute [of env mOpt cevs s] by (auto elim!: okRE)
  show ?thesis using event_loop_mute [OF s1(2), of env False evs] s1
    by (auto simp: rc_server_loop_def elim!: okRE)
qed

end
