(* ===== verification/Zstore_Store.thy ===== *)
theory Zstore_Store
  imports Zstore_Requests
begin

text \<open>
  The gateway as an object store: an abstract specification of PUT, GET and DELETE on a set of
  stored keys, and the proof that the request handler of \<^verbatim>\<open>src/src/http_server.cc\<close>, with the
  controller, the request contexts and the device requests below it, implements it.
\<close>

section \<open>The specification\<close>

text \<open>The abstract state is the set of key hashes that are stored; the answer is the HTTP status.\<close>

definition request_key :: "(u8 list \<Rightarrow> u8 list) \<Rightarrow> HttpRequest \<Rightarrow> ObjectKeyHash" where
  "request_key hash req = computeSHA256 hash (snd (parse_url (rq_target req)))"

definition store_spec :: "(u8 list \<Rightarrow> u8 list) \<Rightarrow> http_env \<times> HttpRequest \<Rightarrow> ObjectKeyHash set \<Rightarrow> nat \<times> ObjectKeyHash set" where
  "store_spec hash q S =
     (let k = request_key hash (snd q) in
      case rq_method (snd q) of
        GetV \<Rightarrow> (if k \<in> S then 200 else 404, S)
      | PutV \<Rightarrow> (200, insert k S)
      | PostV \<Rightarrow> (200, insert k S)
      | DeleteV \<Rightarrow> (200, S - {k})
      | _ \<Rightarrow> (200, S))"

section \<open>The implementation\<close>

definition serve_request :: "conf \<Rightarrow> http_env \<times> HttpRequest \<Rightarrow> zctrl \<Rightarrow> (nat \<times> zctrl) res" where
  "serve_request c q z = bindR (awaitable_on_request c (fst q) (snd q) z) (\<lambda>(resp, z). Inr (rs_status resp, z))"

definition stored :: "zctrl \<Rightarrow> ObjectKeyHash set" where
  "stored z = dom (mMap z)"

text \<open>A consistent gateway: it is ready, objects fit a chunk, and every entry names three
  different devices.\<close>

definition store_inv :: "conf \<Rightarrow> nat set \<Rightarrow> zctrl \<Rightarrow> bool" where
  "store_inv c H z \<longleftrightarrow> small_objects c \<and> \<not> gExperimental c \<and> system_ready c z H \<and>
     (\<forall>k e. mMap z k = Some e \<longrightarrow> replicas_ok e)"

text \<open>Requests for objects in an environment whose devices complete their commands.\<close>

definition admissible_request :: "(u8 list \<Rightarrow> u8 list) \<Rightarrow> http_env \<times> HttpRequest \<Rightarrow> bool" where
  "admissible_request hash q \<longleftrightarrow>
     (case q of (env, req) \<Rightarrow> env_ok env \<and> sha env = hash \<and> (\<forall>k. \<exists>cpl. outcomes env k = Completed cpl) \<and>
        rq_method req \<in> {GetV, PutV, PostV, DeleteV} \<and> snd (parse_url (rq_target req)) \<noteq> [] \<and>
        \<not> contains_str (rq_target req) ''max-keys='')"

lemma put_simulates:
  assumes inv: "store_inv c H z" and adm: "admissible_request hash (env, req)" and m: "rq_method req \<in> {PutV, PostV}"
  shows "\<exists>z'. serve_request c (env, req) z = Inr (200, z') \<and> store_inv c H z' \<and> stored z' = insert (request_key hash req) (stored z)"
proof -
  obtain cpl where cpl: "\<And>k. outcomes env k = Completed (cpl k)"
    using adm by (auto simp: admissible_request_def dest!: choice)
  have hyps: "small_objects c" "\<not> gExperimental c" "env_ok env" "system_ready c z H" "snd (parse_url (rq_target req)) \<noteq> []" "sha env = hash"
    using inv adm by (simp_all add: store_inv_def admissible_request_def)
  obtain resp z' e where r: "awaitable_on_request c env req z = Inr (resp, z')" "rs_status resp = 200" "system_ready c z' H"
      "mMap z' = (mMap z)(request_key hash req \<mapsto> e)" "replicas_ok e"
    using put_small_request [OF hyps(1-3) cpl hyps(4) m refl hyps(5)] hyps(6) by (auto simp: request_key_def)
  then show ?thesis using inv by (auto simp: serve_request_def store_inv_def stored_def)
qed

lemma get_simulates:
  assumes inv: "store_inv c H z" and adm: "admissible_request hash (env, req)" and m: "rq_method req = GetV"
  shows "\<exists>z'. serve_request c (env, req) z = Inr (if request_key hash req \<in> stored z then 200 else 404, z') \<and>
    store_inv c H z' \<and> stored z' = stored z"
proof (cases "mMap z (request_key hash req)")
  case None
  then show ?thesis using inv adm m
    by (auto simp: serve_request_def awaitable_on_request_def handle_get_def handle_not_found_request_def response_def
        GetObject_def AddToBroadcast_def Let_def stored_def request_key_def store_inv_def admissible_request_def
        system_ready_def ctrl_inv_def split: prod.split)
next
  case (Some e)
  have hyps: "small_objects c" "sent env" "ctrl_inv c z H" "\<not> contains_str (rq_target req) ''max-keys=''"
      "snd (parse_url (rq_target req)) \<noteq> []" "sha env = hash" "system_ready c z H" "replicas_ok e"
    using inv adm Some by (auto simp: store_inv_def admissible_request_def env_ok_def system_ready_def)
  have get: "GetObject (computeSHA256 (sha env) (snd (parse_url (rq_target req)))) z = Some e"
    using Some hyps(6) by (simp add: GetObject_def request_key_def)
  have "0 \<le> device_id (loc0 e)" "device_id (loc0 e) < 6" using hyps(8) by (simp_all add: replicas_ok_def)
  moreover from this obtain a :: u8 where a: "device_id (loc0 e) = uint a" "a < 6"
    by (rule_tac that [of "of_int (device_id (loc0 e))"]) (simp_all add: word_less_def uint_word_of_int)
  ultimately have dev: "GetDeviceById (device_id (loc0 e)) z = Some (unat a)" "device_ready (Some (unat a)) z"
    using system_ready_device [OF hyps(7) a(2)] by simp_all
  obtain bs z' where r: "awaitable_on_request c env req z = Inr (response 200 ''object'' (bytes_string bs) req, z')" "ctrl_inv c z' H"
      "io_frame H (AddToBroadcast (computeSHA256 (sha env) (snd (parse_url (rq_target req)))) z) z'"
    using get_stored_object [OF hyps(1-4) refl hyps(5) m get dev] by blast
  have "mMap z' = mMap z" "system_ready c z' H"
    using io_frame_fields [OF r(3)] hyps(7) r(2) by (simp_all add: AddToBroadcast_def system_ready_def)
  then show ?thesis using inv r(1) Some by (auto simp: serve_request_def store_inv_def stored_def response_def)
qed

lemma delete_simulates:
  assumes "store_inv c H z" and "admissible_request hash (env, req)" and "rq_method req = DeleteV"
  shows "\<exists>z'. serve_request c (env, req) z = Inr (200, z') \<and> store_inv c H z' \<and> stored z' = stored z - {request_key hash req}"
  using assms
  by (auto simp: serve_request_def awaitable_on_request_def DeleteObject_def handle_request_def response_def store_inv_def
      stored_def request_key_def admissible_request_def system_ready_def ctrl_inv_def split: prod.split if_splits)

interpretation gateway: simulation "serve_request c" "store_spec hash" stored "store_inv c H" "admissible_request hash"
  for c H hash
proof
  fix s q
  assume inv: "store_inv c H s" and adm: "admissible_request hash q"
  obtain env req where q: "q = (env, req)" by (cases q)
  have "rq_method req \<in> {GetV, PutV, PostV, DeleteV}" using adm by (simp add: q admissible_request_def)
  then show "\<exists>r s'. serve_request c q s = Inr (r, s') \<and> store_inv c H s' \<and> store_spec hash q (stored s) = (r, stored s')"
    using put_simulates [OF inv adm [unfolded q]] get_simulates [OF inv adm [unfolded q]] delete_simulates [OF inv adm [unfolded q]]
    by (auto simp: q store_spec_def Let_def)
qed

text \<open>
  (C2) The gateway implements the specification. Whatever sequence of PUT, GET and DELETE requests
  for objects that fit a chunk it serves while the devices complete their commands, it never
  faults, it answers each request with the status the specification gives, the keys that it has stored at the end are those of
  the specification, and it is again consistent.
\<close>

theorem gateway_refines_store:
  assumes "store_inv c H z" and "list_all (admissible_request hash) qs"
  shows "\<exists>sts z'. run_steps (serve_request c) qs z = Inr (sts, z') \<and> store_inv c H z' \<and>
    run_spec (store_spec hash) qs (stored z) = (sts, stored z')"
  by (rule gateway.run_simulates [OF assms])

theorem gateway_refines_store_witness:
  "\<exists>z'. run_steps (serve_request conf_default)
      [(ex_env, ex_request PutV ''/b/k''), (ex_env, ex_request GetV ''/b/k''), (ex_env, ex_request DeleteV ''/b/k''),
       (ex_env, ex_request GetV ''/b/k'')] ex_zctrl = Inr ([200, 200, 200, 404], z')"
proof -
  let ?qs = "[(ex_env, ex_request PutV ''/b/k''), (ex_env, ex_request GetV ''/b/k''), (ex_env, ex_request DeleteV ''/b/k''),
       (ex_env, ex_request GetV ''/b/k'')]"
  have "mMap ex_zctrl = Map.empty" by (simp add: ex_zctrl_def)
  then have inv: "store_inv conf_default {} ex_zctrl" using ex_small ex_ready by (simp add: store_inv_def)
  have "\<And>k. outcomes ex_env k = Completed \<lparr>cpl_error = False, cdw0 = 7\<rparr>" by (simp add: ex_env_def)
  then have adm: "list_all (admissible_request (sha ex_env)) ?qs" using ex_small(3)
    by (simp add: admissible_request_def ex_request_def contains_str_def parse_url_def upt_rec)
  have "run_spec (store_spec (sha ex_env)) ?qs (stored ex_zctrl) = ([200, 200, 200, 404], {})"
    using \<open>mMap ex_zctrl = Map.empty\<close> by (simp add: store_spec_def ex_request_def Let_def stored_def request_key_def)
  then show ?thesis using gateway_refines_store [OF inv adm] by auto
qed

end
