(* ===== verification/Zstore_Init.thy ===== *)
theory Zstore_Init
  imports Zstore_Zk Zstore_Rdma Zstore_Store
begin

text \<open>
  Starting a gateway (\<^verbatim>\<open>src/src/zstore_controller.cc\<close>: \<^verbatim>\<open>populateIpPorts\<close>, \<^verbatim>\<open>SetParameters\<close>,
  \<^verbatim>\<open>register_ctrlr\<close>, \<^verbatim>\<open>zns_dev_init\<close>, \<^verbatim>\<open>register_controllers\<close>, \<^verbatim>\<open>ConfigureSpdkQpairs\<close>,
  \<^verbatim>\<open>initIoThread\<close>, \<^verbatim>\<open>Init\<close>; \<^verbatim>\<open>src/src/main.cc\<close>).

  What SPDK answers is the record \<open>spdk_env\<close>. The threads that the functions start have no state of their
  own here: from the moment the HTTP threads run, requests may reach the controller, so the
  part of \<^verbatim>\<open>Init\<close> up to that moment is a definition of its own.
\<close>

section \<open>What SPDK answers\<close>

record spdk_env =
  nvme_connect :: "string \<Rightarrow> string \<Rightarrow> string \<Rightarrow> nat option"
  ctrlr_get_ns :: "nat \<Rightarrow> nat \<Rightarrow> spdk_ns option"
  alloc_io_qpair :: "nat \<Rightarrow> nat \<Rightarrow> nat \<Rightarrow> nat option"
  connect_io_qpair :: "nat \<Rightarrow> bool"
  poll_group_add :: "nat \<Rightarrow> nat \<Rightarrow> bool"
  qpair_is_connected :: "nat \<Rightarrow> bool"
  thread_create :: "nat \<Rightarrow> bool"
  context_memory :: "nat \<Rightarrow> RequestContext"

type_synonym dev_address = "string \<times> string \<times> string \<times> u32 \<times> u32"

section \<open>Devices of a gateway\<close>

definition gateway_port :: "int \<Rightarrow> string" where
  "gateway_port option =
     (if option = 1 then ''5520'' else if option = 5 then ''5521'' else if option = 6 then ''5522'' else [])"

definition populateIpPorts :: "conf \<Rightarrow> int \<Rightarrow> dev_address list" where
  "populateIpPorts c option =
     (let port = gateway_port option; zone = ucast (GetZoneId c) in
      [(''nqn.2024-04.io.zstore2:cnode1'', ''12.12.12.2'', port, zone, zone),
       (''nqn.2024-04.io.zstore3:cnode1'', ''12.12.12.3'', port, zone, zone),
       (''nqn.2024-04.io.zstore5:cnode1'', ''12.12.12.5'', port, zone, zone)])"

definition register_device ::
  "spdk_env \<Rightarrow> nat \<Rightarrow> nat \<Rightarrow> string \<Rightarrow> u32 \<Rightarrow> device list \<times> conf \<Rightarrow> (device list \<times> conf) res" where
  "register_device env ctrlr nsid traddr zone = (\<lambda>(devs, c).
     (case ctrlr_get_ns env ctrlr nsid of
        None \<Rightarrow> Inl NullDeref
      | Some ns \<Rightarrow> bindR (Device_Init ctrlr ns zone (alloc_io_qpair env ctrlr nsid) c new_Device) (\<lambda>(d, c).
          Inr (devs @ [SetDeviceTransportAddress traddr d], c))))"

definition register_ctrlr ::
  "spdk_env \<Rightarrow> nat option \<Rightarrow> string \<Rightarrow> u32 \<Rightarrow> u32 \<Rightarrow> device list \<times> conf \<Rightarrow> (device list \<times> conf) res" where
  "register_ctrlr env ctrlr traddr zone_id1 zone_id2 s =
     (case ctrlr of
        None \<Rightarrow> Inl NullDeref
      | Some ct \<Rightarrow> bindR (register_device env ct 1 traddr zone_id1 s) (register_device env ct 2 traddr zone_id2))"

definition zns_dev_init :: "spdk_env \<Rightarrow> dev_address \<Rightarrow> device list \<times> conf \<Rightarrow> (device list \<times> conf) res" where
  "zns_dev_init env = (\<lambda>(nqn, ip, port, zone_id1, zone_id2) s.
     register_ctrlr env (nvme_connect env nqn ip port) ip zone_id1 zone_id2 s)"

definition register_controllers :: "spdk_env \<Rightarrow> dev_address \<Rightarrow> device list \<times> conf \<Rightarrow> (device list \<times> conf) res" where
  "register_controllers env dev_tuple s = zns_dev_init env dev_tuple s"

section \<open>Parameters and queues\<close>

definition self_ip :: "int \<Rightarrow> string" where
  "self_ip option =
     (if option = 1 then ''12.12.12.1'' else if option = 5 then ''12.12.12.5'' else if option = 6 then ''12.12.12.6'' else [])"

text \<open>
  The RDMA server thread that is started here registers the server's callbacks. \<^verbatim>\<open>pivot\<close>, which is
  set and never read, has no field.
\<close>

definition SetParameters ::
  "spdk_env \<Rightarrow> int \<Rightarrow> int \<Rightarrow> conf \<times> zctrl \<times> rdma \<Rightarrow> (conf \<times> zctrl \<times> rdma) res" where
  "SetParameters env key_experiment option = (\<lambda>(c, z, r).
     let z = z\<lparr>mContextPoolSize := gContextPoolSize c, mOption := option,
               mN := gNumOfDevices c * gNumOfTargets c, mKeyExperiment := key_experiment\<rparr>;
         z = z\<lparr>mGateway := of_int (mOption z)\<rparr>;
         z = z\<lparr>nodeName := ''gateway_'' @ dec_string (unat (mGateway z)), mSelfIp := (case self_ip option of [] \<Rightarrow> mSelfIp z | ip \<Rightarrow> ip)\<rparr>
     in bindR (foldR (register_controllers env) (populateIpPorts c option) ([], c)) (\<lambda>(devs, c).
          Inr (c, z\<lparr>mDevices := devs\<rparr>, RdmaServerInit r)))"

definition check_io_qpair :: "spdk_env \<Rightarrow> zctrl \<Rightarrow> unit res" where
  "check_io_qpair env z =
     (case mDevices z of [] \<Rightarrow> Inl OutOfBounds
      | d # _ \<Rightarrow> (case mIoQueues d of [] \<Rightarrow> Inl OutOfBounds
          | q # _ \<Rightarrow> if qpair_is_connected env q then Inr () else Inl ExitCall))"

definition initIoThread :: "spdk_env \<Rightarrow> conf \<Rightarrow> unit res" where
  "initIoThread env c =
     foldR (\<lambda>threadId _. if threadId < 16 then cassert (thread_create env threadId) else Inl OutOfBounds)
       [0..<nat (gNumIoThreads c)] ()"

text \<open>
  The queue pairs of one device, one for each I/O thread, join the threads' poll groups and are
  connected again.
\<close>

definition join_poll_groups :: "spdk_env \<Rightarrow> conf \<Rightarrow> device \<Rightarrow> unit res" where
  "join_poll_groups env c d =
     bindR (foldR (\<lambda>threadId _. if threadId < length (mIoQueues d) \<and> threadId < 16
         then cassert (poll_group_add env threadId (mIoQueues d ! threadId)) else Inl OutOfBounds)
       [0..<nat (gNumIoThreads c)] ()) (\<lambda>_.
     bindR (ConnectIoPairs c (connect_io_qpair env) d) (\<lambda>_. Inr ()))"

definition ConfigureSpdkQpairs :: "spdk_env \<Rightarrow> conf \<Rightarrow> zctrl \<Rightarrow> unit res" where
  "ConfigureSpdkQpairs env c z =
     bindR (foldR (\<lambda>i _. if i < length (mDevices z) then join_poll_groups env c (mDevices z ! i) else Inl OutOfBounds)
       [0..<nat (mN z)] ()) (\<lambda>_.
     bindR (if gDebug c then check_io_qpair env z else Inr ()) (\<lambda>_.
       initIoThread env c))"

text \<open>Both functions have no effect.\<close>

definition ReadZoneHeaders_ctrl :: "zctrl \<Rightarrow> zctrl" where
  "ReadZoneHeaders_ctrl z = z"

definition DumpAllMap :: "zctrl \<Rightarrow> zctrl" where
  "DumpAllMap z = z"

section \<open>Initialisation\<close>

definition mObjectSizeInBlocks :: "u32 list" where
  "mObjectSizeInBlocks = [1, 2, 4, 8, 16, 32, 64, 128, 256, 512, 1024, 2048, 4096, 8192]"

text \<open>Every size has a pool of 4096 contexts; the pools are keyed by a number of blocks.\<close>

definition mObjectSizePoolMap :: "u32 \<Rightarrow> u32" where
  "mObjectSizePoolMap blocks = (if blocks \<in> set mObjectSizeInBlocks then 4096 else 0)"

definition make_pools :: "spdk_env \<Rightarrow> conf \<Rightarrow> zctrl \<Rightarrow> zctrl" where
  "make_pools env c z =
     (if gReplayWorkload c then
        fold (\<lambda>blocks z. z\<lparr>mReplayRequestContextPool := (mReplayRequestContextPool z)
            (blocks \<mapsto> new_RequestContextPool c (context_memory env) (mObjectSizePoolMap blocks))\<rparr>) mObjectSizeInBlocks z
      else z\<lparr>mRequestContextPool := new_RequestContextPool c (context_memory env) (of_int (mContextPoolSize z))\<rparr>)"

text \<open>Up to the start of the HTTP threads. \<^verbatim>\<open>make_address\<close> throws when no address was set.\<close>

definition Init_until_listening ::
  "spdk_env \<Rightarrow> int \<Rightarrow> int \<Rightarrow> conf \<times> zctrl \<times> rdma \<Rightarrow> (conf \<times> zctrl \<times> rdma) res" where
  "Init_until_listening env key_experiment option s =
     bindR (SetParameters env key_experiment option s) (\<lambda>(c, z, r).
     let z = make_pools env c z in
     bindR (ConfigureSpdkQpairs env c z) (\<lambda>_.
     if mSelfIp z = [] then Inl SystemError else Inr (c, z, r)))"

definition Init ::
  "spdk_env \<Rightarrow> (u8 list \<Rightarrow> u8 list) \<Rightarrow> http_env \<Rightarrow> 'k zookeeper \<Rightarrow> string \<Rightarrow> nat \<Rightarrow> (zk_event \<times> zk_state) list \<Rightarrow>
   rdma_env \<Rightarrow> (cm_event \<times> nat \<times> nat) list \<Rightarrow> int \<Rightarrow> int \<Rightarrow> conf \<times> zctrl \<times> rdma \<Rightarrow> 'k \<Rightarrow> ((conf \<times> zctrl \<times> rdma) \<times> 'k) res" where
  "Init env H henv zk after fuel zevs renv revs key_experiment option s k =
     bindR (Init_until_listening env key_experiment option s) (\<lambda>(c, z, r).
     let z = ReadZoneHeaders_ctrl (PopulateMap c H (PopulateDevHash c z)) in
     bindR (if mKeyExperiment z = 6 then SetupZookeeper c henv zk after fuel zevs (z, k) else Inr (z, k)) (\<lambda>(z, k).
     bindR (RdmaClientConnect renv option revs r) (\<lambda>r. Inr ((c, z, r), k))))"

text \<open>\<^verbatim>\<open>std::stoull\<close> and the conversion of its value to \<^verbatim>\<open>int\<close>.\<close>

definition stoull :: "string \<Rightarrow> u64 res" where
  "stoull s =
     (let s = dropWhile is_space s;
          (neg, t) = (case s of [] \<Rightarrow> (False, []) | ch # cs \<Rightarrow>
             if ch = CHR ''-'' then (True, cs) else if ch = CHR ''+'' then (False, cs) else (False, s));
          ds = takeWhile is_digit t;
          v = fold (\<lambda>ch v. 10 * v + digit_val ch) ds 0
      in if ds = [] then Inl InvalidArgument else if v \<ge> 2 ^ 64 then Inl OutOfRange
         else Inr (if neg then - of_int v else of_int v))"

definition int_of_ull :: "u64 \<Rightarrow> int" where
  "int_of_ull w = sint (ucast w :: 32 word)"

text \<open>
  \<^verbatim>\<open>main\<close>: \<open>env_init\<close> and \<open>lib_init\<close> are the results of starting SPDK. The value is the exit code
  that is set when the last of the branches ends; the process then waits for the I/O threads, which never leave their loop.
\<close>

definition zstore_main ::
  "string list \<Rightarrow> int \<Rightarrow> int \<Rightarrow> spdk_env \<Rightarrow> (u8 list \<Rightarrow> u8 list) \<Rightarrow> http_env \<Rightarrow> 'k zookeeper \<Rightarrow> string \<Rightarrow> nat \<Rightarrow>
   (zk_event \<times> zk_state) list \<Rightarrow> rdma_env \<Rightarrow> (cm_event \<times> nat \<times> nat) list \<Rightarrow> conf \<times> zctrl \<times> rdma \<Rightarrow> 'k \<Rightarrow>
   (int \<times> (conf \<times> zctrl \<times> rdma) \<times> 'k) res" where
  "zstore_main argv env_init lib_init env H henv zk after fuel zevs renv revs s k =
     (if length argv < 3 then Inr (1, s, k)
      else
        bindR (stoull (argv ! 1)) (\<lambda>key_experiment.
        bindR (stoull (argv ! 2)) (\<lambda>phase.
        if env_init < 0 then Inr (1, s, k)
        else if lib_init < 0 then Inr (1, s, k)
        else bindR (Init env H henv zk after fuel zevs renv revs (int_of_ull key_experiment) (int_of_ull phase) s k) (\<lambda>((c, z, r), k).
          if mKeyExperiment z = 1 then Inr (0, (c, z, r), k)
          else if mKeyExperiment z = 6 then
            bindR (Checkpoint c henv zk after fuel (z, k)) (\<lambda>(z, k). Inr (0, (c, z, r), k))
          else if mKeyExperiment z = 2 \<and> mOption z = 1 then Inr (0, (c, DumpAllMap z, r), k)
          else Inr (0, (c, z, r), k)))))"

section \<open>A started gateway is ready\<close>

text \<open>SPDK connects, both namespaces of a controller are active, and its resources suffice.\<close>

definition spdk_ok :: "spdk_env \<Rightarrow> bool" where
  "spdk_ok env \<longleftrightarrow> (\<forall>nqn ip port. nvme_connect env nqn ip port \<noteq> None) \<and>
     (\<forall>ct. ctrlr_get_ns env ct 1 \<noteq> None \<and> ctrlr_get_ns env ct 2 \<noteq> None) \<and>
     (\<forall>ct nsid i. alloc_io_qpair env ct nsid i \<noteq> None) \<and>
     (\<forall>i q. poll_group_add env i q) \<and> (\<forall>i. thread_create env i)"

definition conf_starts :: "conf \<Rightarrow> bool" where
  "conf_starts c \<longleftrightarrow> \<not> gDebug c \<and> \<not> gReplayWorkload c \<and> gNumOfDevices c * gNumOfTargets c = 6 \<and>
     0 < gNumIoThreads c \<and> gNumIoThreads c \<le> 16"

lemma alloc_qpairs_ok: "(\<And>i. alloc i \<noteq> None) \<Longrightarrow> okR (alloc_qpairs alloc n) (\<lambda>qs. length qs = n)"
proof (induction n)
  case (Suc n)
  obtain qs where "alloc_qpairs alloc n = Inr qs" "length qs = n" using Suc by (auto elim!: okRE)
  moreover obtain q where "alloc n = Some q" using Suc.prems [of n] by auto
  ultimately show ?case by simp
qed simp

definition registered :: "conf \<Rightarrow> device \<Rightarrow> bool" where
  "registered c d \<longleftrightarrow> length (mIoQueues d) = nat (gNumIoThreads c)"

lemma register_device_ok:
  assumes "spdk_ok env" and "nsid = 1 \<or> nsid = 2" and "\<not> gDebug c"
  shows "okR (register_device env ct nsid a zone (devs, c)) (\<lambda>(devs', c'). c' = c \<and> (\<exists>d. devs' = devs @ [d] \<and> registered c d))"
proof -
  have "ctrlr_get_ns env ct nsid \<noteq> None" using assms(1,2) unfolding spdk_ok_def by blast
  then obtain ns where ns: "ctrlr_get_ns env ct nsid = Some ns" by auto
  have "\<And>i. alloc_io_qpair env ct nsid i \<noteq> None" using assms(1) unfolding spdk_ok_def by blast
  then obtain qs where "alloc_qpairs (alloc_io_qpair env ct nsid) (nat (gNumIoThreads c)) = Inr qs" "length qs = nat (gNumIoThreads c)"
    using okRE [OF alloc_qpairs_ok [of "alloc_io_qpair env ct nsid" "nat (gNumIoThreads c)"]] by blast
  then show ?thesis using ns assms(3)
    by (simp add: register_device_def Device_Init_def Let_def registered_def SetDeviceTransportAddress_def)
qed

lemma register_controllers_ok:
  assumes "spdk_ok env" and "\<not> gDebug c"
  shows "okR (register_controllers env a (devs, c)) (\<lambda>(devs', c'). c' = c \<and>
    (\<exists>ds. devs' = devs @ ds \<and> length ds = 2 \<and> list_all (registered c) ds))"
proof -
  obtain nqn ip port z1 z2 where a: "a = (nqn, ip, port, z1, z2)" by (cases a)
  have "nvme_connect env nqn ip port \<noteq> None" using assms(1) unfolding spdk_ok_def by blast
  then obtain ct where ct: "nvme_connect env nqn ip port = Some ct" by auto
  obtain d1 where d1: "register_device env ct 1 ip z1 (devs, c) = Inr (devs @ [d1], c)" "registered c d1"
    using register_device_ok [OF assms(1) _ assms(2), of 1 ct ip z1 devs] by (auto elim!: okRE)
  obtain d2 where d2: "register_device env ct 2 ip z2 (devs @ [d1], c) = Inr (devs @ [d1, d2], c)" "registered c d2"
    using register_device_ok [OF assms(1) _ assms(2), of 2 ct ip z2 "devs @ [d1]"] by (auto elim!: okRE)
  show ?thesis using a ct d1 d2
    by (simp add: register_controllers_def zns_dev_init_def register_ctrlr_def)
qed

lemma register_all_ok:
  assumes "spdk_ok env" and "\<not> gDebug c"
  shows "okR (foldR (register_controllers env) as (devs, c)) (\<lambda>(devs', c'). c' = c \<and>
    (\<exists>ds. devs' = devs @ ds \<and> length ds = 2 * length as \<and> list_all (registered c) ds))"
proof (induction as arbitrary: devs)
  case (Cons a as)
  obtain ds where ds: "register_controllers env a (devs, c) = Inr (devs @ ds, c)" "length ds = 2" "list_all (registered c) ds"
    using register_controllers_ok [OF assms, of a devs] by (auto elim!: okRE)
  show ?case unfolding foldR.simps ds(1) bindR_Inr
    by (rule okR_mono [OF Cons.IH]) (use ds in auto)
qed simp

lemma SetParameters_ok:
  assumes "spdk_ok env" and "\<not> gDebug c" and "option \<in> {1, 5, 6}"
  shows "okR (SetParameters env key option (c, z, r)) (\<lambda>(c', z', r'). c' = c \<and> r' = RdmaServerInit r \<and>
    mDevHash z' = mDevHash z \<and> mMap z' = mMap z \<and> mN z' = gNumOfDevices c * gNumOfTargets c \<and> mKeyExperiment z' = key \<and>
    mOption z' = option \<and> mSelfIp z' \<noteq> [] \<and> length (mDevices z') = 6 \<and> list_all (registered c) (mDevices z'))"
proof -
  have "length (populateIpPorts c option) = 3" by (simp add: populateIpPorts_def Let_def)
  then obtain ds where "foldR (register_controllers env) (populateIpPorts c option) ([], c) = Inr (ds, c)" "length ds = 6"
      "list_all (registered c) ds"
    using register_all_ok [OF assms(1,2), of "populateIpPorts c option" "[]"] by (auto elim!: okRE)
  then show ?thesis using assms(3)
    by (auto simp: SetParameters_def Let_def self_ip_def)
qed

lemma foldR_unit: "(\<And>x. x \<in> set xs \<Longrightarrow> f x () = Inr ()) \<Longrightarrow> foldR f xs () = Inr ()"
  by (induction xs) auto

lemma ConfigureSpdkQpairs_ok:
  assumes "spdk_ok env" and "conf_starts c" and "mN z = 6" "length (mDevices z) = 6" "list_all (registered c) (mDevices z)"
  shows "ConfigureSpdkQpairs env c z = Inr ()"
proof -
  have "nat (gNumIoThreads c) \<le> 16" "\<not> gDebug c" using assms(2) by (auto simp: conf_starts_def)
  moreover have "join_poll_groups env c d = Inr ()" if "d \<in> set (mDevices z)" for d
  proof -
    have q: "nat (gNumIoThreads c) \<le> length (mIoQueues d)" using that assms(5) by (auto simp: list_all_iff registered_def)
    have "foldR (\<lambda>threadId _. if threadId < length (mIoQueues d) \<and> threadId < 16
        then cassert (poll_group_add env threadId (mIoQueues d ! threadId)) else Inl OutOfBounds)
        [0..<nat (gNumIoThreads c)] () = Inr ()"
      using q assms(1,2) by (intro foldR_unit) (auto simp: spdk_ok_def conf_starts_def)
    then show ?thesis by (simp add: join_poll_groups_def ConnectIoPairs_connects [OF q])
  qed
  moreover have "initIoThread env c = Inr ()" unfolding initIoThread_def
    using calculation(1) assms(1) by (intro foldR_unit) (auto simp: spdk_ok_def)
  moreover have "foldR (\<lambda>i _. if i < length (mDevices z) then join_poll_groups env c (mDevices z ! i) else Inl OutOfBounds)
      [0..<nat (mN z)] () = Inr ()"
    using assms(3,4) calculation(3) by (intro foldR_unit) simp
  ultimately show ?thesis by (simp add: ConfigureSpdkQpairs_def)
qed

lemma make_pools_fields:
  assumes "\<not> gReplayWorkload c"
  shows "ctrl_inv c (make_pools env c z) {}" "mDevHash (make_pools env c z) = mDevHash z" "mMap (make_pools env c z) = mMap z"
    "mDevices (make_pools env c z) = mDevices z" "mN (make_pools env c z) = mN z" "mSelfIp (make_pools env c z) = mSelfIp z"
    "mKeyExperiment (make_pools env c z) = mKeyExperiment z" "mOption (make_pools env c z) = mOption z"
  using assms new_pool_inv by (simp_all add: make_pools_def ctrl_inv_def)

lemma Init_until_listening_ok:
  assumes "spdk_ok env" and cs: "conf_starts c" and "option \<in> {1, 5, 6}"
  shows "okR (Init_until_listening env key option (c, z, r)) (\<lambda>(c', z', r'). c' = c \<and> r' = RdmaServerInit r \<and>
    mDevHash z' = mDevHash z \<and> mMap z' = mMap z \<and> mKeyExperiment z' = key \<and> mOption z' = option \<and> ctrl_inv c z' {} \<and>
    length (mDevices z') = 6 \<and> list_all (registered c) (mDevices z'))"
proof -
  have c: "\<not> gDebug c" "\<not> gReplayWorkload c" "gNumOfDevices c * gNumOfTargets c = 6" using cs by (simp_all add: conf_starts_def)
  obtain z1 where z1: "SetParameters env key option (c, z, r) = Inr (c, z1, RdmaServerInit r)"
      "mDevHash z1 = mDevHash z" "mMap z1 = mMap z" "mN z1 = 6" "mKeyExperiment z1 = key" "mOption z1 = option" "mSelfIp z1 \<noteq> []"
      "length (mDevices z1) = 6" "list_all (registered c) (mDevices z1)"
    using SetParameters_ok [OF assms(1) c(1) assms(3), of key z r] c(3) by (auto elim!: okRE)
  note mp = make_pools_fields [OF c(2), of env z1]
  have "ConfigureSpdkQpairs env c (make_pools env c z1) = Inr ()"
    by (rule ConfigureSpdkQpairs_ok [OF assms(1) cs]) (simp_all add: mp z1)
  then show ?thesis using z1 mp by (simp add: Init_until_listening_def)
qed

lemma PopulateMap_frame: "PopulateMap c H z = z\<lparr>mMap := mMap (PopulateMap c H z), mInflight := mInflight (PopulateMap c H z)\<rparr>"
  by (simp add: PopulateMap_def populateCkptMap_def populateGcMap_def)

lemma ready_after_population:
  assumes "ctrl_inv c z {}" and "length (mDevices z) = 6" "list_all (registered c) (mDevices z)" and "0 < gNumIoThreads c" "mDevHash z = []"
  shows "system_ready c (PopulateMap c H (PopulateDevHash c z)) {}"
proof -
  obtain m i where p: "PopulateMap c H (PopulateDevHash c z) = (PopulateDevHash c z)\<lparr>mMap := m, mInflight := i\<rparr>"
    using PopulateMap_frame [of c H "PopulateDevHash c z"] by blast
  have "mDevHash (PopulateDevHash c z) \<noteq> []" by (simp add: PopulateDevHash_def tgt_dev_vec_def Let_def upt_rec)
  moreover have "dev_tuple_ok t" if "t \<in> set (mDevHash (PopulateDevHash c z))" for t
    using dev_hash_new_ok [OF that] assms(5) by simp
  moreover have "mIoQueues (mDevices z ! d) \<noteq> []" if "d < 6" for d
    using assms(2-4) that by (auto simp: list_all_length registered_def)
  moreover have "mRequestContextPool (PopulateDevHash c z) = mRequestContextPool z" by (simp add: PopulateDevHash_def Let_def)
  ultimately show ?thesis using assms(1,2) by (simp add: p system_ready_def ctrl_inv_def)
qed

lemma Init_ok:
  assumes "spdk_ok env" and cs: "conf_starts c" and "option \<in> {1, 5, 6}" and "key \<noteq> 6" and "mDevHash z = []"
  shows "\<exists>z1 z' r'. Init env H henv zk after fuel zevs renv revs key option (c, z, r) k = Inr ((c, z', r'), k) \<and>
    system_ready c z' {} \<and> z' = PopulateMap c H (PopulateDevHash c z1) \<and> mMap z1 = mMap z \<and> mKeyExperiment z1 = key \<and> mOption z1 = option"
proof -
  obtain z1 where z1: "Init_until_listening env key option (c, z, r) = Inr (c, z1, RdmaServerInit r)"
      "mDevHash z1 = mDevHash z" "mMap z1 = mMap z" "mKeyExperiment z1 = key" "mOption z1 = option" "ctrl_inv c z1 {}"
      "length (mDevices z1) = 6" "list_all (registered c) (mDevices z1)"
    using Init_until_listening_ok [OF assms(1-3), of key z r] by (auto elim!: okRE)
  obtain r' where r': "RdmaClientConnect renv option revs (RdmaServerInit r) = Inr r'"
    using RdmaClientConnect_mute [of renv option revs r] by (auto elim!: okRE)
  let ?z = "PopulateMap c H (PopulateDevHash c z1)"
  have ready: "system_ready c ?z {}"
    by (rule ready_after_population) (use z1 assms(5) cs in \<open>simp_all add: conf_starts_def\<close>)
  have "mKeyExperiment ?z = key" by (subst PopulateMap_frame) (simp add: z1(4) PopulateDevHash_def Let_def)
  then show ?thesis using z1 r' ready assms(4) by (simp add: Init_def ReadZoneHeaders_ctrl_def) blast
qed


definition ex_spdk :: spdk_env where
  "ex_spdk = \<lparr>nvme_connect = (\<lambda>_ _ _. Some 1),
     ctrlr_get_ns = (\<lambda>_ n. Some \<lparr>ns_id = n, ns_zone_size_sectors = 524288, ns_num_zones = 904, ns_md_size = 0\<rparr>),
     alloc_io_qpair = (\<lambda>_ _ i. Some i), connect_io_qpair = (\<lambda>_. True), poll_group_add = (\<lambda>_ _. True), qpair_is_connected = (\<lambda>_. True),
     thread_create = (\<lambda>_. True), context_memory = (\<lambda>_. zero_context)\<rparr>"

definition ex_new :: zctrl where
  "ex_new = ex_zctrl\<lparr>mDevHash := [], mDevices := []\<rparr>"

lemma ex_starts: "spdk_ok ex_spdk" "conf_starts conf_default" "mDevHash ex_new = []" "mMap ex_new = Map.empty"
  by (simp_all add: spdk_ok_def ex_spdk_def conf_starts_def conf_default_def ex_new_def ex_zctrl_def)


text \<open>
  The HTTP threads are started before the device hash is filled. A PUT or POST that reaches the
  controller in between divides by the size of the empty hash.
\<close>

lemma put_while_starting:
  assumes "spdk_ok env" and "conf_starts c" and "option \<in> {1, 5, 6}" and "mDevHash z = []" and "\<not> gExperimental c"
    and "rq_method req \<in> {PutV, PostV}" and "snd (parse_url (rq_target req)) \<noteq> []"
  shows "\<exists>z' r'. Init_until_listening env key option (c, z, r) = Inr (c, z', r') \<and>
    awaitable_on_request c henv req z' = Inl DivByZero"
proof -
  obtain z' where z': "Init_until_listening env key option (c, z, r) = Inr (c, z', RdmaServerInit r)" "mDevHash z' = []"
    using Init_until_listening_ok [OF assms(1-3), of key z r] assms(4) by (auto elim!: okRE)
  have "handle_put c henv (snd (parse_url (rq_target req))) h req z' = Inl DivByZero" for h
    using assms(5,7) z'(2) by (simp add: handle_put_def Let_def GetDevTuple_def AddToBroadcast_def)
  then show ?thesis using z'(1) assms(6) by (auto simp: awaitable_on_request_def Let_def split: prod.split)
qed

lemma put_while_starting_example:
  "\<exists>z' r'. Init_until_listening ex_spdk 2 1 (conf_default, ex_new, rdma_start) = Inr (conf_default, z', r') \<and>
     awaitable_on_request conf_default ex_env (ex_request PutV ''/b/k'') z' = Inl DivByZero"
  by (rule put_while_starting [OF ex_starts(1,2) _ ex_starts(3) ex_small(2)]) (simp_all add: ex_request_def parse_url_def)

end
