(* ===== verification/Zstore_Phase2.thy ===== *)
theory Zstore_Phase2
  imports Zstore_Controller
begin

text \<open>
  Waiting for the second phase of a write (\<^verbatim>\<open>src/src/zstore_controller.cc\<close>: \<^verbatim>\<open>WaitForPhase2\<close>,
  \<^verbatim>\<open>ReleaseKey\<close>; \<^verbatim>\<open>CondEntry\<close> and \<^verbatim>\<open>CondMap\<close> of \<^verbatim>\<open>include/types.h\<close>), as steps of concurrent
  threads. A thread that waits makes a condition entry of its own, so entries are named by their
  threads. The insertion, the end of the wait, the erasure and a release are atomic steps.
\<close>

section \<open>State and steps\<close>

datatype waiter_pc = Absent | Waiting ObjectKeyHash | Woken ObjectKeyHash | Finished

record CondEntry =
  released :: bool

record phase2 =
  mCondMap :: "ObjectKeyHash \<rightharpoonup> nat"
  conds :: "nat \<rightharpoonup> CondEntry"
  pcs :: "nat \<Rightarrow> waiter_pc"

definition phase2_init :: phase2 where
  "phase2_init = \<lparr>mCondMap = Map.empty, conds = Map.empty, pcs = \<lambda>_. Absent\<rparr>"

text \<open>The entry of the thread goes into the map unless the key has one already.\<close>

definition wait_enter :: "nat \<Rightarrow> ObjectKeyHash \<Rightarrow> phase2 \<Rightarrow> phase2" where
  "wait_enter t key s =
     s\<lparr>mCondMap := (case mCondMap s key of None \<Rightarrow> (mCondMap s)(key \<mapsto> t) | Some _ \<Rightarrow> mCondMap s),
       conds := (conds s)(t \<mapsto> \<lparr>released = False\<rparr>), pcs := (pcs s)(t := Waiting key)\<rparr>"

definition wait_wake :: "nat \<Rightarrow> ObjectKeyHash \<Rightarrow> phase2 \<Rightarrow> phase2" where
  "wait_wake t key s = s\<lparr>pcs := (pcs s)(t := Woken key)\<rparr>"

definition wait_leave :: "nat \<Rightarrow> ObjectKeyHash \<Rightarrow> phase2 \<Rightarrow> phase2" where
  "wait_leave t key s = s\<lparr>mCondMap := (mCondMap s)(key := None), pcs := (pcs s)(t := Finished)\<rparr>"

definition ReleaseKey :: "ObjectKeyHash \<Rightarrow> phase2 \<Rightarrow> phase2" where
  "ReleaseKey key s =
     (case mCondMap s key of
        None \<Rightarrow> s
      | Some t \<Rightarrow> s\<lparr>conds := (conds s)(t := map_option (released_update (\<lambda>_. True)) (conds s t))\<rparr>)"

definition is_released :: "phase2 \<Rightarrow> nat \<Rightarrow> bool" where
  "is_released s t = (case conds s t of None \<Rightarrow> False | Some e \<Rightarrow> released e)"

inductive WaitForPhase2 :: "phase2 \<Rightarrow> phase2 \<Rightarrow> bool" where
  enter: "pcs s t = Absent \<Longrightarrow> WaitForPhase2 s (wait_enter t key s)"
| wake: "pcs s t = Waiting key \<Longrightarrow> is_released s t \<Longrightarrow> WaitForPhase2 s (wait_wake t key s)"
| leave: "pcs s t = Woken key \<Longrightarrow> WaitForPhase2 s (wait_leave t key s)"
| release: "WaitForPhase2 s (ReleaseKey key s)"

abbreviation phase2_steps :: "phase2 \<Rightarrow> phase2 \<Rightarrow> bool" where
  "phase2_steps \<equiv> WaitForPhase2\<^sup>*\<^sup>*"

section \<open>Invariants\<close>

text \<open>
  An entry of the map belongs to a thread that waits for its key; a thread that waits has an
  entry of its own; no thread goes on before it is released.
\<close>

definition phase2_inv :: "phase2 \<Rightarrow> bool" where
  "phase2_inv s \<longleftrightarrow>
     (\<forall>key t. mCondMap s key = Some t \<longrightarrow> pcs s t = Waiting key \<or> pcs s t = Woken key) \<and>
     (\<forall>t key. pcs s t = Waiting key \<longrightarrow> conds s t \<noteq> None) \<and>
     (\<forall>t. pcs s t = Finished \<or> (\<exists>key. pcs s t = Woken key) \<longrightarrow> is_released s t)"

lemma is_released_ReleaseKey:
  "is_released (ReleaseKey key s) t \<longleftrightarrow> is_released s t \<or> (mCondMap s key = Some t \<and> conds s t \<noteq> None)"
  by (auto simp: is_released_def ReleaseKey_def split: option.splits)

lemma ReleaseKey_fields [simp]: "mCondMap (ReleaseKey key s) = mCondMap s" "pcs (ReleaseKey key s) = pcs s"
    "conds (ReleaseKey key s) t = None \<longleftrightarrow> conds s t = None"
  by (auto simp: ReleaseKey_def split: option.split)

lemma wait_leave_fields: "pcs (wait_leave t key s) t = Finished" "mCondMap (wait_leave t key s) key = None"
  by (simp_all add: wait_leave_def)

lemma phase2_inv_init: "phase2_inv phase2_init"
  by (simp add: phase2_inv_def phase2_init_def)

lemma mapped_key: "phase2_inv s \<Longrightarrow> mCondMap s key = Some t \<Longrightarrow> pcs s t = Waiting key \<or> pcs s t = Woken key"
  by (simp add: phase2_inv_def)

lemma absent_not_mapped: "phase2_inv s \<Longrightarrow> pcs s t = Absent \<Longrightarrow> mCondMap s k \<noteq> Some t"
  by (force simp: phase2_inv_def)

lemma phase2_inv_step:
  assumes "WaitForPhase2 s s'" and "phase2_inv s"
  shows "phase2_inv s'"
  using assms
proof cases
  case (enter t key)
  have "mCondMap s k \<noteq> Some t" for k using absent_not_mapped [OF assms(2) enter(2)] .
  then show ?thesis using assms(2) enter
    by (auto simp: phase2_inv_def wait_enter_def is_released_def split: option.splits)
next
  case (wake t key)
  have "k = key" if "mCondMap s k = Some t" for k using mapped_key [OF assms(2) that] wake(2) by simp
  then show ?thesis using assms(2) wake by (auto simp: phase2_inv_def wait_wake_def is_released_def)
next
  case (leave t key)
  have "k = key" if "mCondMap s k = Some t" for k using mapped_key [OF assms(2) that] leave(2) by simp
  then show ?thesis using assms(2) leave by (auto simp: phase2_inv_def wait_leave_def is_released_def split: if_splits)
next
  case (release key)
  then show ?thesis using assms(2) by (auto simp: phase2_inv_def is_released_ReleaseKey)
qed

interpretation waiters: step_system WaitForPhase2 phase2_init phase2_inv
  by unfold_locales (rule phase2_inv_init, rule phase2_inv_step)

text \<open>A waiting thread whose entry is not in the map stays where it is.\<close>

definition forgotten :: "nat \<Rightarrow> ObjectKeyHash \<Rightarrow> phase2 \<Rightarrow> bool" where
  "forgotten t key s \<longleftrightarrow> pcs s t = Waiting key \<and> \<not> is_released s t \<and> (\<forall>k. mCondMap s k \<noteq> Some t)"

lemma forgotten_step:
  assumes "WaitForPhase2 s s'" and "forgotten t key s"
  shows "forgotten t key s'"
  using assms
proof cases
  case (enter t' key')
  then have "t' \<noteq> t" using assms(2) by (auto simp: forgotten_def)
  then show ?thesis using enter assms(2) by (auto simp: forgotten_def wait_enter_def is_released_def split: option.splits)
next
  case (wake t' key')
  then have "t' \<noteq> t" using assms(2) by (auto simp: forgotten_def)
  then show ?thesis using wake assms(2) by (auto simp: forgotten_def wait_wake_def is_released_def)
next
  case (leave t' key')
  then have "t' \<noteq> t" using assms(2) by (auto simp: forgotten_def)
  then show ?thesis using leave assms(2) by (auto simp: forgotten_def wait_leave_def is_released_def)
next
  case (release key')
  then show ?thesis using assms(2) by (auto simp: forgotten_def is_released_ReleaseKey)
qed

lemma forgotten_steps: "phase2_steps s s' \<Longrightarrow> forgotten t key s \<Longrightarrow> forgotten t key s'"
  by (induction rule: rtranclp_induct) (auto intro: forgotten_step)

section \<open>Properties\<close>

text \<open>
  (C34) In every interleaving a thread gets past its wait only after a release of its entry, and a
  release of a key lets the thread whose entry the map holds run to its end, which removes the key.
\<close>

theorem release_lets_waiter_finish:
  assumes "phase2_steps phase2_init s"
  shows "(pcs s t = Finished \<or> (\<exists>key. pcs s t = Woken key) \<longrightarrow> is_released s t) \<and>
    (mCondMap s key = Some t \<longrightarrow>
      (\<exists>s'. phase2_steps (ReleaseKey key s) s' \<and> pcs s' t = Finished \<and> mCondMap s' key = None))"
proof -
  have inv: "phase2_inv s" by (rule waiters.inv_reachable [OF assms])
  have "\<exists>s'. phase2_steps (ReleaseKey key s) s' \<and> pcs s' t = Finished \<and> mCondMap s' key = None" if m: "mCondMap s key = Some t"
  proof -
    have leave: "phase2_steps u (wait_leave t key u)" if "pcs u t = Woken key" for u
      using WaitForPhase2.leave [OF that] by blast
    have "pcs s t = Waiting key \<or> pcs s t = Woken key" using inv m by (simp add: phase2_inv_def)
    then show ?thesis
    proof
      assume w: "pcs s t = Waiting key"
      then have "is_released (ReleaseKey key s) t" using inv m by (auto simp: is_released_ReleaseKey phase2_inv_def)
      then have "WaitForPhase2 (ReleaseKey key s) (wait_wake t key (ReleaseKey key s))" using w by (intro wake) simp_all
      then have "phase2_steps (ReleaseKey key s) (wait_leave t key (wait_wake t key (ReleaseKey key s)))"
        by (rule converse_rtranclp_into_rtranclp) (rule leave, simp add: wait_wake_def)
      then show ?thesis using wait_leave_fields by blast
    next
      assume "pcs s t = Woken key"
      then have "phase2_steps (ReleaseKey key s) (wait_leave t key (ReleaseKey key s))" by (intro leave) simp
      then show ?thesis using wait_leave_fields by blast
    qed
  qed
  then show ?thesis using inv by (auto simp: phase2_inv_def)
qed

theorem release_lets_waiter_finish_witness:
  "\<exists>s'. phase2_steps (ReleaseKey [] (wait_enter 1 [] phase2_init)) s' \<and> pcs s' 1 = Finished \<and> mCondMap s' [] = None"
proof -
  have "phase2_steps phase2_init (wait_enter 1 [] phase2_init)"
    by (rule r_into_rtranclp, rule enter) (simp add: phase2_init_def)
  from release_lets_waiter_finish [OF this, of 1 "[]"] show ?thesis
    by (simp add: wait_enter_def phase2_init_def)
qed

text \<open>
  A second thread that waits for a key while the map holds another thread's entry is never
  released: its own entry is not inserted, and no interleaving of later steps gets it past its wait.
\<close>

lemma second_waiter_stuck:
  assumes "phase2_steps phase2_init s" and "mCondMap s key = Some t1" and "pcs s t2 = Absent"
    and "phase2_steps (wait_enter t2 key s) s'"
  shows "pcs s' t2 = Waiting key"
proof -
  have "mCondMap s k \<noteq> Some t2" for k
    by (rule absent_not_mapped [OF waiters.inv_reachable [OF assms(1)] assms(3)])
  then have "forgotten t2 key (wait_enter t2 key s)"
    using assms(2) by (simp add: forgotten_def wait_enter_def is_released_def)
  from forgotten_steps [OF assms(4) this] show ?thesis by (simp add: forgotten_def)
qed

lemma second_waiter_stuck_example:
  "pcs (ReleaseKey [] (wait_enter 2 [] (wait_enter 1 [] phase2_init))) 2 = Waiting []"
proof (rule second_waiter_stuck)
  show "phase2_steps phase2_init (wait_enter 1 [] phase2_init)"
    by (rule r_into_rtranclp, rule enter) (simp add: phase2_init_def)
  show "phase2_steps (wait_enter 2 [] (wait_enter 1 [] phase2_init)) (ReleaseKey [] (wait_enter 2 [] (wait_enter 1 [] phase2_init)))"
    by (rule r_into_rtranclp, rule release)
qed (simp_all add: wait_enter_def phase2_init_def)

end
