(* ===== verification/Zstore_Async.thy ===== *)
theory Zstore_Async
  imports Zstore_Io
begin

text \<open>
  How a coroutine hands a command to the I/O thread and is resumed (\<^verbatim>\<open>src/src/common.cc\<close>: the
  wrappers, their instrumented variants and the awaitable functions for zone finish, zone append,
  zone read and the dummy operation; \<^verbatim>\<open>ioWorker\<close> and \<^verbatim>\<open>handleIoCompletions\<close>).

  An operation is named by a number, its token. It has two heap cells: the closure that the
  message carries and the completion handler. The I/O thread runs the messages in the order in
  which they were sent; running one submits its command and deletes the closure. SPDK completes
  submitted commands in any order; a completion resumes the coroutine through its handler and
  deletes the handler. The dummy operation calls its handler at once, without a command.
\<close>

section \<open>State\<close>

datatype cmd_kind = ZoneFinish | ZoneAppend | NsRead | NoCommand

record nvme_cmd =
  nc_kind :: cmd_kind
  nc_ns :: nat
  nc_qpair :: nat
  nc_data :: nat
  nc_offset :: u64
  nc_size :: u32
  nc_flags :: u32

record timer =
  t1 :: int
  t2 :: int
  t3 :: int
  t4 :: int
  t5 :: int
  t6 :: int

record io_loop =
  queue :: "nat list"
  closures :: "nat \<rightharpoonup> nvme_cmd \<times> bool"
  handlers :: "nat \<rightharpoonup> bool"
  in_flight :: "nat set"
  device_log :: "nvme_cmd list"
  resumed :: "nat \<Rightarrow> nvme_cpl option list"
  timers :: "nat \<Rightarrow> timer"
  clock :: int
  next_token :: nat

definition io_loop_init :: io_loop where
  "io_loop_init = \<lparr>queue = [], closures = Map.empty, handlers = Map.empty, in_flight = {}, device_log = [],
     resumed = (\<lambda>_. []), timers = (\<lambda>_. \<lparr>t1 = 0, t2 = 0, t3 = 0, t4 = 0, t5 = 0, t6 = 0\<rparr>), clock = 0, next_token = 0\<rparr>"

section \<open>Starting an operation\<close>

definition stamp :: "nat \<Rightarrow> (int \<Rightarrow> timer \<Rightarrow> timer) \<Rightarrow> io_loop \<Rightarrow> io_loop" where
  "stamp t f s = s\<lparr>timers := (timers s)(t := f (clock s) (timers s t))\<rparr>"

text \<open>
  A wrapper allocates the handler and the closure of the next token and sends the message; the
  flag says that the operation is instrumented. A message that cannot be sent ends the process.
\<close>

definition send_closure :: "bool \<Rightarrow> nvme_cmd \<Rightarrow> bool \<Rightarrow> io_loop \<Rightarrow> io_loop res" where
  "send_closure sent cmd inst s =
     (let t = next_token s in
      if sent then Inr (s\<lparr>handlers := (handlers s)(t \<mapsto> inst), closures := (closures s)(t \<mapsto> (cmd, inst)),
                          queue := queue s @ [t], next_token := Suc t\<rparr>)
      else Inl ExitCall)"

definition spdk_nvme_zone_finish_wrapper :: "bool \<Rightarrow> nat \<Rightarrow> nat \<Rightarrow> u64 \<Rightarrow> u32 \<Rightarrow> io_loop \<Rightarrow> io_loop res" where
  "spdk_nvme_zone_finish_wrapper sent ns qpair offset flags s =
     send_closure sent \<lparr>nc_kind = ZoneFinish, nc_ns = ns, nc_qpair = qpair, nc_data = 0, nc_offset = offset, nc_size = 0, nc_flags = flags\<rparr> False s"

definition spdk_nvme_zone_finish_async :: "bool \<Rightarrow> nat \<Rightarrow> nat \<Rightarrow> u64 \<Rightarrow> u32 \<Rightarrow> io_loop \<Rightarrow> io_loop res" where
  "spdk_nvme_zone_finish_async sent ns qpair offset flags s = spdk_nvme_zone_finish_wrapper sent ns qpair offset flags s"

definition spdk_nvme_zone_finish_wrapper_inst :: "bool \<Rightarrow> nat \<Rightarrow> nat \<Rightarrow> u64 \<Rightarrow> u32 \<Rightarrow> io_loop \<Rightarrow> io_loop res" where
  "spdk_nvme_zone_finish_wrapper_inst sent ns qpair offset flags s =
     send_closure sent \<lparr>nc_kind = ZoneFinish, nc_ns = ns, nc_qpair = qpair, nc_data = 0, nc_offset = offset, nc_size = 0, nc_flags = flags\<rparr> True s"

text \<open>
  The instrumented functions read the clock when they are called (\<open>t2\<close>) and when the operation is
  initiated (\<open>t3\<close>); \<open>d\<close> is the time between the two.
\<close>

definition stamp_init :: "nat \<Rightarrow> io_loop \<Rightarrow> io_loop" where
  "stamp_init d s =
     (let t = next_token s; s = stamp t (\<lambda>now x. x\<lparr>t2 := now\<rparr>) s in
      stamp t (\<lambda>now x. x\<lparr>t3 := now\<rparr>) (s\<lparr>clock := clock s + int d\<rparr>))"

definition spdk_nvme_zone_finish_async_inst :: "nat \<Rightarrow> bool \<Rightarrow> nat \<Rightarrow> nat \<Rightarrow> u64 \<Rightarrow> u32 \<Rightarrow> io_loop \<Rightarrow> io_loop res" where
  "spdk_nvme_zone_finish_async_inst d sent ns qpair offset flags s =
     spdk_nvme_zone_finish_wrapper_inst sent ns qpair offset flags (stamp_init d s)"

definition spdk_nvme_zone_append_wrapper :: "bool \<Rightarrow> nat \<Rightarrow> nat \<Rightarrow> nat \<Rightarrow> u64 \<Rightarrow> u32 \<Rightarrow> u32 \<Rightarrow> io_loop \<Rightarrow> io_loop res" where
  "spdk_nvme_zone_append_wrapper sent ns qpair dat offset sz flags s =
     send_closure sent \<lparr>nc_kind = ZoneAppend, nc_ns = ns, nc_qpair = qpair, nc_data = dat, nc_offset = offset, nc_size = sz, nc_flags = flags\<rparr> False s"

definition spdk_nvme_zone_append_async :: "bool \<Rightarrow> nat \<Rightarrow> nat \<Rightarrow> nat \<Rightarrow> u64 \<Rightarrow> u32 \<Rightarrow> u32 \<Rightarrow> io_loop \<Rightarrow> io_loop res" where
  "spdk_nvme_zone_append_async sent ns qpair dat offset sz flags s = spdk_nvme_zone_append_wrapper sent ns qpair dat offset sz flags s"

definition spdk_nvme_zone_append_wrapper_inst :: "bool \<Rightarrow> nat \<Rightarrow> nat \<Rightarrow> nat \<Rightarrow> u64 \<Rightarrow> u32 \<Rightarrow> u32 \<Rightarrow> io_loop \<Rightarrow> io_loop res" where
  "spdk_nvme_zone_append_wrapper_inst sent ns qpair dat offset sz flags s =
     send_closure sent \<lparr>nc_kind = ZoneAppend, nc_ns = ns, nc_qpair = qpair, nc_data = dat, nc_offset = offset, nc_size = sz, nc_flags = flags\<rparr> True s"

definition spdk_nvme_zone_append_async_inst :: "nat \<Rightarrow> bool \<Rightarrow> nat \<Rightarrow> nat \<Rightarrow> nat \<Rightarrow> u64 \<Rightarrow> u32 \<Rightarrow> u32 \<Rightarrow> io_loop \<Rightarrow> io_loop res" where
  "spdk_nvme_zone_append_async_inst d sent ns qpair dat offset sz flags s =
     spdk_nvme_zone_append_wrapper_inst sent ns qpair dat offset sz flags (stamp_init d s)"

definition spdk_nvme_zone_read_wrapper :: "bool \<Rightarrow> nat \<Rightarrow> nat \<Rightarrow> nat \<Rightarrow> u64 \<Rightarrow> u32 \<Rightarrow> u32 \<Rightarrow> io_loop \<Rightarrow> io_loop res" where
  "spdk_nvme_zone_read_wrapper sent ns qpair dat offset sz flags s =
     send_closure sent \<lparr>nc_kind = NsRead, nc_ns = ns, nc_qpair = qpair, nc_data = dat, nc_offset = offset, nc_size = sz, nc_flags = flags\<rparr> False s"

definition spdk_nvme_zone_read_async :: "bool \<Rightarrow> nat \<Rightarrow> nat \<Rightarrow> nat \<Rightarrow> u64 \<Rightarrow> u32 \<Rightarrow> u32 \<Rightarrow> io_loop \<Rightarrow> io_loop res" where
  "spdk_nvme_zone_read_async sent ns qpair dat offset sz flags s = spdk_nvme_zone_read_wrapper sent ns qpair dat offset sz flags s"

definition spdk_nvme_zone_read_wrapper_inst :: "bool \<Rightarrow> nat \<Rightarrow> nat \<Rightarrow> nat \<Rightarrow> u64 \<Rightarrow> u32 \<Rightarrow> u32 \<Rightarrow> io_loop \<Rightarrow> io_loop res" where
  "spdk_nvme_zone_read_wrapper_inst sent ns qpair dat offset sz flags s =
     send_closure sent \<lparr>nc_kind = NsRead, nc_ns = ns, nc_qpair = qpair, nc_data = dat, nc_offset = offset, nc_size = sz, nc_flags = flags\<rparr> True s"

definition spdk_nvme_zone_read_async_inst :: "nat \<Rightarrow> bool \<Rightarrow> nat \<Rightarrow> nat \<Rightarrow> nat \<Rightarrow> u64 \<Rightarrow> u32 \<Rightarrow> u32 \<Rightarrow> io_loop \<Rightarrow> io_loop res" where
  "spdk_nvme_zone_read_async_inst d sent ns qpair dat offset sz flags s =
     spdk_nvme_zone_read_wrapper_inst sent ns qpair dat offset sz flags (stamp_init d s)"

definition spdk_op_wrapper :: "bool \<Rightarrow> nat \<Rightarrow> nat \<Rightarrow> nat \<Rightarrow> u64 \<Rightarrow> u32 \<Rightarrow> u32 \<Rightarrow> io_loop \<Rightarrow> io_loop res" where
  "spdk_op_wrapper sent ns qpair dat offset sz flags s =
     send_closure sent \<lparr>nc_kind = NoCommand, nc_ns = ns, nc_qpair = qpair, nc_data = dat, nc_offset = offset, nc_size = sz, nc_flags = flags\<rparr> False s"

definition spdk_op_async :: "bool \<Rightarrow> nat \<Rightarrow> nat \<Rightarrow> nat \<Rightarrow> u64 \<Rightarrow> u32 \<Rightarrow> u32 \<Rightarrow> io_loop \<Rightarrow> io_loop res" where
  "spdk_op_async sent ns qpair dat offset sz flags s = spdk_op_wrapper sent ns qpair dat offset sz flags s"

text \<open>
  The coroutines of the request path start the command of a request context; with sampling on they
  read the clock first (\<open>t1\<close>). They read it again when they are resumed (\<open>t6\<close>) and only log the
  differences. \<open>dat\<close> is the address of the context's buffer.
\<close>

datatype await_op = AwaitFinish | AwaitAppend | AwaitRead | AwaitDummy

definition start_op :: "conf \<Rightarrow> await_op \<Rightarrow> nat \<Rightarrow> nat \<Rightarrow> bool \<Rightarrow> nat \<Rightarrow> IoContext \<Rightarrow> io_loop \<Rightarrow> io_loop res" where
  "start_op c op d1 d2 sent dat ctx s =
     (let inst = (gSamplingRate c > 0 \<and> op \<noteq> AwaitDummy);
          s = (if inst then (let s = stamp (next_token s) (\<lambda>now x. x\<lparr>t1 := now\<rparr>) s in s\<lparr>clock := clock s + int d1\<rparr>) else s)
      in case op of
        AwaitFinish \<Rightarrow> (if inst then spdk_nvme_zone_finish_async_inst d2 else spdk_nvme_zone_finish_async)
          sent (io_ns ctx) (io_qpair ctx) (io_offset ctx) (io_flags ctx) s
      | AwaitAppend \<Rightarrow> (if inst then spdk_nvme_zone_append_async_inst d2 else spdk_nvme_zone_append_async)
          sent (io_ns ctx) (io_qpair ctx) dat (io_offset ctx) (io_size ctx) (io_flags ctx) s
      | AwaitRead \<Rightarrow> (if inst then spdk_nvme_zone_read_async_inst d2 else spdk_nvme_zone_read_async)
          sent (io_ns ctx) (io_qpair ctx) dat (io_offset ctx) (io_size ctx) (io_flags ctx) s
      | AwaitDummy \<Rightarrow> spdk_op_async sent (io_ns ctx) (io_qpair ctx) dat (io_offset ctx) (io_size ctx) (io_flags ctx) s)"

section \<open>The I/O thread\<close>

text \<open>Calling the handler of a token resumes its coroutine; then the handler is deleted.\<close>

definition call_handler :: "nat \<Rightarrow> nvme_cpl option \<Rightarrow> io_loop \<Rightarrow> io_loop res" where
  "call_handler t cpl s =
     (case handlers s t of
        None \<Rightarrow> Inl UseAfterFree
      | Some inst \<Rightarrow>
          let s = (if inst then stamp t (\<lambda>now x. x\<lparr>t5 := now\<rparr>) s else s) in
          Inr (s\<lparr>resumed := (resumed s)(t := resumed s t @ [cpl]), handlers := (handlers s)(t := None)\<rparr>))"

text \<open>One message: \<open>rc\<close> is what the driver returns for the submission.\<close>

definition run_message :: "int \<Rightarrow> io_loop \<Rightarrow> io_loop res" where
  "run_message rc s =
     (case queue s of
        [] \<Rightarrow> Inr s
      | t # ts \<Rightarrow>
          (case closures s t of
             None \<Rightarrow> Inl UseAfterFree
           | Some (cmd, inst) \<Rightarrow>
               let s = s\<lparr>queue := ts\<rparr>;
                   s = (if inst then stamp t (\<lambda>now x. x\<lparr>t4 := now\<rparr>) s else s)
               in bindR (if nc_kind cmd = NoCommand then call_handler t None s
                         else bindR (cassert (rc = 0)) (\<lambda>_.
                           Inr (s\<lparr>in_flight := insert t (in_flight s), device_log := device_log s @ [cmd]\<rparr>))) (\<lambda>s.
                    Inr (s\<lparr>closures := (closures s)(t := None)\<rparr>))))"

definition handleIoCompletions :: "nat \<Rightarrow> nvme_cpl \<Rightarrow> io_loop \<Rightarrow> io_loop res" where
  "handleIoCompletions t cpl s = call_handler t (Some cpl) (s\<lparr>in_flight := in_flight s - {t}\<rparr>)"

text \<open>
  The steps: a coroutine starts an operation; the I/O thread runs its first message, which the
  driver accepts; SPDK completes a submitted command; time passes.
\<close>

inductive ioWorker :: "io_loop \<Rightarrow> io_loop \<Rightarrow> bool" where
  start: "start_op c op d1 d2 True dat ctx s = Inr s' \<Longrightarrow> ioWorker s s'"
| message: "queue s \<noteq> [] \<Longrightarrow> run_message 0 s = Inr s' \<Longrightarrow> ioWorker s s'"
| completion: "t \<in> in_flight s \<Longrightarrow> handleIoCompletions t cpl s = Inr s' \<Longrightarrow> ioWorker s s'"
| time: "clock s \<le> now \<Longrightarrow> ioWorker s (s\<lparr>clock := now\<rparr>)"

section \<open>Every operation is resumed exactly once\<close>

definition loop_inv :: "io_loop \<Rightarrow> bool" where
  "loop_inv s \<longleftrightarrow> distinct (queue s) \<and> set (queue s) \<union> in_flight s \<subseteq> {..<next_token s} \<and> set (queue s) \<inter> in_flight s = {} \<and>
     dom (closures s) = set (queue s) \<and> dom (handlers s) = set (queue s) \<union> in_flight s"

definition once_inv :: "io_loop \<Rightarrow> bool" where
  "once_inv s \<longleftrightarrow>
     (\<forall>t. next_token s \<le> t \<or> t \<in> set (queue s) \<or> t \<in> in_flight s \<longrightarrow> resumed s t = []) \<and>
     (\<forall>t < next_token s. t \<notin> set (queue s) \<longrightarrow> t \<notin> in_flight s \<longrightarrow> (\<exists>cpl. resumed s t = [cpl]))"

definition timers_inv :: "io_loop \<Rightarrow> bool" where
  "timers_inv s \<longleftrightarrow>
     (\<forall>t cmd inst. closures s t = Some (cmd, inst) \<longrightarrow> handlers s t = Some inst) \<and>
     (\<forall>t. handlers s t = Some True \<longrightarrow> t1 (timers s t) \<le> t2 (timers s t) \<and> t2 (timers s t) \<le> t3 (timers s t) \<and>
        t3 (timers s t) \<le> clock s) \<and>
     (\<forall>t \<in> in_flight s. handlers s t = Some True \<longrightarrow> t3 (timers s t) \<le> t4 (timers s t) \<and> t4 (timers s t) \<le> clock s)"

lemma stamp_fields [simp]: "queue (stamp t f s) = queue s" "closures (stamp t f s) = closures s" "handlers (stamp t f s) = handlers s"
    "in_flight (stamp t f s) = in_flight s" "resumed (stamp t f s) = resumed s" "clock (stamp t f s) = clock s"
    "next_token (stamp t f s) = next_token s" "device_log (stamp t f s) = device_log s"
    "timers (stamp t f s) u = (if u = t then f (clock s) (timers s t) else timers s u)"
  by (simp_all add: stamp_def)

text \<open>What every kind of operation does when it is started.\<close>

definition started :: "nvme_cmd \<Rightarrow> bool \<Rightarrow> io_loop \<Rightarrow> io_loop \<Rightarrow> bool" where
  "started cmd inst s s' \<longleftrightarrow> queue s' = queue s @ [next_token s] \<and> closures s' = (closures s)(next_token s \<mapsto> (cmd, inst)) \<and>
     handlers s' = (handlers s)(next_token s \<mapsto> inst) \<and> in_flight s' = in_flight s \<and> resumed s' = resumed s \<and>
     next_token s' = Suc (next_token s) \<and> clock s \<le> clock s' \<and> (\<forall>t. t \<noteq> next_token s \<longrightarrow> timers s' t = timers s t) \<and>
     (inst \<longrightarrow> (let x = timers s' (next_token s) in t1 x \<le> t2 x \<and> t2 x \<le> t3 x \<and> t3 x \<le> clock s'))"

lemmas async_defs = spdk_nvme_zone_finish_async_def spdk_nvme_zone_finish_async_inst_def spdk_nvme_zone_finish_wrapper_def
  spdk_nvme_zone_finish_wrapper_inst_def spdk_nvme_zone_append_async_def spdk_nvme_zone_append_async_inst_def
  spdk_nvme_zone_append_wrapper_def spdk_nvme_zone_append_wrapper_inst_def spdk_nvme_zone_read_async_def
  spdk_nvme_zone_read_async_inst_def spdk_nvme_zone_read_wrapper_def spdk_nvme_zone_read_wrapper_inst_def
  spdk_op_async_def spdk_op_wrapper_def

lemma start_op_started: "start_op c op d1 d2 True dat ctx s = Inr s' \<Longrightarrow> \<exists>cmd inst. started cmd inst s s'"
  by (cases op) (fastforce simp: start_op_def async_defs send_closure_def started_def stamp_init_def Let_def split: if_splits)+

text \<open>What a message of the queue and a completion do.\<close>

definition resume :: "nat \<Rightarrow> nvme_cpl option \<Rightarrow> io_loop \<Rightarrow> io_loop \<Rightarrow> bool" where
  "resume t cpl s s' \<longleftrightarrow> queue s' = queue s \<and> closures s' = closures s \<and> handlers s' = (handlers s)(t := None) \<and>
     in_flight s' = in_flight s \<and> resumed s' = (resumed s)(t := resumed s t @ [cpl]) \<and> next_token s' = next_token s \<and>
     clock s' = clock s \<and> (\<forall>u. u \<noteq> t \<longrightarrow> timers s' u = timers s u) \<and>
     (handlers s t = Some True \<longrightarrow> timers s' t = (timers s t)\<lparr>t5 := clock s\<rparr>)"

lemma call_handler_resume: "handlers s t = Some inst \<Longrightarrow> okR (call_handler t cpl s) (resume t cpl s)"
  by (auto simp: call_handler_def resume_def Let_def)

lemma handleIoCompletions_resume:
  assumes "loop_inv s" and "t \<in> in_flight s"
  shows "okR (handleIoCompletions t cpl s) (resume t (Some cpl) (s\<lparr>in_flight := in_flight s - {t}\<rparr>))"
proof -
  have "t \<in> dom (handlers s)" using assms by (simp add: loop_inv_def)
  then obtain inst where "handlers s t = Some inst" by blast
  then show ?thesis unfolding handleIoCompletions_def by (intro call_handler_resume) simp
qed

text \<open>The first message is submitted, or its handler is called at once.\<close>

definition ran :: "nat \<Rightarrow> io_loop \<Rightarrow> io_loop \<Rightarrow> bool" where
  "ran t s s' \<longleftrightarrow> queue s' = tl (queue s) \<and> closures s' = (closures s)(t := None) \<and> next_token s' = next_token s \<and> clock s' = clock s \<and>
     
     ((in_flight s' = insert t (in_flight s) \<and> handlers s' = handlers s \<and> resumed s' = resumed s \<and>
       (\<forall>u. handlers s u = Some True \<longrightarrow> timers s' u = (if u = t then (timers s t)\<lparr>t4 := clock s\<rparr> else timers s u))) \<or>
      (in_flight s' = in_flight s \<and> (\<forall>u. u \<noteq> t \<longrightarrow> timers s' u = timers s u) \<and> handlers s' = (handlers s)(t := None) \<and> resumed s' = (resumed s)(t := resumed s t @ [None])))"

lemma run_message_ran:
  assumes "loop_inv s" "timers_inv s" and "queue s = t # ts"
  shows "okR (run_message 0 s) (ran t s)"
proof -
  have "t \<in> dom (closures s)" using assms(1,3) by (simp add: loop_inv_def)
  then obtain cmd inst where c: "closures s t = Some (cmd, inst)" by auto
  then have h: "handlers s t = Some inst" using assms(2) unfolding timers_inv_def by blast
  show ?thesis using assms(3) c h
    by (auto simp: run_message_def ran_def call_handler_def Let_def)
qed

definition ioWorker_inv :: "io_loop \<Rightarrow> bool" where
  "ioWorker_inv s \<longleftrightarrow> loop_inv s \<and> once_inv s \<and> timers_inv s"

lemma ioWorker_inv_init: "ioWorker_inv io_loop_init"
  by (simp add: ioWorker_inv_def loop_inv_def once_inv_def timers_inv_def io_loop_init_def)

lemma started_inv:
  assumes st: "started cmd inst s s'" and inv: "ioWorker_inv s"
  shows "ioWorker_inv s'"
  unfolding ioWorker_inv_def
proof (intro conjI)
  have l: "loop_inv s" and o: "once_inv s" and ti: "timers_inv s" using inv by (simp_all add: ioWorker_inv_def)
  have new: "next_token s \<notin> set (queue s)" "next_token s \<notin> in_flight s" using l by (auto simp: loop_inv_def)
  show "loop_inv s'" using st l new by (auto simp: loop_inv_def started_def less_Suc_eq)
  show "once_inv s'" using st o by (auto simp: once_inv_def started_def less_Suc_eq)
  show "timers_inv s'" using st ti new by (auto simp: timers_inv_def started_def Let_def)
qed

lemma ran_inv:
  assumes r: "ran t s s'" and inv: "ioWorker_inv s" and q: "queue s = t # ts"
  shows "ioWorker_inv s'"
  unfolding ioWorker_inv_def
proof (intro conjI)
  have l: "loop_inv s" and o: "once_inv s" and ti: "timers_inv s" using inv by (simp_all add: ioWorker_inv_def)
  have t: "t \<notin> set ts" "t \<notin> in_flight s" "t < next_token s" "resumed s t = []"
    using l o q by (auto simp: loop_inv_def once_inv_def)
  have c: "handlers s u = Some True" if "u \<noteq> t" "closures s u = Some (cmd, True)" for u cmd
    using ti that by (auto simp: timers_inv_def)
  show "loop_inv s'" using r l q t unfolding ran_def by (elim conjE disjE) (auto simp: loop_inv_def)
  show "once_inv s'" using r o q t unfolding ran_def by (elim conjE disjE) (auto simp: once_inv_def)
  show "timers_inv s'" using r ti q t unfolding ran_def by (elim conjE disjE) (auto simp: timers_inv_def)
qed

lemma resume_inv:
  assumes r: "resume t cpl (s\<lparr>in_flight := in_flight s - {t}\<rparr>) s'" and inv: "ioWorker_inv s" and f: "t \<in> in_flight s"
  shows "ioWorker_inv s'"
  unfolding ioWorker_inv_def
proof (intro conjI)
  have l: "loop_inv s" and o: "once_inv s" and ti: "timers_inv s" using inv by (simp_all add: ioWorker_inv_def)
  have t: "t \<notin> set (queue s)" "t < next_token s" "resumed s t = []" "closures s t = None"
    using l o f by (auto simp: loop_inv_def once_inv_def)
  show "loop_inv s'" using r l t by (auto simp: loop_inv_def resume_def)
  show "once_inv s'" using r o t f by (auto simp: once_inv_def resume_def)
  show "timers_inv s'" using r ti t by (auto simp: timers_inv_def resume_def)
qed

lemma ioWorker_inv_step:
  assumes "ioWorker s s'" and inv: "ioWorker_inv s"
  shows "ioWorker_inv s'"
  using assms(1)
proof cases
  case (start c op d1 d2 dat ctx)
  then show ?thesis using start_op_started started_inv inv by blast
next
  case message
  obtain t ts where q: "queue s = t # ts" using message by (cases "queue s") auto
  have "ran t s s'" using run_message_ran [OF _ _ q] message(2) inv by (auto simp: ioWorker_inv_def)
  then show ?thesis using ran_inv inv q by blast
next
  case (completion t cpl)
  have "resume t (Some cpl) (s\<lparr>in_flight := in_flight s - {t}\<rparr>) s'"
    using handleIoCompletions_resume [of s t cpl] inv completion by (auto simp: ioWorker_inv_def)
  then show ?thesis using resume_inv inv completion(1) by blast
next
  case (time now)
  then show ?thesis using inv by (fastforce simp: ioWorker_inv_def loop_inv_def once_inv_def timers_inv_def)
qed

section \<open>Every operation completes\<close>

definition work :: "io_loop \<Rightarrow> nat" where
  "work s = 2 * length (queue s) + card (in_flight s)"

lemma finite_in_flight: "loop_inv s \<Longrightarrow> finite (in_flight s)"
  unfolding loop_inv_def by (meson finite_lessThan finite_subset le_sup_iff)

lemma run_message_work:
  assumes inv: "ioWorker_inv s" and q: "queue s \<noteq> []"
  shows "okR (run_message 0 s) (\<lambda>s'. work s' < work s \<and> next_token s' = next_token s)"
proof -
  obtain t ts where ts: "queue s = t # ts" using q by (cases "queue s") auto
  have "card (insert t (in_flight s)) \<le> Suc (card (in_flight s))" by (simp add: card_insert_le_m1 card_insert_if)
  then have "ran t s s' \<Longrightarrow> work s' < work s \<and> next_token s' = next_token s" for s'
    using ts by (auto simp: ran_def work_def)
  then show ?thesis using run_message_ran [OF _ _ ts] inv by (auto simp: ioWorker_inv_def intro: okR_mono)
qed

lemma handleIoCompletions_work:
  assumes inv: "ioWorker_inv s" and t: "t \<in> in_flight s"
  shows "okR (handleIoCompletions t cpl s) (\<lambda>s'. work s' < work s \<and> next_token s' = next_token s)"
proof -
  have "card (in_flight s - {t}) < card (in_flight s)"
    using card_Diff1_less [OF finite_in_flight t] inv by (simp add: ioWorker_inv_def)
  then have "resume t (Some cpl) (s\<lparr>in_flight := in_flight s - {t}\<rparr>) s' \<Longrightarrow> work s' < work s \<and> next_token s' = next_token s" for s'
    by (auto simp: resume_def work_def)
  then show ?thesis using handleIoCompletions_resume [OF _ t] inv by (auto simp: ioWorker_inv_def intro: okR_mono)
qed

lemma ioWorker_progress:
  assumes inv: "ioWorker_inv s" and "work s \<noteq> 0"
  shows "\<exists>s'. ioWorker s s' \<and> work s' < work s \<and> next_token s' = next_token s"
proof (cases "queue s = []")
  case False
  then show ?thesis using run_message_work [OF inv] by (auto elim!: okRE intro: ioWorker.message)
next
  case True
  then obtain t where t: "t \<in> in_flight s" using assms(2) by (cases "in_flight s = {}") (auto simp: work_def)
  show ?thesis using handleIoCompletions_work [OF inv t, of undefined] t by (auto elim!: okRE intro: ioWorker.completion)
qed

interpretation io_worker: draining ioWorker io_loop_init ioWorker_inv work next_token
  by unfold_locales (rule ioWorker_inv_init, erule ioWorker_inv_step, assumption, erule ioWorker_progress, assumption)

text \<open>
  One awaited operation, with the loop otherwise idle: the coroutine starts it, its message is run,
  its command completes, and the coroutine reads the completion it was resumed with. \<open>rc\<close> is the
  driver's result for a command it does not accept.
\<close>

definition await_by_loop :: "conf \<Rightarrow> await_op \<Rightarrow> nat \<Rightarrow> nat \<Rightarrow> nat \<Rightarrow> IoContext \<Rightarrow> int \<Rightarrow> io_outcome \<Rightarrow> io_loop \<Rightarrow> nvme_cpl option res" where
  "await_by_loop c op d1 d2 dat ctx rc out s =
     bindR (start_op c op d1 d2 (out \<noteq> SendFailed) dat ctx s) (\<lambda>s'.
     bindR (run_message (if out = SubmitFailed then rc else 0) s') (\<lambda>s'.
     bindR (case out of Completed cpl \<Rightarrow> handleIoCompletions (next_token s) cpl s' | _ \<Rightarrow> Inl Unfinished) (\<lambda>s'.
     Inr (last (resumed s' (next_token s))))))"

lemma await_by_loop_kind:
  assumes "start_op c op d1 d2 (out \<noteq> SendFailed) dat ctx s = send_closure (out \<noteq> SendFailed) cmd inst s0"
    and "nc_kind cmd \<noteq> NoCommand" and "queue s0 = []" "next_token s0 = next_token s" and "rc \<noteq> 0"
  shows "await_by_loop c op d1 d2 dat ctx rc out s = bindR (await_io out) (\<lambda>cpl. Inr (Some cpl))"
  using assms
  by (cases out) (simp_all add: await_by_loop_def send_closure_def run_message_def handleIoCompletions_def call_handler_def
      await_io_def Let_def)

lemma start_op_kind:
  assumes "op \<noteq> AwaitDummy"
  shows "\<exists>cmd inst s0. start_op c op d1 d2 ok dat ctx s = send_closure ok cmd inst s0 \<and> nc_kind cmd \<noteq> NoCommand \<and>
           queue s0 = queue s \<and> next_token s0 = next_token s"
  using assms by (cases op; cases "gSamplingRate c > 0") (auto simp: start_op_def async_defs stamp_init_def Let_def intro!: exI)

section \<open>Properties\<close>

text \<open>
  A concrete run for the witnesses: an instrumented append is started and its message is run.
\<close>

definition example_conf :: conf where
  "example_conf = conf_default\<lparr>gSamplingRate := 1\<rparr>"

definition example_ctx :: IoContext where
  "example_ctx = \<lparr>io_ns = 0, io_qpair = 0, io_offset = 0, io_size = 1, io_flags = 0\<rparr>"

definition example_start :: io_loop where
  "example_start = projr (start_op example_conf AwaitAppend 1 2 True 0 example_ctx io_loop_init)"

definition example_submitted :: io_loop where
  "example_submitted = projr (run_message 0 example_start)"

lemmas example_defs = example_conf_def example_ctx_def start_op_def async_defs send_closure_def
  stamp_init_def stamp_def run_message_def io_loop_init_def Let_def conf_default_def

lemma example_start_ok: "start_op example_conf AwaitAppend 1 2 True 0 example_ctx io_loop_init = Inr example_start"
  by (simp add: example_start_def example_defs)

lemma example_submitted_ok: "run_message 0 example_start = Inr example_submitted"
  by (simp add: example_submitted_def example_start_def example_defs)

lemma example_fields: "queue example_start = [0]" "in_flight example_submitted = {0}" "handlers example_submitted 0 = Some True"
    "queue example_submitted = []" "next_token example_submitted = 1"
  by (simp_all add: example_submitted_def example_start_def example_defs)

lemma example_reachable: "ioWorker\<^sup>*\<^sup>* io_loop_init example_submitted"
proof -
  have "ioWorker io_loop_init example_start" by (rule ioWorker.start) (rule example_start_ok)
  moreover have "ioWorker example_start example_submitted"
    by (rule ioWorker.message) (simp_all add: example_fields example_submitted_ok)
  ultimately show ?thesis by (meson rtranclp.intros)
qed

text \<open>
  (C8) Every operation is resumed exactly once. In every state the loop reaches, an operation that
  is still queued or in flight has not been resumed, one that is neither has been resumed once, and
  no cell is lost or freed twice: the closures are those of the queued messages and the handlers
  those of the queued and the submitted operations.
\<close>

theorem resumed_exactly_once:
  assumes "ioWorker\<^sup>*\<^sup>* io_loop_init s"
  shows "(\<forall>t. length (resumed s t) = (if t < next_token s \<and> t \<notin> set (queue s) \<union> in_flight s then 1 else 0)) \<and>
    dom (closures s) = set (queue s) \<and> dom (handlers s) = set (queue s) \<union> in_flight s"
proof -
  have "ioWorker_inv s" using assms by (rule io_worker.inv_reachable)
  then have l: "loop_inv s" and o: "once_inv s" by (simp_all add: ioWorker_inv_def)
  have "length (resumed s t) = (if t < next_token s \<and> t \<notin> set (queue s) \<union> in_flight s then 1 else 0)" for t
    using o unfolding once_inv_def by (cases "t < next_token s") force+
  then show ?thesis using l by (simp add: loop_inv_def)
qed

theorem resumed_exactly_once_witness:
  "length (resumed example_submitted 0) = 0 \<and> dom (handlers example_submitted) = {0}"
  using resumed_exactly_once [OF example_reachable] by (simp add: example_fields)





text \<open>
  The instrumentation of an operation is ordered: when a command that was started with sampling
  on completes, the five times that were taken are in the order of their names.
\<close>

lemma timers_ordered:
  assumes "ioWorker\<^sup>*\<^sup>* io_loop_init s" and "t \<in> in_flight s" and "handlers s t = Some True"
  shows "okR (handleIoCompletions t cpl s) (\<lambda>s'. let x = timers s' t in t1 x \<le> t2 x \<and> t2 x \<le> t3 x \<and> t3 x \<le> t4 x \<and> t4 x \<le> t5 x)"
proof -
  have inv: "loop_inv s" "timers_inv s" using io_worker.inv_reachable [OF assms(1)] by (simp_all add: ioWorker_inv_def)
  show ?thesis
    by (rule okR_mono [OF handleIoCompletions_resume [OF inv(1) assms(2)]])
      (use inv(2) assms in \<open>auto simp: resume_def timers_inv_def Let_def\<close>)
qed

lemma timers_ordered_example:
  "okR (handleIoCompletions 0 \<lparr>cpl_error = False, cdw0 = 0\<rparr> example_submitted) (\<lambda>s'. t3 (timers s' 0) \<le> t4 (timers s' 0))"
  by (rule okR_mono [OF timers_ordered [OF example_reachable]]) (simp_all add: example_fields Let_def)

end
