(* ===== verification/Zstore_Listen.thy ===== *)
theory Zstore_Listen
  imports Zstore_Store
begin

text \<open>
  The listener (\<^verbatim>\<open>do_listen\<close> of \<^verbatim>\<open>src/src/http_server.cc\<close>) and the sessions that it spawns, as they
  interleave on the HTTP threads: between two requests of one connection any number of requests of other
  connections may be served. An event is an accepted connection, a failed accept, or the outcome of
  one read of a connection and of writing its response; one event of a connection is one round of
  \<^const>\<open>do_session\<close>.
\<close>

section \<open>The listener\<close>

datatype listen_event = Accepted nat | AcceptError | OnSession nat "http_env \<times> read_result \<times> write_result"

text \<open>
  The state is the set of open connections and the controller. A step gives the status codes it
  sends, each with its connection.
\<close>

definition listen_step :: "conf \<Rightarrow> listen_event \<Rightarrow> nat set \<times> zctrl \<Rightarrow> ((nat \<times> nat) list \<times> nat set \<times> zctrl) res" where
  "listen_step c ev = (\<lambda>(L, z).
     (case ev of
        Accepted i \<Rightarrow> Inr ([], insert i L, z)
      | AcceptError \<Rightarrow> Inr ([], L, z)
      | OnSession i e \<Rightarrow>
          if i \<in> L then
            bindR (do_session c [e] z) (\<lambda>(msgs, how, z).
              Inr (map (\<lambda>m. (i, rs_status m)) msgs, if how = Waiting then L else L - {i}, z))
          else Inr ([], L, z)))"

text \<open>
  Opening, binding or listening may throw; then the listener ends with a message and no connection
  is ever accepted.
\<close>

definition do_listen :: "conf \<Rightarrow> bool \<Rightarrow> listen_event list \<Rightarrow> zctrl \<Rightarrow> ((nat \<times> nat) list list \<times> nat set \<times> zctrl) res" where
  "do_listen c bound evs z =
     (if bound then run_steps (listen_step c) evs ({}, z) else Inr ([], {}, z))"

section \<open>Contexts under interleaved sessions\<close>

lemma listen_step_post:
  assumes "\<not> gReplayWorkload c" and "ctrl_inv c z H" and "listen_step c ev (L, z) = Inr (ans, L', z')"
  shows "ctrl_inv c z' H"
  using assms postR_D [OF do_session_post [OF assms(1,2)]]
  by (fastforce simp: listen_step_def bindR_eq_Inr split: listen_event.splits if_splits)

lemma listen_steps_post:
  assumes "\<not> gReplayWorkload c"
  shows "ctrl_inv c z H \<Longrightarrow> run_steps (listen_step c) evs (L, z) = Inr (ans, L', z') \<Longrightarrow> ctrl_inv c z' H"
proof (induction evs arbitrary: L z ans)
  case (Cons ev evs)
  obtain a L1 z1 as where st: "listen_step c ev (L, z) = Inr (a, L1, z1)" "run_steps (listen_step c) evs (L1, z1) = Inr (as, L', z')"
    using Cons.prems(2) by (auto simp: bindR_eq_Inr)
  show ?case using Cons.IH [OF listen_step_post [OF assms Cons.prems(1) st(1)] st(2)] .
qed simp

section \<open>The specification of interleaved sessions\<close>

text \<open>
  One round of a connection in terms of the abstract store: a request that is read is served; if
  its response is written the status is answered, and the connection stays open when the request
  asks for it.
\<close>

definition listen_spec ::
  "(u8 list \<Rightarrow> u8 list) \<Rightarrow> listen_event \<Rightarrow> nat set \<times> ObjectKeyHash set \<Rightarrow> (nat \<times> nat) list \<times> nat set \<times> ObjectKeyHash set" where
  "listen_spec hash ev = (\<lambda>(L, S).
     (case ev of
        Accepted i \<Rightarrow> ([], insert i L, S)
      | AcceptError \<Rightarrow> ([], L, S)
      | OnSession i (env, rd, wr) \<Rightarrow>
          if i \<notin> L then ([], L, S)
          else
            (case rd of
               ReadRequest req \<Rightarrow>
                 let (st, S') = store_spec hash (env, req) S in
                 if wr = WriteOk then ([(i, st)], if rq_keep_alive req then L else L - {i}, S')
                 else ([], L - {i}, S')
             | _ \<Rightarrow> ([], L - {i}, S))))"

definition admissible_event :: "(u8 list \<Rightarrow> u8 list) \<Rightarrow> listen_event \<Rightarrow> bool" where
  "admissible_event hash ev \<longleftrightarrow>
     (case ev of OnSession i (env, ReadRequest req, wr) \<Rightarrow> admissible_request hash (env, req) | _ \<Rightarrow> True)"

lemma handle_request_keep_alive [simp]: "rs_keep_alive (handle_request req) = rq_keep_alive req"
    "rs_keep_alive (handle_not_found_request req) = rq_keep_alive req"
  by (auto simp: handle_request_def handle_not_found_request_def response_def split: verb.split)

lemma get_chunks_keep_alive:
  "get_chunks c env dev n s1 req z = Inr (resp, z') \<Longrightarrow> rs_keep_alive resp = rq_keep_alive req"
  by (auto simp: get_chunks_def bindR_eq_Inr Let_def)

lemma put_small_keep_alive:
  "put_small c env k tgts devs n req z = Inr (resp, z') \<Longrightarrow> rs_keep_alive resp = rq_keep_alive req"
  by (auto simp: put_small_def bindR_eq_Inr Let_def BroadcastLocations_def PutObject_def split: prod.splits)

lemma put_large_not_Inr: "put_large c env k tgts devs n req z \<noteq> Inr r"
  by (auto simp: put_large_def bindR_eq_Inr Let_def split: prod.splits)

lemma handle_put_keep_alive:
  assumes "handle_put c env key h req z = Inr (resp, z')"
  shows "rs_keep_alive resp = rq_keep_alive req"
  using assms
  by (auto simp: handle_put_def BroadcastToInflight_def Let_def bindR_eq_Inr put_large_not_Inr
      dest!: put_small_keep_alive split: if_splits)

lemma handle_get_keep_alive:
  assumes "handle_get c env key h req z = Inr (resp, z')" and "\<not> contains_str (rq_target req) ''max-keys=''"
  shows "rs_keep_alive resp = rq_keep_alive req"
  using assms
  by (auto simp: handle_get_def bindR_eq_Inr Let_def dest: get_chunks_keep_alive split: option.splits if_splits)

lemma request_keep_alive:
  assumes "awaitable_on_request c env req z = Inr (resp, z')" and "\<not> contains_str (rq_target req) ''max-keys=''"
  shows "rs_keep_alive resp = rq_keep_alive req"
  using assms handle_put_keep_alive handle_get_keep_alive
  by (auto simp: awaitable_on_request_def DeleteObject_def Let_def split: prod.splits verb.splits)

lemma session_round:
  assumes inv: "store_inv c H z" and adm: "admissible_request hash (env, req)"
  shows "\<exists>msg z'. awaitable_on_request c env req z = Inr (msg, z') \<and> store_inv c H z' \<and> rs_keep_alive msg = rq_keep_alive req \<and>
    store_spec hash (env, req) (stored z) = (rs_status msg, stored z')"
proof -
  obtain st z' where st: "serve_request c (env, req) z = Inr (st, z')" "store_inv c H z'"
      "store_spec hash (env, req) (stored z) = (st, stored z')"
    using gateway.simulates [OF inv adm] by blast
  then obtain msg where "awaitable_on_request c env req z = Inr (msg, z')" "rs_status msg = st"
    by (auto simp: serve_request_def bindR_eq_Inr)
  moreover have "\<not> contains_str (rq_target req) ''max-keys=''" using adm by (simp add: admissible_request_def)
  ultimately show ?thesis using st request_keep_alive by metis
qed

interpretation listening: simulation "listen_step c" "listen_spec hash" "map_prod (\<lambda>L. L) stored" "\<lambda>s. store_inv c H (snd s)"
    "admissible_event hash" for c H hash
proof
  fix s :: "nat set \<times> zctrl" and ev
  assume inv: "store_inv c H (snd s)" and adm: "admissible_event hash ev"
  obtain L z where s: "s = (L, z)" by (cases s)
  let ?goal = "\<exists>r s'. listen_step c ev s = Inr (r, s') \<and> store_inv c H (snd s') \<and>
    listen_spec hash ev (map_prod (\<lambda>L. L) stored s) = (r, map_prod (\<lambda>L. L) stored s')"
  show ?goal
  proof (cases "\<exists>i env req wr. ev = OnSession i (env, ReadRequest req, wr) \<and> i \<in> L")
    case True
    then obtain i env req wr where ev: "ev = OnSession i (env, ReadRequest req, wr)" "i \<in> L" by blast
    have "admissible_request hash (env, req)" using adm by (simp add: ev admissible_event_def)
    then obtain msg z' where "awaitable_on_request c env req z = Inr (msg, z')" "store_inv c H z'"
        "rs_keep_alive msg = rq_keep_alive req" "store_spec hash (env, req) (stored z) = (rs_status msg, stored z')"
      using session_round inv s by (metis snd_conv)
    then show ?thesis using ev s by (cases wr) (auto simp: listen_step_def listen_spec_def Let_def)
  next
    case False
    then show ?thesis using inv s
      by (auto simp: listen_step_def listen_spec_def split: listen_event.split prod.split read_result.split)
  qed
qed

section \<open>Properties\<close>

text \<open>
  Outside replay mode no interleaving of sessions leaks a request context or returns one twice: whatever
  connections are accepted and whatever their peers and the devices do, after the events handled so
  far the pool is consistent with the contexts that were in use before.
\<close>

lemma listener_keeps_contexts:
  assumes "\<not> gReplayWorkload c" and "ctrl_inv c z H" and "do_listen c bound evs z = Inr (ans, L, z')"
  shows "ctrl_inv c z' H"
  using assms listen_steps_post [OF assms(1,2)] by (auto simp: do_listen_def split: if_splits)



end
