(* ===== verification/Zstore_Entries.thy ===== *)
theory Zstore_Entries
  imports Zstore_Listen
begin

text \<open>
  The shape of the object map: every entry names three different devices of the six. The requests
  keep this shape in every mode of the gateway and whatever the devices, the allocator and the
  peers answer, as long as the process does not stop.
\<close>

definition map_typed :: "zctrl \<Rightarrow> bool" where
  "map_typed z \<longleftrightarrow> (\<forall>t \<in> set (mDevHash z). dev_tuple_ok t) \<and> (\<forall>k e. mMap z k = Some e \<longrightarrow> replicas_ok e)"

section \<open>Device requests leave the map alone\<close>

definition keeps :: "zctrl \<Rightarrow> zctrl \<Rightarrow> bool" where
  "keeps z z' \<longleftrightarrow> mMap z' = mMap z \<and> mDevHash z' = mDevHash z"

lemma keeps_refl [simp]: "keeps z z"
  by (simp add: keeps_def)

lemma keeps_trans: "keeps x y \<Longrightarrow> keeps y z \<Longrightarrow> keeps x z"
  by (simp add: keeps_def)

lemma keeps_put_pool [simp]: "keeps z (put_pool k p z)"
  by (simp add: keeps_def put_pool_def split: option.split)

lemma keeps_bump_total [simp]: "keeps z (bump_total z') \<longleftrightarrow> keeps z z'"
  by (simp add: keeps_def bump_total_def)

lemma get_slot_keeps: "get_slot c n z = Inr (s, z') \<Longrightarrow> keeps z z'"
  by (auto simp: get_slot_def bindR_eq_Inr split: option.splits)

lemma update_slot_keeps: "update_slot s f z = Inr z' \<Longrightarrow> keeps z z'"
  by (auto simp: update_slot_def bindR_eq_Inr split: option.splits)

lemma return_slot_keeps: "return_slot k s z = Inr z' \<Longrightarrow> keeps z z'"
  by (auto simp: return_slot_def bindR_eq_Inr split: option.splits if_splits)

lemma MakeReadRequest_keeps: "MakeReadRequest c dev off n z = Inr (s, z') \<Longrightarrow> keeps z z'"
  by (auto simp: MakeReadRequest_def bindR_eq_Inr Let_def intro: keeps_trans dest!: get_slot_keeps update_slot_keeps)

lemma MakeWriteRequest_keeps: "MakeWriteRequest c dev v n z = Inr (s, z') \<Longrightarrow> keeps z z'"
  by (auto simp: MakeWriteRequest_def bindR_eq_Inr Let_def intro: keeps_trans dest!: get_slot_keeps update_slot_keeps)

lemma zoneAppend_keeps: "zoneAppend r s z = Inr z' \<Longrightarrow> keeps z z'"
  by (auto simp: zoneAppend_def bindR_eq_Inr dest!: update_slot_keeps)

lemma zoneRead_keeps: "zoneRead r bs s z = Inr z' \<Longrightarrow> keeps z z'"
  by (auto simp: zoneRead_def bindR_eq_Inr dest!: update_slot_keeps)

lemma zoneReadDummy_keeps: "zoneReadDummy b s z = Inr z' \<Longrightarrow> keeps z z'"
  by (auto simp: zoneReadDummy_def bindR_eq_Inr dest!: update_slot_keeps)

lemma foldR_keeps:
  assumes "foldR f xs z = Inr z'" and "\<And>x z z'. f x z = Inr z' \<Longrightarrow> keeps z z'"
  shows "keeps z z'"
  using foldR_invariant [OF assms(1), of "keeps z"] assms(2) keeps_trans by auto

lemma append_all_keeps: "append_all env k ss z = Inr z' \<Longrightarrow> keeps z z'"
  unfolding append_all_def by (erule foldR_keeps) (auto dest: zoneAppend_keeps split: prod.splits)

lemma read_chunk_slots_keeps:
  assumes "read_chunk_slots c dev n cs z = Inr (ss, z')"
  shows "keeps z z'"
proof -
  have "keeps z (snd (ss, z'))"
    using assms unfolding read_chunk_slots_def
    by (rule foldR_invariant) (auto simp: bindR_eq_Inr intro: keeps_trans dest!: MakeReadRequest_keeps)
  then show ?thesis by simp
qed

section \<open>Requests keep the shape\<close>

lemma map_typed_keeps: "keeps z z' \<Longrightarrow> map_typed z \<Longrightarrow> map_typed z'"
  by (simp add: keeps_def map_typed_def)

lemma get_chunks_keeps:
  assumes "get_chunks c env dev n s req z = Inr (resp, z')"
  shows "keeps z z'"
proof -
  obtain cs z1 z2 z3 ss where s: "return_slot (return_key c n) s z = Inr z1" "read_chunk_slots c dev n cs z1 = Inr (ss, z2)"
      "foldR (\<lambda>(k, s). zoneRead (outcomes env k) (dma env k) s) (enumerate 0 ss) z2 = Inr z3"
      "foldR (return_slot (return_key c n)) ss z3 = Inr z'"
    using assms unfolding get_chunks_def Let_def by (auto simp: bindR_eq_Inr)
  have "keeps z z1" "keeps z1 z2" using return_slot_keeps [OF s(1)] read_chunk_slots_keeps [OF s(2)] by simp_all
  moreover have "keeps z2 z3" by (rule foldR_keeps [OF s(3)]) (auto dest: zoneRead_keeps split: prod.splits)
  moreover have "keeps z3 z'" by (rule foldR_keeps [OF s(4)]) (rule return_slot_keeps)
  ultimately show ?thesis using keeps_trans by blast
qed

lemma keeps_AddToBroadcast [simp]: "keeps z (AddToBroadcast k z)"
  by (simp add: keeps_def AddToBroadcast_def)

lemma read_object_keeps:
  assumes "MakeReadRequest c dev off n z = Inr (s, z1)" "zoneReadDummy b s z1 = Inr z2" "update_slot s f z2 = Inr z3"
  shows "keeps z z3"
  using MakeReadRequest_keeps [OF assms(1)] zoneReadDummy_keeps [OF assms(2)] update_slot_keeps [OF assms(3)] keeps_trans
  by blast

lemma handle_get_keeps:
  assumes "handle_get c env key h req z = Inr (resp, z')"
  shows "keeps z z'"
proof (cases "contains_str (rq_target req) ''max-keys='' \<or> key = []")
  case True
  then show ?thesis using assms by (auto simp: handle_get_def bindR_eq_Inr split: if_splits)
next
  case False
  let ?z = "AddToBroadcast h z"
  have "keeps ?z z'" using assms False unfolding handle_get_def Let_def
    by (auto simp: bindR_eq_Inr intro: keeps_trans [OF read_object_keeps] dest: get_chunks_keeps return_slot_keeps
        split: option.splits if_splits)
  then show ?thesis using keeps_trans [OF keeps_AddToBroadcast] by blast
qed

text \<open>The entry that a PUT stores names the devices of the tuple that was drawn.\<close>

lemma put_small_entry:
  assumes "put_small c env k (t1, t2, t3) devs n req z = Inr (resp, z')"
  shows "\<exists>e. mMap z' = (mMap z)(k \<mapsto> e) \<and> mDevHash z' = mDevHash z \<and>
    map device_id [loc0 e, loc1 e, loc2 e] = map (\<lambda>t. uint (of_int t :: u8)) [t1, t2, t3]"
proof -
  obtain d1 d2 d3 where devs: "devs = (d1, d2, d3)" by (cases devs)
  obtain s1 s2 s3 z1 z2 z3 z4 z5 l e where st:
      "MakeWriteRequest c d1 (vec_data env) (ucast n) z = Inr (s1, z1)" "MakeWriteRequest c d2 (vec_data env) (ucast n) z1 = Inr (s2, z2)"
      "MakeWriteRequest c d3 (vec_data env) (ucast n) z2 = Inr (s3, z3)" "append_all env 0 [s1, s2, s3] z3 = Inr z4"
      "put_entry (t1, t2, t3) (d1, d2, d3) (l, l, l) z4 = Inr e"
      "foldR (return_slot (return_key c (ucast n))) [s1, s2, s3] z4 = Inr z5" "z' = z5\<lparr>mMap := (mMap z5)(k \<mapsto> e)\<rparr>"
    using assms by (clarsimp simp: put_small_def devs BroadcastLocations_def PutObject_def Let_def bindR_eq_Inr simp del: append_all_Cons foldR.simps)
  have "keeps z z4" using MakeWriteRequest_keeps [OF st(1)] MakeWriteRequest_keeps [OF st(2)] MakeWriteRequest_keeps [OF st(3)]
      append_all_keeps [OF st(4)] keeps_trans by blast
  moreover have "keeps z4 z5" by (rule foldR_keeps [OF st(6)]) (rule return_slot_keeps)
  ultimately have "keeps z z5" by (rule keeps_trans)
  moreover have "map device_id [loc0 e, loc1 e, loc2 e] = map (\<lambda>t. uint (of_int t :: u8)) [t1, t2, t3]"
    using st(5) by (auto simp: put_entry_def createMapEntry_def bindR_eq_Inr)
  ultimately show ?thesis using st(7) by (intro exI [of _ e]) (simp add: keeps_def)
qed

lemma dev_tuple_replicas:
  assumes "dev_tuple_ok t" and "CreateFakeObject h t = e0"
    and "map device_id [loc0 e, loc1 e, loc2 e] = map (\<lambda>t. uint (of_int t :: u8)) [device_id (loc0 e0), device_id (loc1 e0), device_id (loc2 e0)]"
  shows "replicas_ok e"
proof -
  obtain a z1 b z2 d z3 where t: "t = ((a, z1), (b, z2), (d, z3))" by (metis prod.exhaust)
  have "device_id (loc0 e) = uint a" "device_id (loc1 e) = uint b" "device_id (loc2 e) = uint d"
    using assms(2,3) by (auto simp: t CreateFakeObject_def createMapEntry_def)
  moreover have "uint a < 6" "uint b < 6" "uint d < 6" "a \<noteq> b" "a \<noteq> d" "b \<noteq> d"
    using assms(1) by (simp_all add: t dev_tuple_ok_def word_less_def)
  ultimately show ?thesis by (simp add: replicas_ok_def flip: word_uint_eq_iff)
qed

lemma handle_put_typed:
  assumes "handle_put c env key h req z = Inr (resp, z')" and ty: "map_typed z"
  shows "map_typed z'"
proof (cases "key = []")
  case True
  then show ?thesis using assms by (simp add: handle_put_def)
next
  case False
  let ?z = "AddToBroadcast h z"
  have z: "map_typed ?z" using map_typed_keeps [OF keeps_AddToBroadcast ty] .
  obtain t devs n where t: "(if gExperimental c then Inr (GetDevTupleForRandomReads c h) else GetDevTuple (rand_after env) h ?z) = Inr t"
      "put_small c env h (device_id (loc0 (CreateFakeObject h t)), device_id (loc1 (CreateFakeObject h t)), device_id (loc2 (CreateFakeObject h t)))
        devs n req ?z = Inr (resp, z')"
    using assms(1) False
    by (auto simp: handle_put_def BroadcastToInflight_def Let_def bindR_eq_Inr put_large_not_Inr split: if_splits)
  have "dev_tuple_ok t"
  proof (cases "gExperimental c")
    case True
    then show ?thesis using t(1) by (auto simp: GetDevTupleForRandomReads_def dev_tuple_ok_def)
  next
    case False
    then have "t \<in> set (mDevHash ?z)" using t(1) by (auto simp: GetDevTuple_def Let_def split: if_splits)
    then show ?thesis using z by (simp add: map_typed_def)
  qed
  then show ?thesis using put_small_entry [OF t(2)] dev_tuple_replicas z by (fastforce simp: map_typed_def)
qed

lemma request_typed:
  assumes "awaitable_on_request c env req z = Inr (resp, z')" and "map_typed z"
  shows "map_typed z'"
proof (cases "rq_method req")
  case DeleteV
  then show ?thesis using assms
    by (auto simp: awaitable_on_request_def DeleteObject_def map_typed_def split: prod.splits if_splits)
qed (use assms handle_put_typed map_typed_keeps [OF handle_get_keeps] in
     \<open>auto simp: awaitable_on_request_def Let_def split: prod.splits\<close>)

lemma session_typed: "do_session c evs z = Inr (msgs, how, z') \<Longrightarrow> map_typed z \<Longrightarrow> map_typed z'"
proof (induction evs arbitrary: z msgs)
  case (Cons ev evs)
  have req: "awaitable_on_request c env rq z = Inr (m, z1) \<Longrightarrow> map_typed z1" for env rq m z1
    using request_typed Cons.prems(2) by blast
  show ?case using Cons.prems
    by (cases ev)
      (auto simp: bindR_eq_Inr dest!: req intro: Cons.IH split: read_result.splits write_result.splits sum.splits if_splits)
qed simp

text \<open>
  (C6) The object map is well formed. Starting from a device hash of proper triples and a map whose
  entries name three different devices of the six, every run of the listener that does not stop the
  process ends with such a map: in normal, replay and experimental mode, for every interleaving of
  sessions, and whatever requests, failures and device answers occur.
\<close>

theorem map_entries_typed:
  assumes "map_typed z" and "do_listen c bound evs z = Inr (ans, L, z')"
  shows "map_typed z'"
proof -
  have "run_steps (listen_step c) evs (L0, z) = Inr (ans, L, z') \<Longrightarrow> map_typed z \<Longrightarrow> map_typed z'" for L0
  proof (induction evs arbitrary: L0 z ans)
    case (Cons ev evs)
    obtain a L1 z1 as where st: "listen_step c ev (L0, z) = Inr (a, L1, z1)" "run_steps (listen_step c) evs (L1, z1) = Inr (as, L, z')"
      using Cons.prems(1) by (auto simp: bindR_eq_Inr)
    have "map_typed z1" using st(1) Cons.prems(2) session_typed
      by (fastforce simp: listen_step_def bindR_eq_Inr split: listen_event.splits if_splits)
    then show ?case using Cons.IH [OF st(2)] by blast
  qed simp
  then show ?thesis using assms by (auto simp: do_listen_def split: if_splits)
qed

theorem map_entries_typed_witness:
  "\<exists>ans L z'. do_listen conf_default True [Accepted 1, OnSession 1 (ex_env, ReadRequest (ex_request DeleteV ''/b/k''), WriteFailed)] ex_zctrl =
     Inr (ans, L, z') \<and> map_typed z'"
proof -
  let ?evs = "[Accepted 1, OnSession 1 (ex_env, ReadRequest (ex_request DeleteV ''/b/k''), WriteFailed)]"
  have "\<exists>ans L z'. do_listen conf_default True ?evs ex_zctrl = Inr (ans, L, z')"
    by (simp add: do_listen_def listen_step_def awaitable_on_request_def ex_request_def parse_url_def DeleteObject_def)
  moreover have "map_typed ex_zctrl" using ex_ready by (simp add: map_typed_def system_ready_def) (simp add: ex_zctrl_def)
  ultimately show ?thesis using map_entries_typed by blast
qed

end
