(* ===== verification/Zstore_Files.thy ===== *)
theory Zstore_Files
  imports Zstore_Io
begin

text \<open>
  The strings of a file (\<^verbatim>\<open>writeString\<close> and \<^verbatim>\<open>readString\<close> of \<^verbatim>\<open>src/src/zstore_controller.cc\<close>): the
  length in eight bytes, then the characters. An output stream is the list of bytes written. An input stream
  is the list of bytes left and whether no read has failed yet: a read that finds too few bytes
  delivers those that are left and fails, and after a failure nothing is read.
\<close>

section \<open>Streams and strings\<close>

type_synonym in_stream = "u8 list \<times> bool"

definition stream_read :: "u8 list \<Rightarrow> in_stream \<Rightarrow> u8 list \<times> in_stream" where
  "stream_read dst = (\<lambda>(bs, good).
     if good then (take (length dst) bs @ drop (length bs) dst, drop (length dst) bs, length dst \<le> length bs)
     else (dst, bs, False))"

definition writeString :: "string \<Rightarrow> u8 list \<Rightarrow> u8 list" where
  "writeString str out = (let n = of_nat (length str) in out @ le64 n @ take (unat n) (string_bytes str))"

text \<open>
  \<open>junk\<close> are the eight bytes of the uninitialised variable that the length is read into; \<open>alloc\<close>
  says for which lengths a string can be allocated.
\<close>

definition readString :: "u8 list \<Rightarrow> (nat \<Rightarrow> bool) \<Rightarrow> in_stream \<Rightarrow> (string \<times> in_stream) res" where
  "readString junk alloc s =
     (let (len_bytes, s) = stream_read junk s; n = unat (un_le64 len_bytes) in
      if alloc n then
        let (bs, s) = stream_read (replicate n 0) s in Inr (bytes_string bs, s)
      else Inl LengthError)"

fun writeStrings :: "string list \<Rightarrow> u8 list \<Rightarrow> u8 list" where
  "writeStrings [] out = out"
| "writeStrings (s # ss) out = writeStrings ss (writeString s out)"

fun readStrings :: "u8 list \<Rightarrow> (nat \<Rightarrow> bool) \<Rightarrow> nat \<Rightarrow> in_stream \<Rightarrow> (string list \<times> in_stream) res" where
  "readStrings junk alloc 0 s = Inr ([], s)"
| "readStrings junk alloc (Suc n) s =
     bindR (readString junk alloc s) (\<lambda>(str, s). bindR (readStrings junk alloc n s) (\<lambda>(strs, s). Inr (str # strs, s)))"

section \<open>Reading what was written\<close>

lemma bytes_string_bytes [simp]: "bytes_string (string_bytes s) = s"
proof -
  have "char_of (unat (of_char ch :: u8)) = ch" for ch
  proof -
    have "of_char ch < (256 :: nat)" by simp
    then have "unat (of_nat (of_char ch) :: u8) = of_char ch" by (simp add: unsigned_of_nat take_bit_nat_eq_self)
    then show ?thesis unfolding of_nat_of_char by simp
  qed
  then show ?thesis by (simp add: bytes_string_def string_bytes_def comp_def)
qed

lemma length_string_bytes [simp]: "length (string_bytes s) = length s"
  by (simp add: string_bytes_def)

lemma writeString_bytes:
  "length str < 2 ^ 64 \<Longrightarrow> writeString str out = out @ le64 (of_nat (length str)) @ string_bytes str"
  by (simp add: writeString_def Let_def unsigned_of_nat take_bit_nat_eq_self)

lemma writeStrings_append: "writeStrings strs out = out @ writeStrings strs []"
proof (induction strs arbitrary: out)
  case (Cons s strs)
  show ?case using Cons [of "writeString s out"] Cons [of "writeString s []"] by (simp add: writeString_def Let_def)
qed simp

text \<open>What is read when \<open>k\<close> of the characters follow the length.\<close>

lemma readString_prefix:
  assumes "length junk = 8" and n: "length str < 2 ^ 64" and "alloc (length str)"
  shows "readString junk alloc (le64 (of_nat (length str)) @ tail, True) =
    Inr (bytes_string (take (length str) tail @ replicate (length str - length tail) 0),
         drop (length str) tail, length str \<le> length tail)"
proof -
  have "unat (of_nat (length str) :: u64) = length str" using n by (simp add: unsigned_of_nat take_bit_nat_eq_self)
  then show ?thesis using assms(1,3) by (simp add: readString_def stream_read_def Let_def)
qed

lemma readString_writeString:
  assumes "length junk = 8" and "length str < 2 ^ 64" and "alloc (length str)"
  shows "readString junk alloc (writeString str [] @ rest, True) = Inr (str, rest, True)"
  using readString_prefix [where alloc = alloc, OF assms, of "string_bytes str @ rest"] assms(2)
  by (simp add: writeString_bytes)

text \<open>
  Every sequence of strings that was written to a file is read back, followed by whatever else
  the file holds.
\<close>

lemma file_strings_roundtrip:
  assumes "length junk = 8" and "list_all (\<lambda>s. length s < 2 ^ 64 \<and> alloc (length s)) strs"
  shows "readStrings junk alloc (length strs) (writeStrings strs [] @ rest, True) = Inr (strs, rest, True)"
  using assms(2)
proof (induction strs)
  case (Cons s strs)
  have "writeStrings (s # strs) [] @ rest = writeString s [] @ writeStrings strs [] @ rest"
    using writeStrings_append [of strs "writeString s []"] by simp
  then show ?case using Cons readString_writeString [OF assms(1), of s] by simp
qed simp

lemma file_strings_roundtrip_example:
  "readStrings (replicate 8 255) (\<lambda>n. n < 100) 2 (writeStrings [''key'', ''''] [] @ [7], True) = Inr ([''key'', ''''], [7], True)"
proof -
  have "list_all (\<lambda>s. length s < 2 ^ 64 \<and> length s < 100) [''key'', '''']" and "length [''key'', ''''] = 2" by simp_all
  then show ?thesis using file_strings_roundtrip [of "replicate 8 255" "\<lambda>n. n < 100" "[''key'', '''']" "[7]"]
    by (metis length_replicate)
qed

text \<open>A file that ends inside a string gives the characters that are there and zeros for the rest; only
  the state of the stream tells, which no caller looks at.\<close>

lemma truncated_string:
  assumes "length junk = 8" and "length str < 2 ^ 64" and "alloc (length str)" and "k < length str"
  shows "readString junk alloc (take (8 + k) (writeString str []), True) =
    Inr (take k str @ replicate (length str - k) (CHR 0x00), [], False)"
proof -
  have "char_of (0 :: nat) = (CHR 0x00)" by (simp add: char_of_def)
  moreover have "bytes_string (xs @ ys) = bytes_string xs @ bytes_string ys" for xs ys by (simp add: bytes_string_def)
  moreover have "bytes_string (take k (string_bytes str)) = take k str"
    using bytes_string_bytes [of str] by (metis bytes_string_def take_map)
  ultimately show ?thesis using assms readString_prefix [where alloc = alloc, OF assms(1-3), of "take k (string_bytes str)"]
    by (simp add: writeString_bytes bytes_string_def)
qed

end
