(* ===== verification/Zstore_XmlRound.thy ===== *)
theory Zstore_XmlRound
  imports Zstore_XmlPrint
begin

text \<open>
  Printing and parsing are inverse. \<open>rnode\<close> and \<open>rnodes\<close> relate a node and a list of nodes to the texts that
  render them, with white space allowed before markup that does not follow a text. The printer writes such
  a text (\<open>Accept_renders\<close>), and the parser turns every such text into the nodes, without the texts that
  consist of white space (\<open>rnodes_parse\<close>).
\<close>

section \<open>Escaping\<close>

definition esc_char :: "bool \<Rightarrow> char \<Rightarrow> string" where
  "esc_char restricted ch =
     (if entity_flag restricted ch then
        (case find (\<lambda>(pattern, v). v = ch) entities of
           None \<Rightarrow> [] | Some (pattern, v) \<Rightarrow> CHR ''&'' # pattern @ '';'')
      else [ch])"

definition esc :: "bool \<Rightarrow> string \<Rightarrow> string" where
  "esc restricted s = concat (map (esc_char restricted) s)"

lemma esc_simps [simp]: "esc r [] = []" "esc r (ch # s) = esc_char r ch @ esc r s"
  by (simp_all add: esc_def)

lemma Write_Write [simp]: "Write t (Write s pr) = Write (s @ t) pr"
  by (simp add: Write_def)

lemma Putc_Write [simp]: "Putc ch (Write s pr) = Write (s @ [ch]) pr"
  by (simp add: Write_def Putc_def)

lemma Write_Putc [simp]: "Write s (Putc ch pr) = Write (ch # s) pr"
  by (simp add: Write_def Putc_def)

lemma buffer_Write [simp]: "printBuffer (Write s pr) = printBuffer pr @ s" "printBuffer (Putc ch pr) = printBuffer pr @ [ch]"
  by (simp_all add: Write_def Putc_def)

lemma print_string_loop_esc:
  "length run + length p \<le> INT_MAX \<Longrightarrow> print_string_loop r run p pr = Write (run @ esc r p) pr"
proof (induction p arbitrary: run pr)
  case Nil
  then show ?case by simp
next
  case (Cons q qs)
  show ?case
  proof (cases "entity_flag r q")
    case False
    then show ?thesis using Cons by (simp add: esc_char_def)
  next
    case True
    have "length ([] :: string) + length qs \<le> INT_MAX" using Cons.prems by simp
    from Cons.IH [OF this] True show ?thesis
      by (auto simp: esc_char_def Let_def split: option.splits)
  qed
qed

lemma PrintString_esc:
  "length p \<le> INT_MAX \<Longrightarrow> escapes pr \<Longrightarrow> PrintString p r pr = Write (esc r p) pr"
  by (simp add: PrintString_def print_string_loop_esc)

text \<open>An escaped text has none of the characters that are escaped.\<close>

lemma entity_flag_cases:
  assumes "entity_flag r ch"
  obtains "ch = CHR 0x22" | "ch = CHR ''&''" | "ch = CHR 0x27" | "ch = CHR ''<''" | "ch = CHR ''>''"
  using assms unfolding entity_flag_def entities_def by (auto split: if_splits)

lemma entities_cases:
  assumes "(pattern, ch) \<in> set entities"
  obtains "pattern = ''quot''" "ch = CHR 0x22" | "pattern = ''amp''" "ch = CHR ''&''" | "pattern = ''apos''" "ch = CHR 0x27"
    | "pattern = ''lt''" "ch = CHR ''<''" | "pattern = ''gt''" "ch = CHR ''>''"
  using assms unfolding entities_def by auto

lemma entity_cases:
  assumes "entity_flag r ch"
  obtains pattern where "(pattern, ch) \<in> set entities" "esc_char r ch = CHR ''&'' # pattern @ '';''"
proof -
  have "\<exists>pattern. (pattern, ch) \<in> set entities \<and> find (\<lambda>(pattern, v). v = ch) entities = Some (pattern, ch)"
    using assms by (rule entity_flag_cases) (simp_all add: entities_def)
  then show ?thesis using assms that by (auto simp: esc_char_def)
qed

lemma entity_flag_special:
  "entity_flag r (CHR ''<'')" "entity_flag r (CHR ''&'')" "entity_flag r (CHR ''>'')" "entity_flag False (CHR 0x22)"
  by (simp_all add: entity_flag_def ENTITY_RANGE_def entities_def)

lemma esc_absent:
  assumes x: "entity_flag r x" "\<forall>(pattern, v) \<in> set entities. x \<notin> set pattern" "x \<noteq> CHR '';''" "x \<noteq> CHR ''&''"
  shows "x \<notin> set (esc r s)"
proof (induction s)
  case (Cons ch s)
  have "x \<notin> set (esc_char r ch)"
  proof (cases "entity_flag r ch")
    case True
    then show ?thesis using x by (elim entity_cases) auto
  next
    case False
    then show ?thesis using x by (auto simp: esc_char_def)
  qed
  with Cons show ?case by simp
qed simp

lemma esc_no_lt: "CHR ''<'' \<notin> set (esc r s)"
  by (rule esc_absent) (simp_all add: entity_flag_special entities_def)

lemma esc_no_quote: "CHR 0x22 \<notin> set (esc False s)"
  by (rule esc_absent) (simp_all add: entity_flag_special entities_def)

section \<open>Reading strings back\<close>

definition str_ok :: "string \<Rightarrow> bool" where
  "str_ok s \<longleftrightarrow> CHR 0x00 \<notin> set s \<and> CHR 0x0D \<notin> set s \<and> length s \<le> INT_MAX"

lemma match_entity_esc:
  "(pattern, ch) \<in> set entities \<Longrightarrow> match_entity (pattern @ CHR '';'' # rest) = Some (pattern, ch)"
  by (erule entities_cases) (simp_all add: match_entity_def entities_def StringEqualN_def)

lemma entities_not_ref: "(pattern, ch) \<in> set entities \<Longrightarrow> take 1 (pattern @ CHR '';'' # rest) \<noteq> ''#''"
  by (erule entities_cases; simp)

lemma esc_starts: "CHR 0x0D \<notin> set s \<Longrightarrow> take 1 rest \<noteq> [CHR 0x0D] \<Longrightarrow> take 1 (esc r s @ rest) \<noteq> [CHR 0x0D]"
proof (cases s)
  case (Cons ch s')
  assume cr: "CHR 0x0D \<notin> set s"
  show ?thesis
  proof (cases "entity_flag r ch")
    case True
    then show ?thesis using Cons by (elim entity_cases) simp
  next
    case False
    then show ?thesis using Cons cr by (auto simp: esc_char_def)
  qed
qed simp

lemma get_str_loop_esc:
  assumes "NEEDS_ENTITY_PROCESSING flags" and "CHR 0x0D \<notin> set s" and rest: "take 1 rest \<noteq> [CHR 0x0D]"
  shows "get_str_loop flags orig (esc r s @ rest) out = get_str_loop flags orig rest (out @ s)"
  using assms(2)
proof (induction s arbitrary: out)
  case Nil
  then show ?case by simp
next
  case (Cons ch s)
  have cr: "CHR 0x0D \<notin> set s" "ch \<noteq> CHR 0x0D" using Cons.prems by auto
  show ?case
  proof (cases "entity_flag r ch")
    case True
    then obtain pattern where pat: "(pattern, ch) \<in> set entities" "esc_char r ch = CHR ''&'' # pattern @ '';''"
      by (rule entity_cases)
    have "get_str_loop flags orig (CHR ''&'' # pattern @ CHR '';'' # esc r s @ rest) out =
        get_str_loop flags orig (esc r s @ rest) (out @ [ch])"
      using match_entity_esc [OF pat(1)] entities_not_ref [OF pat(1)] assms(1) by simp
    then show ?thesis using pat(2) Cons.IH [OF cr(1)] by simp
  next
    case False
    have e: "esc_char r ch = [ch]" using False by (simp add: esc_char_def)
    have amp: "ch \<noteq> CHR ''&''" using False entity_flag_special(2) by auto
    note nocr = esc_starts [OF cr(1) rest, of r]
    have "get_str_loop flags orig (ch # esc r s @ rest) out = get_str_loop flags orig (esc r s @ rest) (out @ [ch])"
      using cr(2) amp nocr by auto
    then show ?thesis using e Cons.IH [OF cr(1)] by simp
  qed
qed

lemma get_str_loop_plain:
  assumes "\<not> NEEDS_ENTITY_PROCESSING flags" and "CHR 0x0D \<notin> set s"
  shows "get_str_loop flags orig s out = out @ s"
  using assms(2)
proof (induction s arbitrary: out)
  case (Cons ch s)
  have "take 1 s \<noteq> [CHR 0x0D]" using Cons.prems by (cases s) auto
  then show ?case using Cons assms(1) by auto
qed simp

lemma GetStr_esc: "str_ok s \<Longrightarrow> GetStr TEXT_ELEMENT (esc r s) = s"
  using get_str_loop_esc [of TEXT_ELEMENT s "[]"] by (simp add: GetStr_def TEXT_ELEMENT_def str_ok_def c_str_id)

lemma GetStr_plain: "str_ok s \<Longrightarrow> GetStr TEXT_ELEMENT_LEAVE_ENTITIES s = s"
  by (simp add: GetStr_def TEXT_ELEMENT_LEAVE_ENTITIES_def TEXT_ELEMENT_def get_str_loop_plain str_ok_def c_str_id)

lemma ParseText_at:
  assumes "ParseText tag v = None" and tag: "tag = pre @ [l]" "l \<notin> set pre"
  shows "ParseText tag (v @ tag @ rest) = Some (v, rest)"
  using assms(1)
proof (induction v)
  case Nil
  obtain ch cs where "tag @ rest = ch # cs" using tag by (cases "tag @ rest") auto
  moreover from this have "StringEqualN (ch # cs) tag (length tag)" "drop (length tag) (ch # cs) = rest"
    by (metis StringEqualN_def append_eq_conv_conj take_all le_refl)+
  ultimately show ?case by simp
next
  case (Cons ch v)
  have no: "take (length tag) (ch # v) \<noteq> tag"
    using Cons.prems by (auto simp: StringEqualN_def split: if_splits)
  have "take (length tag) ((ch # v) @ tag @ rest) \<noteq> tag"
  proof (cases "length tag \<le> length (ch # v)")
    case True
    then have "take (length tag) ((ch # v) @ tag @ rest) = take (length tag) (ch # v)"
      unfolding take_append by simp
    then show ?thesis using no by simp
  next
    case False
    define k where "k = length tag - length (ch # v)"
    have k: "k < length tag" "0 < k" using False tag by (auto simp: k_def)
    have "take (length tag) ((ch # v) @ tag @ rest) = (ch # v) @ take k tag"
      unfolding take_append using False by (simp add: k_def)
    moreover have "last ((ch # v) @ take k tag) \<noteq> last tag"
    proof -
      have t: "take k tag = take k pre" "take k pre \<noteq> []" using k tag by auto
      then have "last (take k tag) \<in> set pre" by (metis in_set_takeD last_in_set)
      with t tag show ?thesis by auto
    qed
    ultimately show ?thesis by metis
  qed
  moreover have "ParseText tag v = None"
    using Cons.prems by (auto split: if_splits option.splits)
  ultimately show ?case using Cons.IH tag by (simp add: StringEqualN_def)
qed

lemma ParseText_absent: "ch \<notin> set v \<Longrightarrow> ParseText [ch] v = None"
  by (induction v) (auto simp: StringEqualN_def)

lemma ParseText_char: "ch \<notin> set v \<Longrightarrow> ParseText [ch] (v @ ch # rest) = Some (v, rest)"
  using ParseText_at [OF ParseText_absent, of ch v "[]" ch rest] by simp

definition valid_name :: "string \<Rightarrow> bool" where
  "valid_name s \<longleftrightarrow> (case s of [] \<Rightarrow> False | ch # cs \<Rightarrow> IsNameStartChar ch \<and> list_all IsNameChar cs) \<and> length s \<le> INT_MAX"

lemma ParseName_valid:
  assumes "valid_name s" and "rest = [] \<or> \<not> IsNameChar (hd rest)"
  shows "ParseName (s @ rest) = Some (s, rest)"
proof -
  obtain ch cs where s: "s = ch # cs" "IsNameStartChar ch" "list_all IsNameChar cs"
    using assms(1) by (auto simp: valid_name_def split: list.splits)
  have "takeWhile IsNameChar (cs @ rest) = cs" "dropWhile IsNameChar (cs @ rest) = rest"
    using s(3) assms(2) by (cases rest; auto simp: list_all_iff takeWhile_append dropWhile_append)+
  then show ?thesis using s by (simp add: ParseName_def)
qed

section \<open>Tags\<close>

definition attr_text :: "string \<times> string \<Rightarrow> string" where
  "attr_text a = CHR '' '' # fst a @ [CHR ''='', CHR 0x22] @ esc False (snd a) @ [CHR 0x22]"

definition attrs_text :: "(string \<times> string) list \<Rightarrow> string" where
  "attrs_text as = concat (map attr_text as)"

definition attrs_ok :: "(string \<times> string) list \<Rightarrow> bool" where
  "attrs_ok as \<longleftrightarrow> list_all (\<lambda>a. valid_name (fst a) \<and> str_ok (snd a)) as \<and> distinct (map fst as)"

lemma char_classes [simp]:
  "\<not> IsWhiteSpace (CHR ''<'')" "\<not> IsWhiteSpace (CHR ''='')" "\<not> IsWhiteSpace (CHR 0x22)" "\<not> IsWhiteSpace (CHR ''>'')"
  "\<not> IsWhiteSpace (CHR ''/'')" "IsWhiteSpace (CHR '' '')" "IsWhiteSpace (CHR 0x0A)" "\<not> IsNameChar (CHR '' '')" "\<not> IsNameChar (CHR ''='')"
  "\<not> IsNameChar (CHR ''>'')" "\<not> IsNameChar (CHR ''/'')" "\<not> IsNameStartChar (CHR ''>'')" "\<not> IsNameStartChar (CHR ''/'')"
  by (simp_all add: IsWhiteSpace_def isspace_def IsUTF8Continuation_def IsNameChar_def IsNameStartChar_def isalpha_def is_digit_def)

lemma IsNameStartChar_not_space: "IsNameStartChar ch \<Longrightarrow> \<not> IsWhiteSpace ch"
  by (auto simp: IsWhiteSpace_def isspace_def IsUTF8Continuation_def IsNameStartChar_def isalpha_def split: if_splits)

lemma valid_name_start:
  assumes "valid_name s" obtains ch cs where "s = ch # cs" "IsNameStartChar ch" "\<not> IsWhiteSpace ch"
  using assms IsNameStartChar_not_space by (auto simp: valid_name_def split: list.splits)

lemma XMLAttribute_ParseDeep_text:
  assumes "valid_name (fst a)" "str_ok (snd a)" "processEntities doc"
  shows "XMLAttribute_ParseDeep doc (tl (attr_text a) @ rest) = Some (a, rest)"
proof -
  have "ParseName (tl (attr_text a) @ rest) = Some (fst a, CHR ''='' # CHR 0x22 # esc False (snd a) @ CHR 0x22 # rest)"
    using ParseName_valid [OF assms(1), of "CHR ''='' # CHR 0x22 # esc False (snd a) @ CHR 0x22 # rest"]
    by (simp add: attr_text_def)
  then show ?thesis
    using ParseText_char [OF esc_no_quote] assms
    by (simp add: XMLAttribute_ParseDeep_def ATTRIBUTE_VALUE_def GetStr_esc)
qed

lemma StringEqual_names: "length s \<le> INT_MAX \<Longrightarrow> length t \<le> INT_MAX \<Longrightarrow> StringEqual s t \<longleftrightarrow> s = t"
  by (simp add: StringEqual_def StringEqualN_def)

lemma Attribute_None:
  assumes "list_all (\<lambda>a. length (fst a) \<le> INT_MAX) as" "length name \<le> INT_MAX"
  shows "Attribute name None as = None \<longleftrightarrow> name \<notin> fst ` set as"
  using assms(1) by (induction as) (auto simp: Attribute_def StringEqual_names assms(2) split: option.splits if_splits)

lemma ParseAttributes_Cons:
  assumes "valid_name (fst a)" "str_ok (snd a)" "processEntities doc" "Attribute (fst a) None as = None"
  shows "ParseAttributes doc as (attr_text a @ rest) = ParseAttributes doc (as @ [a]) rest"
proof -
  obtain ch cs where n: "fst a = ch # cs" "IsNameStartChar ch" "\<not> IsWhiteSpace ch"
    using assms(1) by (rule valid_name_start)
  then have "SkipWhiteSpace (attr_text a @ rest) = tl (attr_text a) @ rest" by (simp add: attr_text_def)
  moreover obtain cs' where "tl (attr_text a) @ rest = ch # cs'" using n by (simp add: attr_text_def)
  ultimately show ?thesis
    using n assms(4) XMLAttribute_ParseDeep_text [OF assms(1-3), of rest]
    by (subst ParseAttributes.simps) simp
qed

lemma valid_name_length: "valid_name s \<Longrightarrow> length s \<le> INT_MAX"
  by (simp add: valid_name_def)

lemma ParseAttributes_text:
  assumes "attrs_ok (as0 @ as)" "processEntities doc"
  shows "ParseAttributes doc as0 (attrs_text as @ rest) = ParseAttributes doc (as0 @ as) rest"
  using assms(1)
proof (induction as arbitrary: as0)
  case Nil
  then show ?case by (simp add: attrs_text_def)
next
  case (Cons a as)
  then have a: "valid_name (fst a)" "str_ok (snd a)" "fst a \<notin> fst ` set as0"
    "list_all (\<lambda>a. length (fst a) \<le> INT_MAX) as0"
    by (auto simp: attrs_ok_def list_all_iff valid_name_length)
  then have "Attribute (fst a) None as0 = None" using Attribute_None valid_name_length by blast
  from ParseAttributes_Cons [OF a(1,2) assms(2) this, of "attrs_text as @ rest"] Cons.IH [of "as0 @ [a]"] Cons.prems
  show ?case by (simp add: attrs_text_def)
qed

lemma ParseAttributes_end:
  "ParseAttributes doc as (CHR ''>'' # rest) = Inr (as, False, rest)"
  "ParseAttributes doc as (CHR ''/'' # CHR ''>'' # rest) = Inr (as, True, rest)"
  by (subst ParseAttributes.simps, simp)+

lemma attrs_text_ends_name:
  assumes "\<not> IsNameChar ch" shows "\<not> IsNameChar (hd (attrs_text as @ ch # rest))"
  using assms by (cases as) (auto simp: attrs_text_def attr_text_def)

lemma element_head_open:
  assumes "valid_name name" "attrs_ok as" "processEntities doc"
  shows "element_head doc (name @ attrs_text as @ CHR ''>'' # rest) = Inr (name, as, OPEN, rest)"
    and "element_head doc (name @ attrs_text as @ CHR ''/'' # CHR ''>'' # rest) = Inr (name, as, CLOSED, rest)"
proof -
  obtain ch cs where n: "name = ch # cs" "IsNameStartChar ch" "\<not> IsWhiteSpace ch"
    using assms(1) by (rule valid_name_start)
  have slash: "ch \<noteq> CHR ''/''" using n(2) by auto
  note attrs = ParseAttributes_text [of "[]" as, simplified, OF assms(2,3)]
  show "element_head doc (name @ attrs_text as @ CHR ''>'' # rest) = Inr (name, as, OPEN, rest)"
    using ParseName_valid [OF assms(1), of "attrs_text as @ CHR ''>'' # rest"] attrs_text_ends_name n(1,3) slash
    by (simp add: element_head_def attrs ParseAttributes_end)
  show "element_head doc (name @ attrs_text as @ CHR ''/'' # CHR ''>'' # rest) = Inr (name, as, CLOSED, rest)"
    using ParseName_valid [OF assms(1), of "attrs_text as @ CHR ''/'' # CHR ''>'' # rest"] attrs_text_ends_name n(1,3) slash
    by (simp add: element_head_def attrs ParseAttributes_end)
qed

lemma element_head_closing:
  assumes "valid_name name"
  shows "element_head doc (CHR ''/'' # name @ CHR ''>'' # rest) = Inr (name, [], CLOSING, rest)"
  using ParseName_valid [OF assms, of "CHR ''>'' # rest"] by (simp add: element_head_def ParseAttributes_end)

section \<open>Renderings of nodes\<close>

definition plain :: "XMLNode \<Rightarrow> bool" where
  "plain n \<longleftrightarrow> ToText n \<and> \<not> CData n"

abbreviation blank :: "string \<Rightarrow> bool" where
  "blank w \<equiv> list_all IsWhiteSpace w"

text \<open>
  \<open>rnodes after_text ns s\<close>: the text \<open>s\<close> renders the nodes \<open>ns\<close>, which follow a text if \<open>after_text\<close>. White
  space may stand before a node that is not a text, and at the end, unless a text comes right before it.
\<close>

inductive rnode :: "XMLNode \<Rightarrow> string \<Rightarrow> bool"
and rnodes :: "bool \<Rightarrow> XMLNode list \<Rightarrow> string \<Rightarrow> bool" where
  r_text: "rnode (XMLText s False) (esc True s)"
| r_cdata: "rnode (XMLText s True) (''<![CDATA['' @ s @ '']]>'')"
| r_comment: "rnode (XMLComment s) (''<!--'' @ s @ ''-->'')"
| r_declaration: "rnode (XMLDeclaration s) (''<?'' @ s @ ''?>'')"
| r_unknown: "rnode (XMLUnknown s) (''<!'' @ s @ ''>'')"
| r_closed: "rnode (XMLElement name as []) (''<'' @ name @ attrs_text as @ ''/>'')"
| r_open: "rnodes False ks s \<Longrightarrow>
     rnode (XMLElement name as ks) (''<'' @ name @ attrs_text as @ ''>'' @ s @ ''</'' @ name @ ''>'')"
| r_Nil: "blank w \<Longrightarrow> (after_text \<Longrightarrow> w = []) \<Longrightarrow> rnodes after_text [] w"
| r_Cons: "blank w \<Longrightarrow> (after_text \<or> plain k \<Longrightarrow> w = []) \<Longrightarrow> \<not> (after_text \<and> plain k) \<Longrightarrow>
     rnode k s \<Longrightarrow> rnodes (plain k) ks s' \<Longrightarrow> rnodes after_text (k # ks) (w @ s @ s')"

inductive_cases rnodes_ConsE: "rnodes after_text (k # ks) s"
inductive_cases rnodes_NilE: "rnodes after_text [] s"

text \<open>
  The nodes that can be read back, below \<open>depth\<close> levels: valid names and distinct attributes, strings without NUL
  and carriage return, no end mark inside a comment, CDATA section, declaration or unknown, and no
  more than the nesting that the parser accepts.
\<close>

fun readable :: "nat \<Rightarrow> XMLNode \<Rightarrow> bool" where
  "readable depth (XMLElement name as ks) \<longleftrightarrow>
     valid_name name \<and> attrs_ok as \<and> Suc depth < TINYXML2_MAX_ELEMENT_DEPTH \<and>
     list_all (\<lambda>k. readable (Suc depth) k \<and> \<not> ToDeclaration k) ks"
| "readable depth (XMLText s cdata) \<longleftrightarrow> str_ok s \<and> (cdata \<longrightarrow> ParseText '']]>'' s = None)"
| "readable depth (XMLComment s) \<longleftrightarrow> str_ok s \<and> ParseText ''-->'' s = None"
| "readable depth (XMLDeclaration s) \<longleftrightarrow> str_ok s \<and> ParseText ''?>'' s = None"
| "readable depth (XMLUnknown s) \<longleftrightarrow> str_ok s \<and> CHR ''>'' \<notin> set s \<and>
     take 2 s \<noteq> ''--'' \<and> take 7 s \<noteq> ''[CDATA[''"

text \<open>What the parser pr_keeps: everything but the texts of white space.\<close>

fun norm :: "XMLNode \<Rightarrow> XMLNode" and norms :: "XMLNode list \<Rightarrow> XMLNode list" where
  "norm (XMLElement name as ks) = XMLElement name as (norms ks)"
| "norm n = n"
| "norms [] = []"
| "norms (k # ks) = (if plain k \<and> blank (Value k) then norms ks else norm k # norms ks)"

fun decls_ok :: "bool \<Rightarrow> XMLNode list \<Rightarrow> bool" where
  "decls_ok only [] \<longleftrightarrow> True"
| "decls_ok only (k # ks) \<longleftrightarrow> (if ToDeclaration k then only \<and> decls_ok True ks else decls_ok False ks)"

lemma decls_ok_none: "list_all (\<lambda>k. \<not> ToDeclaration k) ks \<Longrightarrow> decls_ok False ks"
  by (induction ks) auto

section \<open>Parsing a rendering\<close>

lemma SkipWhiteSpace_blank:
  "blank w \<Longrightarrow> SkipWhiteSpace (w @ rest) = SkipWhiteSpace rest"
  by (induction w) auto

lemma Identify_blank:
  assumes "blank w" "whitespaceMode doc = PRESERVE_WHITESPACE" "rest = [] \<or> hd rest = CHR ''<''"
  shows "Identify doc first (w @ rest) = Identify doc first' rest"
proof -
  have "SkipWhiteSpace (w @ rest) = rest" "SkipWhiteSpace rest = rest"
    using assms(3) SkipWhiteSpace_blank [OF assms(1), of rest] by (cases rest; simp)+
  moreover have "StringEqualN rest ''<'' 1 \<or> rest = []" using assms(3) by (cases rest) (auto simp: StringEqualN_def)
  ultimately show ?thesis using assms(2) unfolding Identify_def Let_def by auto
qed

lemma loop_blank:
  assumes "blank w" "whitespaceMode doc = PRESERVE_WHITESPACE" "rest = [] \<or> hd rest = CHR ''<''"
  shows "parse_loop fuel doc depth is_document first children (w @ rest) =
         parse_loop fuel doc depth is_document first' children rest"
proof (cases fuel)
  case 0
  then show ?thesis by (simp add: parse_loop.simps)
next
  case (Suc f)
  note i = Identify_blank [OF assms, of first first']
  show ?thesis
  proof (cases "rest = []")
    case True
    moreover have "Identify doc first (w @ rest) = (None, [])"
      using i True by (simp add: Identify_def)
    ultimately show ?thesis using Suc loop_stops by metis
  next
    case False
    then show ?thesis using Suc i by (simp add: parse_loop.simps(2))
  qed
qed

lemma esc_blank: "blank s \<Longrightarrow> esc True s = s"
proof (induction s)
  case (Cons ch s)
  then have "\<not> entity_flag True ch"
    by (auto simp: entity_flag_def IsWhiteSpace_def isspace_def)
  then show ?case using Cons by (simp add: esc_char_def)
qed simp

lemma Skip_text:
  assumes "\<not> blank t"
  shows "\<exists>ch r. SkipWhiteSpace (esc True t @ rest) = ch # r \<and> ch \<noteq> CHR ''<''"
  using assms
proof (induction t)
  case (Cons ch t)
  show ?case
  proof (cases "entity_flag True ch")
    case True
    then obtain pattern where "esc_char True ch = CHR ''&'' # pattern @ '';''" by (rule entity_cases)
    then show ?thesis by (simp add: IsWhiteSpace_def isspace_def)
  next
    case False
    then have "ch \<noteq> CHR ''<''" using entity_flag_special(1) by auto
    then show ?thesis using False Cons by (auto simp: esc_char_def)
  qed
qed simp

lemma Identify_plain:
  assumes "\<not> blank t"
  shows "Identify doc first (esc True t @ rest) = (Some TextK, esc True t @ rest)"
proof -
  obtain ch r where "SkipWhiteSpace (esc True t @ rest) = ch # r" "ch \<noteq> CHR ''<''"
    using Skip_text [OF assms] by blast
  then show ?thesis by (simp add: Identify_def StringEqualN_def)
qed

lemma leaf_plain:
  assumes "str_ok t" "processEntities doc" "whitespaceMode doc = PRESERVE_WHITESPACE" "rest = CHR ''<'' # ch # r"
  shows "leaf_ParseDeep doc TextK (esc True t @ rest) = Inr (XMLText t False, rest)"
  using assms ParseText_char [OF esc_no_lt, of True t "ch # r"]
  by (simp add: leaf_ParseDeep_def XMLText_ParseDeep_def GetStr_esc)

lemma take_before:
  assumes "take n t \<noteq> pat" "ch \<notin> set pat"
  shows "take n (t @ ch # rest) \<noteq> pat"
proof (cases "n \<le> length t")
  case False
  then have "ch \<in> set (take n (t @ ch # rest))" by (cases "n - length t") auto
  then show ?thesis using assms(2) by auto
qed (use assms(1) in simp)

lemma ParseText_marks:
  "ParseText '']]>'' t = None \<Longrightarrow> ParseText '']]>'' (t @ '']]>'' @ rest) = Some (t, rest)"
  "ParseText ''-->'' t = None \<Longrightarrow> ParseText ''-->'' (t @ ''-->'' @ rest) = Some (t, rest)"
  "ParseText ''?>'' t = None \<Longrightarrow> ParseText ''?>'' (t @ ''?>'' @ rest) = Some (t, rest)"
  by (erule ParseText_at [of _ _ "'']]''" "CHR ''>''"] ParseText_at [of _ _ "''--''" "CHR ''>''"]
      ParseText_at [of _ _ "''?''" "CHR ''>''"]; simp)+

lemma leaf_markup:
  assumes "rnode k s" "\<not> plain k" "\<not> ToElement k" "readable depth k"
  shows "\<exists>kind q. Identify doc first (s @ rest) = (Some kind, q) \<and> kind \<noteq> ElementK \<and> leaf_ParseDeep doc kind q = Inr (k, rest)"
  using assms
proof (cases rule: rnode.cases)
  case (r_cdata t)
  then have t: "ParseText '']]>'' (t @ '']]>'' @ rest) = Some (t, rest)" "str_ok t"
    using assms(4) by (simp_all only: readable.simps ParseText_marks simp_thms)
  then show ?thesis using r_cdata
    by (simp add: Identify_def StringEqualN_def leaf_ParseDeep_def XMLText_ParseDeep_def GetStr_plain)
next
  case (r_comment t)
  then have t: "ParseText ''-->'' (t @ ''-->'' @ rest) = Some (t, rest)" "str_ok t"
    using assms(4) by (simp_all only: readable.simps ParseText_marks simp_thms)
  then show ?thesis using r_comment
    by (simp add: Identify_def StringEqualN_def leaf_ParseDeep_def XMLComment_ParseDeep_def COMMENT_def GetStr_plain)
next
  case (r_declaration t)
  then have t: "ParseText ''?>'' (t @ ''?>'' @ rest) = Some (t, rest)" "str_ok t"
    using assms(4) by (simp_all only: readable.simps ParseText_marks simp_thms)
  then show ?thesis using r_declaration
    by (simp add: Identify_def StringEqualN_def leaf_ParseDeep_def XMLDeclaration_ParseDeep_def GetStr_plain)
next
  case (r_unknown t)
  then have t: "ParseText ''>'' (t @ CHR ''>'' # rest) = Some (t, rest)" "str_ok t"
    "take 2 t \<noteq> ''--''" "take 7 t \<noteq> ''[CDATA[''"
    using assms(4) by (auto intro: ParseText_char)
  have "take 2 (t @ CHR ''>'' # rest) \<noteq> ''--''" "take 7 (t @ CHR ''>'' # rest) \<noteq> ''[CDATA[''"
    using take_before [OF t(3)] take_before [OF t(4)] by simp_all
  then show ?thesis using r_unknown t
    by (simp add: Identify_def StringEqualN_def leaf_ParseDeep_def XMLUnknown_ParseDeep_def GetStr_plain)
qed (auto simp: plain_def ToText_def ToElement_def)

definition default_mode :: "XMLDocument \<Rightarrow> bool" where
  "default_mode doc \<longleftrightarrow> processEntities doc \<and> whitespaceMode doc = PRESERVE_WHITESPACE"

lemma Identify_first: "default_mode doc \<Longrightarrow> Identify doc first p = Identify doc first' p"
  by (simp add: default_mode_def Identify_def Let_def)

lemma loop_first:
  assumes "default_mode doc"
  shows "parse_loop fuel doc depth is_document first children p = parse_loop fuel doc depth is_document first' children p"
  by (cases fuel) (simp_all add: parse_loop.simps Identify_first [OF assms, of first _ first'])

text \<open>What a run of the loop may be followed by, and where a list of nodes ends in a text.\<close>

definition markup :: "string \<Rightarrow> bool" where
  "markup s \<longleftrightarrow> (\<exists>ch r. s = CHR ''<'' # ch # r)"

definition ends_text :: "bool \<Rightarrow> XMLNode list \<Rightarrow> bool" where
  "ends_text after_text ks \<longleftrightarrow> (if ks = [] then after_text else plain (last ks))"

lemma ends_text_Cons [simp]: "ends_text after_text (k # ks) = ends_text (plain k) ks"
  by (simp add: ends_text_def)

lemma rnode_markup:
  assumes "rnode k s" "\<not> plain k" shows "markup (s @ rest)"
  using assms(1)
proof (cases rule: rnode.cases)
  case (r_closed name as)
  then show ?thesis by (simp add: markup_def neq_Nil_conv [symmetric])
next
  case (r_open ks t name as)
  then show ?thesis by (simp add: markup_def neq_Nil_conv [symmetric])
qed (use assms(2) in \<open>auto simp: markup_def plain_def ToText_def\<close>)

lemma rnodes_after_text:
  assumes "rnodes True ks s" "rest \<noteq> [] \<longrightarrow> markup rest" "ends_text True ks \<longrightarrow> rest \<noteq> []"
  shows "markup (s @ rest)"
  using assms(1)
proof (cases rule: rnodes.cases)
  case r_Nil
  then show ?thesis using assms by (simp add: ends_text_def)
next
  case (r_Cons w k s1 ks' s2)
  then show ?thesis using rnode_markup [of k s1 "s2 @ rest"] by simp
qed

lemma rnode_Identify_element:
  assumes "rnode k s" "ToElement k" "readable depth k" "default_mode doc"
  shows "Identify doc first (s @ rest) = (Some ElementK, tl s @ rest)" "s \<noteq> []"
proof -
  obtain name as ks where k: "k = XMLElement name as ks" using assms(2) by (cases k) (auto simp: ToElement_def)
  then obtain r where s: "s = CHR ''<'' # name @ r" using assms(1) by (auto elim: rnode.cases)
  from assms(3) k obtain ch cs where n: "name = ch # cs" "IsNameStartChar ch"
    by (auto elim: valid_name_start)
  then have "ch \<noteq> CHR ''?''" "ch \<noteq> CHR ''!''" by (auto simp: IsNameStartChar_def isalpha_def)
  then show "Identify doc first (s @ rest) = (Some ElementK, tl s @ rest)"
    using assms(4) by (simp add: s n(1) Identify_def StringEqualN_def default_mode_def)
  show "s \<noteq> []" using s by simp
qed

lemma closing_tag_ends:
  assumes "valid_name name" "default_mode doc"
  shows "parse_loop (Suc (Suc fuel)) doc depth is_document first children (''</'' @ name @ ''>'' @ rest) = Some (children, None, Some (name, rest))"
proof -
  have "Identify doc first (''</'' @ name @ ''>'' @ rest) = (Some ElementK, CHR ''/'' # name @ CHR ''>'' # rest)"
    using assms(2) by (simp add: Identify_def StringEqualN_def default_mode_def)
  moreover have "XMLElement_ParseDeep (Suc fuel) doc depth (CHR ''/'' # name @ CHR ''>'' # rest) = Some (Inr (name, [], CLOSING, [], [], rest))"
    using element_head_closing [OF assms(1)] by (simp add: XMLElement_ParseDeep.simps)
  ultimately show ?thesis using loop_element by simp
qed

text \<open>The statements of the induction: an element, and a list of nodes before a given rest.\<close>

definition element_reads :: "XMLDocument \<Rightarrow> XMLNode \<Rightarrow> string \<Rightarrow> bool" where
  "element_reads doc k s \<longleftrightarrow> (\<forall>depth rest. readable depth k \<longrightarrow>
     (\<exists>fuel name as closing ks endTag.
        XMLElement_ParseDeep fuel doc depth (tl s @ rest) = Some (Inr (name, as, closing, ks, endTag, rest)) \<and>
        norm k = XMLElement name as ks \<and> closing \<noteq> CLOSING \<and> \<not> mismatch closing endTag name))"

definition nodes_read :: "XMLDocument \<Rightarrow> bool \<Rightarrow> XMLNode list \<Rightarrow> string \<Rightarrow> bool" where
  "nodes_read doc after_text ks s \<longleftrightarrow>
     (\<forall>depth is_document only children rest fuel r.
        list_all (readable depth) ks \<longrightarrow> decls_ok only ks \<longrightarrow>
        (only \<longrightarrow> is_document \<and> list_all ToDeclaration children) \<longrightarrow>
        (rest \<noteq> [] \<longrightarrow> markup rest) \<longrightarrow> (ends_text after_text ks \<longrightarrow> rest \<noteq> []) \<longrightarrow>
        parse_loop fuel doc depth is_document False (children @ norms ks) rest = Some r \<longrightarrow>
        (\<exists>fuel'. parse_loop fuel' doc depth is_document False children (s @ rest) = Some r))"

lemma nodes_readD:
  assumes "nodes_read doc after_text ks s" "list_all (readable depth) ks" "decls_ok only ks"
    "only \<Longrightarrow> is_document \<and> list_all ToDeclaration children" "rest \<noteq> [] \<Longrightarrow> markup rest"
    "ends_text after_text ks \<Longrightarrow> rest \<noteq> []"
    "parse_loop fuel doc depth is_document False (children @ norms ks) rest = Some r"
  shows "\<exists>fuel'. parse_loop fuel' doc depth is_document False children (s @ rest) = Some r"
  using assms unfolding nodes_read_def by blast

lemma nodes_read_plain:
  assumes "default_mode doc" "nodes_read doc True ks s'" "rnodes True ks s'"
  shows "nodes_read doc False (XMLText t False # ks) (esc True t @ s')"
  unfolding nodes_read_def
proof (intro allI impI)
  fix depth is_document only children rest fuel r
  assume rd: "list_all (readable depth) (XMLText t False # ks)" and decls: "decls_ok only (XMLText t False # ks)"
    and rest: "rest \<noteq> [] \<longrightarrow> markup rest" "ends_text False (XMLText t False # ks) \<longrightarrow> rest \<noteq> []"
    and run: "parse_loop fuel doc depth is_document False (children @ norms (XMLText t False # ks)) rest = Some r"
  have pl: "plain (XMLText t False)" by (simp add: plain_def ToText_def)
  have mk: "markup (s' @ rest)" using rnodes_after_text [OF assms(3)] rest pl by simp
  have tail: "\<exists>fuel'. parse_loop fuel' doc depth is_document False children' (s' @ rest) = Some r"
    if "parse_loop fuel doc depth is_document False (children' @ norms ks) rest = Some r" for children'
    using nodes_readD [OF assms(2), of depth False is_document children' rest fuel r] rd decls rest that pl
    by (auto simp: ToDeclaration_def)
  show "\<exists>fuel'. parse_loop fuel' doc depth is_document False children ((esc True t @ s') @ rest) = Some r"
  proof (cases "blank t")
    case True
    have "parse_loop fuel doc depth is_document False (children @ norms ks) rest = Some r"
      using run True pl by (simp add: Value_def)
    with tail obtain fuel' where "parse_loop fuel' doc depth is_document False children (s' @ rest) = Some r" by blast
    then show ?thesis
      using loop_blank [OF True, of doc "s' @ rest" fuel' depth is_document False children False] esc_blank [OF True] mk assms(1)
      by (auto simp: markup_def default_mode_def)
  next
    case False
    have "parse_loop fuel doc depth is_document False (InsertEndChild (XMLText t False) children @ norms ks) rest = Some r"
      using run False by (simp add: Value_def InsertEndChild_def)
    with tail obtain fuel' where f: "parse_loop fuel' doc depth is_document False (InsertEndChild (XMLText t False) children) (s' @ rest) = Some r"
      by blast
    obtain ch q where q: "s' @ rest = CHR ''<'' # ch # q" using mk by (auto simp: markup_def)
    have "leaf_ParseDeep doc TextK (esc True t @ s' @ rest) = Inr (XMLText t False, s' @ rest)"
      using leaf_plain [of t doc "s' @ rest" ch q] rd assms(1) q by (simp add: default_mode_def)
    from loop_leaf [OF Identify_plain [OF False] _ _ this] f q show ?thesis
      by (auto simp: ToDeclaration_def intro!: exI [of _ "Suc fuel'"])
  qed
qed

lemma nodes_read_markup:
  assumes mode: "default_mode doc" and node: "rnode k s" "\<not> plain k" "ToElement k \<Longrightarrow> element_reads doc k s"
    and tl: "nodes_read doc False ks s'" and w: "blank w"
  shows "nodes_read doc after_text (k # ks) (w @ s @ s')"
  unfolding nodes_read_def
proof (intro allI impI)
  fix depth is_document only children rest fuel r
  assume rd: "list_all (readable depth) (k # ks)" and decls: "decls_ok only (k # ks)"
    and only: "only \<longrightarrow> is_document \<and> list_all ToDeclaration children"
    and rest: "rest \<noteq> [] \<longrightarrow> markup rest" "ends_text after_text (k # ks) \<longrightarrow> rest \<noteq> []"
    and run: "parse_loop fuel doc depth is_document False (children @ norms (k # ks)) rest = Some r"
  have rk: "readable depth k" using rd by simp
  have mk: "markup (s @ s' @ rest)" using rnode_markup [OF node(1,2)] .
  then have ne: "s @ s' @ rest \<noteq> []" by (auto simp: markup_def)
  have "parse_loop fuel doc depth is_document False (InsertEndChild (norm k) children @ norms ks) rest = Some r"
    using run node(2) by (simp add: InsertEndChild_def)
  moreover have "norm k = k" if "ToDeclaration k" using that by (cases k) (auto simp: ToDeclaration_def)
  ultimately obtain fuel' where
    f: "parse_loop fuel' doc depth is_document False (InsertEndChild (norm k) children) (s' @ rest) = Some r"
    using nodes_readD [OF tl, of depth "ToDeclaration k" is_document "InsertEndChild (norm k) children" rest fuel r]
      rd decls only rest node(2) by (auto simp: InsertEndChild_def split: if_splits)
  have "\<exists>fuel'. parse_loop fuel' doc depth is_document False children (s @ s' @ rest) = Some r"
  proof (cases "ToElement k")
    case True
    obtain f1 name as closing kk endTag where
      e: "XMLElement_ParseDeep f1 doc depth (tl s @ s' @ rest) = Some (Inr (name, as, closing, kk, endTag, s' @ rest))"
        "norm k = XMLElement name as kk" "closing \<noteq> CLOSING" "\<not> mismatch closing endTag name"
      using node(3) [OF True] rk unfolding element_reads_def by blast
    define m where "m = max f1 fuel'"
    have "XMLElement_ParseDeep m doc depth (tl s @ s' @ rest) = Some (Inr (name, as, closing, kk, endTag, s' @ rest))"
      using element_fuel_mono [OF e(1)] by (simp add: m_def)
    from loop_element [OF rnode_Identify_element(1) [OF node(1) True rk mode] ne this] e(2-4) loop_fuel_mono [OF f, of m]
    show ?thesis by (auto simp: m_def intro!: exI [of _ "Suc m"])
  next
    case False
    then obtain kind q where kq: "Identify doc False (s @ s' @ rest) = (Some kind, q)" "kind \<noteq> ElementK"
      "leaf_ParseDeep doc kind q = Inr (k, s' @ rest)"
      using leaf_markup [OF node(1,2) False rk] by blast
    have "norm k = k" using False by (cases k) (auto simp: ToElement_def)
    moreover have "wellLocated is_document children" if "ToDeclaration k"
      using that decls only by (cases "children = []") (auto simp: wellLocated_def list_all_iff)
    ultimately show ?thesis using loop_leaf [OF kq(1) ne kq(2,3)] f
      by (auto intro!: exI [of _ "Suc fuel'"])
  qed
  then show "\<exists>fuel'. parse_loop fuel' doc depth is_document False children ((w @ s @ s') @ rest) = Some r"
    using loop_blank [OF w, of doc "s @ s' @ rest" _ depth is_document False children False] mk mode
    by (auto simp: markup_def default_mode_def)
qed

lemma element_reads_open:
  assumes mode: "default_mode doc" and IH: "nodes_read doc False ks s"
  shows "element_reads doc (XMLElement name as ks) (''<'' @ name @ attrs_text as @ ''>'' @ s @ ''</'' @ name @ ''>'')"
  unfolding element_reads_def
proof (intro allI impI)
  fix depth rest
  assume rd: "readable depth (XMLElement name as ks)"
  then have n: "valid_name name" "attrs_ok as" "Suc depth \<noteq> TINYXML2_MAX_ELEMENT_DEPTH" by auto
  define tail where "tail = ''</'' @ name @ ''>'' @ rest"
  have run: "parse_loop (Suc (Suc 0)) doc (Suc depth) False False ([] @ norms ks) tail = Some (norms ks, None, Some (name, rest))"
    unfolding tail_def append_Nil by (rule closing_tag_ends [OF n(1) mode])
  have ks: "list_all (readable (Suc depth)) ks" "decls_ok False ks" "markup tail"
    using rd decls_ok_none [of ks] by (auto simp: list_all_iff tail_def markup_def)
  have "\<exists>fuel. parse_loop fuel doc (Suc depth) False False [] (s @ tail) = Some (norms ks, None, Some (name, rest))"
    by (rule nodes_readD [OF IH ks(1,2) _ _ _ run]) (use ks(3) in \<open>auto simp: tail_def\<close>)
  then obtain fuel where loop: "parse_loop fuel doc (Suc depth) False True [] (s @ tail) = Some (norms ks, None, Some (name, rest))"
    using loop_first [OF mode] by metis
  have head: "element_head doc (name @ attrs_text as @ CHR ''>'' # s @ tail) = Inr (name, as, OPEN, s @ tail)"
    using element_head_open(1) [OF n(1,2)] mode by (simp add: default_mode_def)
  have "XMLElement_ParseDeep (Suc fuel) doc depth (name @ attrs_text as @ CHR ''>'' # s @ tail) =
        Some (Inr (name, as, OPEN, norms ks, name, rest))"
    using n(3) loop by (simp add: XMLElement_ParseDeep.simps(2) head) (simp add: tail_def)
  moreover have "\<not> mismatch OPEN name name"
    using n(1) by (auto simp: mismatch_def StringEqual_def StringEqualN_def valid_name_def)
  ultimately show "\<exists>fuel name' as' closing ks' endTag.
        XMLElement_ParseDeep fuel doc depth
          (tl (''<'' @ name @ attrs_text as @ ''>'' @ s @ ''</'' @ name @ ''>'') @ rest) =
        Some (Inr (name', as', closing, ks', endTag, rest)) \<and>
        norm (XMLElement name as ks) = XMLElement name' as' ks' \<and> closing \<noteq> CLOSING \<and> \<not> mismatch closing endTag name'"
    by (intro exI [of _ "Suc fuel"] exI [of _ name] exI [of _ as] exI [of _ OPEN] exI [of _ "norms ks"])
      (simp add: tail_def)
qed

lemma element_reads_closed:
  assumes "default_mode doc"
  shows "element_reads doc (XMLElement name as []) (''<'' @ name @ attrs_text as @ ''/>'')"
  unfolding element_reads_def
proof (intro allI impI)
  fix depth rest
  assume "readable depth (XMLElement name as [])"
  then have "element_head doc (name @ attrs_text as @ CHR ''/'' # CHR ''>'' # rest) = Inr (name, as, CLOSED, rest)"
    using element_head_open(2) assms by (simp add: default_mode_def)
  then show "\<exists>fuel name' as' closing ks' endTag.
        XMLElement_ParseDeep fuel doc depth (tl (''<'' @ name @ attrs_text as @ ''/>'') @ rest) =
        Some (Inr (name', as', closing, ks', endTag, rest)) \<and>
        norm (XMLElement name as []) = XMLElement name' as' ks' \<and> closing \<noteq> CLOSING \<and> \<not> mismatch closing endTag name'"
    by (intro exI [of _ "Suc 0"] exI [of _ name] exI [of _ as] exI [of _ CLOSED] exI [of _ "[]"])
      (simp add: XMLElement_ParseDeep.simps mismatch_def)
qed

lemma nodes_read_Nil:
  assumes "default_mode doc" "blank w"
  shows "nodes_read doc after_text [] w"
  unfolding nodes_read_def
proof (intro allI impI)
  fix depth is_document children fuel r and rest :: string
  assume "rest \<noteq> [] \<longrightarrow> markup rest" "parse_loop fuel doc depth is_document False (children @ norms []) rest = Some r"
  then show "\<exists>fuel'. parse_loop fuel' doc depth is_document False children (w @ rest) = Some r"
    using loop_blank [OF assms(2), of doc rest fuel depth is_document False children False] assms(1)
    by (auto simp: markup_def default_mode_def)
qed

text \<open>The parser reads a rendering.\<close>

lemma rnodes_parse:
  assumes mode: "default_mode doc"
  shows "rnode k s \<Longrightarrow> ToElement k \<longrightarrow> element_reads doc k s"
    and "rnodes after_text ks t \<Longrightarrow> nodes_read doc after_text ks t"
proof (induction rule: rnode_rnodes.inducts)
  case (r_open ks s name as)
  then show ?case using element_reads_open [OF mode] by blast
next
  case (r_closed name as)
  then show ?case using element_reads_closed [OF mode] by blast
next
  case (r_Nil w after_text)
  then show ?case using nodes_read_Nil [OF mode] by blast
next
  case (r_Cons w after_text k s ks s')
  show ?case
  proof (cases "plain k")
    case True
    then obtain t where "k = XMLText t False" by (cases k) (auto simp: plain_def ToText_def)
    moreover from this r_Cons(4) have "s = esc True t" by (auto elim: rnode.cases)
    ultimately show ?thesis using nodes_read_plain [OF mode] r_Cons True by auto
  next
    case False
    then show ?thesis using nodes_read_markup [OF mode r_Cons.hyps(4) False] r_Cons by auto
  qed
qed (auto simp: ToElement_def)

section \<open>The printer writes a rendering\<close>

lemma Write_fields [simp]:
  "elementJustOpened (Write s pr) = elementJustOpened pr" "openStack (Write s pr) = openStack pr"
  "firstElement (Write s pr) = firstElement pr" "curDepth (Write s pr) = curDepth pr"
  "textDepth (Write s pr) = textDepth pr" "escapes (Write s pr) = escapes pr" "compactMode (Write s pr) = compactMode pr"
  by (simp_all add: Write_def)

lemma Putc_is_Write: "Putc ch pr = Write [ch] pr"
  by (simp add: Putc_def Write_def)

lemma PrintSpace_blank: "PrintSpace d pr = Write (concat (replicate (nat d) ''    '')) pr"
proof -
  have "((\<lambda>pr. Write ''    '' pr) ^^ n) pr = Write (concat (replicate n ''    '')) pr" for n
  proof (induction n arbitrary: pr)
    case (Suc n)
    then show ?case by (simp add: funpow_Suc_right del: funpow.simps)
  qed (simp add: Write_def)
  then show ?thesis by (simp add: PrintSpace_def)
qed

lemma blank_spaces [simp]: "blank (concat (replicate n ''    ''))"
  by (induction n) auto

text \<open>A printer that is \<open>tight\<close> writes no white space before the next node; one that is \<open>inside\<close> an element has
  already written its first node.\<close>

definition tight :: "XMLPrinter \<Rightarrow> bool" where
  "tight pr \<longleftrightarrow> compactMode pr \<or> (\<not> firstElement pr \<and> 0 \<le> textDepth pr)"

definition inside :: "XMLPrinter \<Rightarrow> bool" where
  "inside pr \<longleftrightarrow> 1 \<le> curDepth pr \<and> (compactMode pr \<or> \<not> firstElement pr)"

definition printer_ok :: "XMLPrinter \<Rightarrow> bool" where
  "printer_ok pr \<longleftrightarrow> escapes pr \<and> 0 \<le> curDepth pr \<and> \<not> elementJustOpened pr"

text \<open>What a visited node leaves as it was.\<close>

definition pr_keeps :: "XMLPrinter \<Rightarrow> XMLPrinter \<Rightarrow> bool" where
  "pr_keeps pr pr' \<longleftrightarrow> openStack pr' = openStack pr \<and> curDepth pr' = curDepth pr \<and> escapes pr' = escapes pr \<and>
     compactMode pr' = compactMode pr \<and> \<not> elementJustOpened pr' \<and> (firstElement pr' \<longrightarrow> firstElement pr)"

lemma pr_keeps_trans: "pr_keeps a b \<Longrightarrow> pr_keeps b c \<Longrightarrow> pr_keeps a c"
  by (simp add: pr_keeps_def)

lemma pr_keeps_inside: "pr_keeps pr pr' \<Longrightarrow> inside pr \<Longrightarrow> inside pr'"
  by (auto simp: pr_keeps_def inside_def)

lemma pr_keeps_ok: "pr_keeps pr pr' \<Longrightarrow> printer_ok pr \<Longrightarrow> printer_ok pr'"
  by (simp add: pr_keeps_def printer_ok_def)

lemma Prepare_blank:
  assumes "\<not> elementJustOpened pr"
  obtains w where "blank w" "tight pr \<Longrightarrow> w = []"
    "PrepareForNewNode (compactMode pr) pr = (Write w pr)\<lparr>firstElement := compactMode pr \<and> firstElement pr\<rparr>"
proof -
  define w where "w = (if compactMode pr then [] else if firstElement pr then concat (replicate (nat (curDepth pr)) ''    '')
     else if textDepth pr < 0 then CHR 0x0A # concat (replicate (nat (curDepth pr)) ''    '') else [])"
  have "blank w" "tight pr \<Longrightarrow> w = []" by (auto simp: w_def tight_def)
  moreover have "PrepareForNewNode (compactMode pr) pr = (Write w pr)\<lparr>firstElement := compactMode pr \<and> firstElement pr\<rparr>"
    using assms
    by (auto simp: PrepareForNewNode_def SealElementIfJustOpened_def Let_def PrintSpace_blank w_def Write_def Putc_def)
  ultimately show ?thesis using that by blast
qed

lemma Seal_fields [simp]:
  "compactMode (SealElementIfJustOpened pr) = compactMode pr" "escapes (SealElementIfJustOpened pr) = escapes pr"
  "curDepth (SealElementIfJustOpened pr) = curDepth pr" "openStack (SealElementIfJustOpened pr) = openStack pr"
  "firstElement (SealElementIfJustOpened pr) = firstElement pr" "textDepth (SealElementIfJustOpened pr) = textDepth pr"
  "\<not> elementJustOpened (SealElementIfJustOpened pr)"
  "SealElementIfJustOpened (SealElementIfJustOpened pr) = SealElementIfJustOpened pr"
  by (simp_all add: SealElementIfJustOpened_def Putc_def)

lemma Accept_Seal: "Accept k pr = Accept k (SealElementIfJustOpened pr)"
proof -
  have "SealElementIfJustOpened (pr\<lparr>textDepth := d\<rparr>) = SealElementIfJustOpened ((SealElementIfJustOpened pr)\<lparr>textDepth := d\<rparr>)" for d
    by (simp add: SealElementIfJustOpened_def Putc_def)
  then show ?thesis
    by (cases k) (simp_all add: VisitEnter_element_def OpenElement_def PrepareForNewNode_def PushText_def
        PushComment_def PushDeclaration_def PushUnknown_def)
qed

lemma PushAttributes_text:
  assumes "escapes pr" "attrs_ok as"
  shows "fold PushAttribute as pr = Write (attrs_text as) pr"
  using assms
proof (induction as arbitrary: pr)
  case Nil
  then show ?case by (simp add: attrs_text_def Write_def)
next
  case (Cons a as)
  then have "PushAttribute a pr = Write (attr_text a) pr"
    by (simp add: PushAttribute_def PrintString_esc attrs_ok_def str_ok_def attr_text_def)
  then show ?case using Cons by (simp add: attrs_text_def attrs_ok_def)
qed

lemma rnodes_blank_end:
  assumes "rnodes after_text ks s" "blank w" "ends_text after_text ks \<Longrightarrow> w = []"
  shows "rnodes after_text ks (s @ w)"
  using assms
proof (induction ks arbitrary: after_text s)
  case Nil
  then show ?case by (auto elim!: rnodes_NilE intro: r_Nil simp: ends_text_def)
next
  case (Cons k ks)
  from Cons.prems(1) obtain w1 s1 s2 where *: "s = w1 @ s1 @ s2" "blank w1" "after_text \<or> plain k \<Longrightarrow> w1 = []"
    "\<not> (after_text \<and> plain k)" "rnode k s1" "rnodes (plain k) ks s2"
    by (auto elim!: rnodes_ConsE)
  have "rnodes (plain k) ks (s2 @ w)" using Cons.IH [OF *(6)] Cons.prems(2,3) by simp
  from r_Cons [OF *(2,3,4,5) this] *(1) show ?case by simp
qed

lemma rnodes_blank_start:
  assumes "rnodes False ks s" "blank w" "ks \<noteq> [] \<Longrightarrow> plain (hd ks) \<Longrightarrow> w = []"
  shows "rnodes False ks (w @ s)"
proof (cases ks)
  case Nil
  then show ?thesis using assms by (auto elim!: rnodes_NilE intro: r_Nil)
next
  case (Cons k ks')
  from assms(1) obtain w1 s1 s2 where *: "s = w1 @ s1 @ s2" "blank w1" "plain k \<Longrightarrow> w1 = []" "rnode k s1" "rnodes (plain k) ks' s2"
    unfolding Cons by (auto elim!: rnodes_ConsE)
  have "rnodes False (k # ks') ((w @ w1) @ s1 @ s2)"
    by (rule r_Cons [OF _ _ _ *(4,5)]) (use * assms(2,3) Cons in auto)
  then show ?thesis using Cons *(1) by simp
qed

text \<open>No two texts are neighbours: the parser would read them as one.\<close>

fun separated :: "XMLNode \<Rightarrow> bool" and separateds :: "bool \<Rightarrow> XMLNode list \<Rightarrow> bool" where
  "separated (XMLElement name as ks) = separateds False ks"
| "separated n = True"
| "separateds after_text [] = True"
| "separateds after_text (k # ks) = (\<not> (after_text \<and> plain k) \<and> separated k \<and> separateds (plain k) ks)"

definition node_post :: "XMLNode \<Rightarrow> XMLPrinter \<Rightarrow> XMLPrinter \<Rightarrow> bool" where
  "node_post k pr pr' \<longleftrightarrow> (\<exists>w s w'. printBuffer pr' = printBuffer pr @ w @ s @ w' \<and> blank w \<and> (tight pr \<longrightarrow> w = []) \<and>
     rnode k s \<and> blank w' \<and> (1 \<le> curDepth pr \<longrightarrow> w' = []) \<and> pr_keeps pr pr')"

definition nodes_post :: "bool \<Rightarrow> XMLNode list \<Rightarrow> XMLPrinter \<Rightarrow> XMLPrinter \<Rightarrow> bool" where
  "nodes_post after_text ks pr pr' \<longleftrightarrow> (\<exists>s. printBuffer pr' = printBuffer pr @ s \<and> rnodes after_text ks s \<and>
     (ends_text after_text ks \<longrightarrow> tight pr') \<and> pr_keeps pr pr')"

lemma node_postI:
  assumes "Accept k pr = Inr pr'" "printBuffer pr' = printBuffer pr @ w @ s @ w'" "blank w" "tight pr \<Longrightarrow> w = []" "rnode k s"
    "blank w'" "1 \<le> curDepth pr \<Longrightarrow> w' = []" "pr_keeps pr pr'"
  shows "okR (Accept k pr) (node_post k pr)"
  unfolding assms(1) okR_Inr node_post_def
  by (rule exI [of _ w], rule exI [of _ s], rule exI [of _ w']) (use assms in simp)

definition node_renders :: "XMLNode \<Rightarrow> bool" where
  "node_renders k \<longleftrightarrow> (\<forall>depth pr. readable depth k \<longrightarrow> separated k \<longrightarrow> \<not> plain k \<longrightarrow> printer_ok pr \<longrightarrow>
     okR (Accept k pr) (node_post k pr))"

definition nodes_render :: "bool \<Rightarrow> XMLNode list \<Rightarrow> bool" where
  "nodes_render after_text ks \<longleftrightarrow> (\<forall>depth pr. list_all (readable depth) ks \<longrightarrow> separateds after_text ks \<longrightarrow>
     printer_ok pr \<longrightarrow> (after_text \<longrightarrow> tight pr) \<longrightarrow> inside pr \<or> (\<not> after_text \<and> list_all (\<lambda>k. \<not> plain k) ks) \<longrightarrow>
     okR (Accept_kids ks pr) (nodes_post after_text ks pr))"

lemma leaf_renders:
  assumes "\<not> ToElement k" "\<not> plain k" "printer_ok pr"
  shows "okR (Accept k pr) (node_post k pr)"
proof -
  have jo: "\<not> elementJustOpened pr" using assms(3) by (simp add: printer_ok_def)
  obtain w where w: "blank w" "tight pr \<Longrightarrow> w = []"
    "PrepareForNewNode (compactMode pr) pr = (Write w pr)\<lparr>firstElement := compactMode pr \<and> firstElement pr\<rparr>"
    using Prepare_blank [OF jo] by blast
  show ?thesis
  proof (cases k)
    case (XMLText s b)
    then have "b" using assms(2) by (simp add: plain_def ToText_def)
    then have k: "k = XMLText s True" using XMLText by simp
    show ?thesis
      by (rule node_postI [of _ _ _ "[]" _ "[]"]) (use jo k r_cdata in \<open>auto simp: PushText_def SealElementIfJustOpened_def pr_keeps_def\<close>)
  next
    case (XMLComment s)
    show ?thesis by (rule node_postI [of _ _ _ w _ "[]"]) (use w(1,2) jo XMLComment r_comment w(3) in \<open>auto simp: PushComment_def pr_keeps_def\<close>)
  next
    case (XMLDeclaration s)
    show ?thesis by (rule node_postI [of _ _ _ w _ "[]"]) (use w(1,2) jo XMLDeclaration r_declaration w(3) in \<open>auto simp: PushDeclaration_def pr_keeps_def\<close>)
  next
    case (XMLUnknown s)
    show ?thesis by (rule node_postI [of _ _ _ w _ "[]"]) (use w(1,2) jo XMLUnknown r_unknown [of s] w(3) in \<open>auto simp: PushUnknown_def pr_keeps_def\<close>)
  qed (use assms(1) in \<open>simp add: ToElement_def\<close>)
qed

lemma OpenElement_fields:
  assumes "\<not> elementJustOpened pr"
  obtains w where "blank w" "tight pr \<Longrightarrow> w = []"
    "OpenElement name (compactMode pr) pr = (Write (w @ CHR ''<'' # name) pr)\<lparr>firstElement := compactMode pr \<and> firstElement pr,
       openStack := name # openStack pr, elementJustOpened := True, curDepth := curDepth pr + 1\<rparr>"
proof -
  obtain w where w: "blank w" "tight pr \<Longrightarrow> w = []"
    "PrepareForNewNode (compactMode pr) pr = (Write w pr)\<lparr>firstElement := compactMode pr \<and> firstElement pr\<rparr>"
    using Prepare_blank [OF assms] by blast
  show ?thesis
    by (rule that [OF w(1,2)]) (use w(3) in \<open>auto simp: OpenElement_def Let_def Write_def\<close>)
qed

text \<open>The closing of an element whose content has been written.\<close>

lemma CloseElement_after:
  assumes "openStack pr = name # st" "\<not> elementJustOpened pr"
  shows "\<exists>w w' pr'. CloseElement (compactMode pr) pr = Inr pr' \<and> printBuffer pr' = printBuffer pr @ w @ (''</'' @ name @ ''>'') @ w' \<and>
     blank w \<and> (compactMode pr \<or> 0 \<le> textDepth pr \<longrightarrow> w = []) \<and> blank w' \<and> (2 \<le> curDepth pr \<longrightarrow> w' = []) \<and>
     openStack pr' = st \<and> curDepth pr' = curDepth pr - 1 \<and> escapes pr' = escapes pr \<and> compactMode pr' = compactMode pr \<and>
     \<not> elementJustOpened pr' \<and> firstElement pr' = firstElement pr"
  by (rule exI [of _ "if textDepth pr < 0 \<and> \<not> compactMode pr then CHR 0x0A # concat (replicate (nat (curDepth pr - 1)) ''    '') else []"],
      rule exI [of _ "if curDepth pr = 1 \<and> \<not> compactMode pr then [CHR 0x0A] else []"])
    (use assms in \<open>auto simp: CloseElement_def Let_def PrintSpace_blank Putc_is_Write\<close>)

lemma CloseElement_empty:
  assumes "openStack pr = name # st" "elementJustOpened pr"
  shows "\<exists>w' pr'. CloseElement (compactMode pr) pr = Inr pr' \<and> printBuffer pr' = printBuffer pr @ ''/>'' @ w' \<and>
     blank w' \<and> (2 \<le> curDepth pr \<longrightarrow> w' = []) \<and>
     openStack pr' = st \<and> curDepth pr' = curDepth pr - 1 \<and> escapes pr' = escapes pr \<and> compactMode pr' = compactMode pr \<and>
     \<not> elementJustOpened pr' \<and> firstElement pr' = firstElement pr"
  by (rule exI [of _ "if curDepth pr = 1 \<and> \<not> compactMode pr then [CHR 0x0A] else []"])
    (use assms in \<open>auto simp: CloseElement_def Let_def Putc_is_Write\<close>)

lemma VisitEnter_fields:
  assumes "printer_ok pr" "attrs_ok as"
  obtains w where "blank w" "tight pr \<Longrightarrow> w = []"
    "VisitEnter_element name as pr = (Write (w @ CHR ''<'' # name @ attrs_text as) pr)\<lparr>firstElement := compactMode pr \<and> firstElement pr,
       openStack := name # openStack pr, elementJustOpened := True, curDepth := curDepth pr + 1\<rparr>"
proof -
  have "\<not> elementJustOpened pr" "escapes pr" using assms(1) by (auto simp: printer_ok_def)
  then obtain w where w: "blank w" "tight pr \<Longrightarrow> w = []"
    "OpenElement name (compactMode pr) pr = (Write (w @ CHR ''<'' # name) pr)\<lparr>firstElement := compactMode pr \<and> firstElement pr,
       openStack := name # openStack pr, elementJustOpened := True, curDepth := curDepth pr + 1\<rparr>"
    using OpenElement_fields by blast
  show ?thesis
    by (rule that [OF w(1,2)])
      (use w(3) assms(2) \<open>escapes pr\<close> in \<open>auto simp: VisitEnter_element_def PushAttributes_text Write_def\<close>)
qed

lemma element_renders_closed:
  assumes ok: "printer_ok pr" and "attrs_ok as"
  shows "okR (Accept (XMLElement name as []) pr) (node_post (XMLElement name as []) pr)"
proof -
  obtain w where w: "blank w" "tight pr \<Longrightarrow> w = []"
    and enter: "VisitEnter_element name as pr = (Write (w @ CHR ''<'' # name @ attrs_text as) pr)\<lparr>firstElement := compactMode pr \<and> firstElement pr,
       openStack := name # openStack pr, elementJustOpened := True, curDepth := curDepth pr + 1\<rparr>"
    using VisitEnter_fields [OF assms] by blast
  let ?pr = "VisitEnter_element name as pr"
  have st: "openStack ?pr = name # openStack pr" "elementJustOpened ?pr" by (simp_all add: enter)
  obtain w' pr' where pr': "CloseElement (compactMode ?pr) ?pr = Inr pr'" "printBuffer pr' = printBuffer ?pr @ ''/>'' @ w'" "blank w'"
    "2 \<le> curDepth ?pr \<longrightarrow> w' = []" "openStack pr' = openStack pr" "curDepth pr' = curDepth ?pr - 1" "escapes pr' = escapes ?pr"
    "compactMode pr' = compactMode ?pr" "\<not> elementJustOpened pr'" "firstElement pr' = firstElement ?pr"
    using CloseElement_empty [OF st] by blast
  show ?thesis
    by (rule node_postI [OF _ _ w r_closed pr'(3)])
      (use pr' enter in \<open>auto simp: VisitExit_element_def pr_keeps_def\<close>)
qed

lemma element_renders_open:
  assumes IH: "nodes_render False ks" and rd: "readable depth (XMLElement name as ks)"
    and sep: "separated (XMLElement name as ks)" and ok: "printer_ok pr" and ks: "ks \<noteq> []"
  shows "okR (Accept (XMLElement name as ks) pr) (node_post (XMLElement name as ks) pr)"
proof -
  have "attrs_ok as" using rd by simp
  then obtain w where w: "blank w" "tight pr \<Longrightarrow> w = []"
    and enter: "VisitEnter_element name as pr = (Write (w @ CHR ''<'' # name @ attrs_text as) pr)\<lparr>firstElement := compactMode pr \<and> firstElement pr,
       openStack := name # openStack pr, elementJustOpened := True, curDepth := curDepth pr + 1\<rparr>"
    using VisitEnter_fields [OF ok] by blast
  define pr2 where "pr2 = SealElementIfJustOpened (VisitEnter_element name as pr)"
  have kids: "Accept_kids ks (VisitEnter_element name as pr) = Accept_kids ks pr2"
    using ks Accept_Seal by (cases ks) (simp_all add: pr2_def)
  have p2: "printer_ok pr2" "inside pr2" "printBuffer pr2 = printBuffer pr @ w @ CHR ''<'' # name @ attrs_text as @ ''>''"
    using ok enter by (auto simp: pr2_def printer_ok_def inside_def SealElementIfJustOpened_def Putc_is_Write)
  have "okR (Accept_kids ks pr2) (nodes_post False ks pr2)"
    using IH p2 rd sep unfolding nodes_render_def by (auto simp: list_all_iff)
  then obtain pr3 s where p3: "Accept_kids ks pr2 = Inr pr3" "printBuffer pr3 = printBuffer pr2 @ s" "rnodes False ks s"
    "ends_text False ks \<longrightarrow> tight pr3" "pr_keeps pr2 pr3" by (auto simp: okR_iff nodes_post_def)
  have st3: "openStack pr3 = name # openStack pr" "\<not> elementJustOpened pr3" using p3(5) enter by (auto simp: pr_keeps_def pr2_def)
  obtain wc w' pr' where pr': "CloseElement (compactMode pr3) pr3 = Inr pr'"
    "printBuffer pr' = printBuffer pr3 @ wc @ (''</'' @ name @ ''>'') @ w'" "blank wc" "compactMode pr3 \<or> 0 \<le> textDepth pr3 \<longrightarrow> wc = []"
    "blank w'" "2 \<le> curDepth pr3 \<longrightarrow> w' = []" "openStack pr' = openStack pr" "curDepth pr' = curDepth pr3 - 1" "escapes pr' = escapes pr3"
    "compactMode pr' = compactMode pr3" "\<not> elementJustOpened pr'" "firstElement pr' = firstElement pr3"
    using CloseElement_after [OF st3] by blast
  have "rnodes False ks (s @ wc)"
    by (rule rnodes_blank_end [OF p3(3) pr'(3)]) (use p3(4) pr'(4) in \<open>auto simp: tight_def\<close>)
  from r_open [OF this] show ?thesis
    by (intro node_postI [OF _ _ w _ pr'(5)])
      (use kids p3(1) pr' p3(2,5) p2(3) enter in \<open>auto simp: VisitExit_element_def pr_keeps_def pr2_def\<close>)
qed

lemma element_renders:
  assumes "nodes_render False ks" shows "node_renders (XMLElement name as ks)"
  using element_renders_closed element_renders_open [OF assms] unfolding node_renders_def
  by (cases "ks = []") auto

lemma nodes_render_plain:
  assumes ks: "nodes_render True ks" and rd: "list_all (readable depth) (XMLText t False # ks)"
    and sep: "separateds after_text (XMLText t False # ks)" and ok: "printer_ok pr" "inside pr"
  shows "okR (Accept_kids (XMLText t False # ks) pr) (nodes_post after_text (XMLText t False # ks) pr)"
proof -
  define pr1 where "pr1 = PushText t False pr"
  have pl: "plain (XMLText t False)" by (simp add: plain_def ToText_def)
  have p1: "printBuffer pr1 = printBuffer pr @ esc True t" "pr_keeps pr pr1" "tight pr1"
    using ok rd by (auto simp: pr1_def PushText_def SealElementIfJustOpened_def PrintString_esc printer_ok_def str_ok_def
        pr_keeps_def tight_def inside_def)
  have "okR (Accept_kids ks pr1) (nodes_post True ks pr1)"
    using ks rd sep pl pr_keeps_inside [OF p1(2) ok(2)] pr_keeps_ok [OF p1(2) ok(1)] p1(3) unfolding nodes_render_def by auto
  then have "okR (Accept_kids ks pr1) (nodes_post after_text (XMLText t False # ks) pr)"
  proof (rule okR_mono)
    fix pr'
    assume "nodes_post True ks pr1 pr'"
    then obtain s where s: "printBuffer pr' = printBuffer pr1 @ s" "rnodes True ks s" "ends_text True ks \<longrightarrow> tight pr'" "pr_keeps pr1 pr'"
      unfolding nodes_post_def by blast
    have "rnodes after_text (XMLText t False # ks) ([] @ esc True t @ s)"
      by (rule r_Cons [OF _ _ _ r_text]) (use s(2) sep pl in auto)
    then show "nodes_post after_text (XMLText t False # ks) pr pr'"
      unfolding nodes_post_def using s p1 pr_keeps_trans pl by (intro exI [of _ "esc True t @ s"]) auto
  qed
  then show ?thesis by (simp add: pr1_def)
qed

lemma nodes_render_markup:
  assumes k: "node_renders k" "\<not> plain k" and ks: "nodes_render False ks" and rd: "list_all (readable depth) (k # ks)"
    and sep: "separateds after_text (k # ks)" and ok: "printer_ok pr" and after: "after_text \<longrightarrow> tight pr"
    and pos: "inside pr \<or> (\<not> after_text \<and> list_all (\<lambda>k. \<not> plain k) (k # ks))"
  shows "okR (Accept_kids (k # ks) pr) (nodes_post after_text (k # ks) pr)"
proof -
  have "okR (Accept k pr) (node_post k pr)" using k rd sep ok unfolding node_renders_def by auto
  then show ?thesis unfolding Accept_kids.simps okR_bindR
  proof (rule okR_mono)
    fix pr1
    assume "node_post k pr pr1"
    then obtain w s w' where n: "printBuffer pr1 = printBuffer pr @ w @ s @ w'" "blank w" "tight pr \<longrightarrow> w = []" "rnode k s" "blank w'"
      "1 \<le> curDepth pr \<longrightarrow> w' = []" "pr_keeps pr pr1" unfolding node_post_def by blast
    have "okR (Accept_kids ks pr1) (nodes_post False ks pr1)"
      using ks k(2) rd sep pos pr_keeps_inside [OF n(7)] pr_keeps_ok [OF n(7) ok] unfolding nodes_render_def by auto
    then show "okR (Accept_kids ks pr1) (nodes_post after_text (k # ks) pr)"
    proof (rule okR_mono)
      fix pr'
      assume "nodes_post False ks pr1 pr'"
      then obtain s' where s': "printBuffer pr' = printBuffer pr1 @ s'" "rnodes False ks s'" "ends_text False ks \<longrightarrow> tight pr'" "pr_keeps pr1 pr'"
        unfolding nodes_post_def by blast
      have "rnodes False ks (w' @ s')"
        by (rule rnodes_blank_start [OF s'(2) n(5)]) (use pos n(6) in \<open>auto simp: inside_def list_all_iff\<close>)
      then have "rnodes after_text (k # ks) (w @ s @ w' @ s')"
        using r_Cons [OF n(2) _ _ n(4), of after_text ks "w' @ s'"] k(2) n(3) after by auto
      then show "nodes_post after_text (k # ks) pr pr'"
        unfolding nodes_post_def using s' n(1,7) pr_keeps_trans k(2) by (intro exI [of _ "w @ s @ w' @ s'"]) auto
    qed
  qed
qed

lemma nodes_render_Cons:
  assumes k: "node_renders k" and ks: "nodes_render (plain k) ks"
  shows "nodes_render after_text (k # ks)"
  unfolding nodes_render_def
proof (intro allI impI)
  fix depth pr
  assume *: "list_all (readable depth) (k # ks)" "separateds after_text (k # ks)" "printer_ok pr"
    "after_text \<longrightarrow> tight pr" "inside pr \<or> (\<not> after_text \<and> list_all (\<lambda>k. \<not> plain k) (k # ks))"
  show "okR (Accept_kids (k # ks) pr) (nodes_post after_text (k # ks) pr)"
  proof (cases "plain k")
    case True
    moreover from this obtain t where "k = XMLText t False" by (cases k) (auto simp: plain_def ToText_def)
    ultimately show ?thesis using nodes_render_plain [of ks depth t after_text pr] ks * by auto
  next
    case False
    then show ?thesis using nodes_render_markup [OF k False _ *] ks by auto
  qed
qed

lemma Accept_renders: "node_renders k" "nodes_render after_text ks"
proof (induction k and after_text ks rule: separated_separateds.induct)
  case (1 name as ks)
  then show ?case by (rule element_renders)
next
  case (3 after_text)
  then show ?case by (auto simp: nodes_render_def nodes_post_def ends_text_def pr_keeps_def printer_ok_def intro: r_Nil)
next
  case (4 after_text k ks)
  then show ?case using nodes_render_Cons by blast
qed (auto simp: node_renders_def intro!: leaf_renders simp: ToElement_def simp del: Accept.simps)

section \<open>Documents\<close>

definition doc_ok :: "XMLDocument \<Rightarrow> bool" where
  "doc_ok doc \<longleftrightarrow> default_mode doc \<and> docKids doc \<noteq> [] \<and> list_all (readable 1) (docKids doc) \<and>
     list_all (\<lambda>k. \<not> plain k) (docKids doc) \<and> separateds False (docKids doc) \<and> decls_ok True (docKids doc)"

lemma name_no_NUL: "valid_name s \<Longrightarrow> CHR 0x00 \<notin> set s"
  by (cases s) (auto simp: valid_name_def list_all_iff IsNameChar_def IsNameStartChar_def isalpha_def is_digit_def)

lemma esc_no_NUL:
  assumes "CHR 0x00 \<notin> set s" shows "CHR 0x00 \<notin> set (esc r s)"
  using assms
proof (induction s)
  case (Cons ch s)
  have "CHR 0x00 \<notin> set (esc_char r ch)"
  proof (cases "entity_flag r ch")
    case True
    then obtain pattern where "(pattern, ch) \<in> set entities" "esc_char r ch = CHR ''&'' # pattern @ '';''"
      by (rule entity_cases)
    moreover from this(1) have "CHR 0x00 \<notin> set pattern" by (rule entities_cases) auto
    ultimately show ?thesis by simp
  next
    case False
    then show ?thesis using Cons.prems by (simp add: esc_char_def)
  qed
  then show ?case using Cons by simp
qed simp

lemma attrs_no_NUL: "attrs_ok as \<Longrightarrow> CHR 0x00 \<notin> set (attrs_text as)"
  by (induction as) (auto simp: attrs_ok_def attrs_text_def attr_text_def name_no_NUL esc_no_NUL str_ok_def)

lemma blank_no_NUL: "blank w \<Longrightarrow> CHR 0x00 \<notin> set w"
  by (auto simp: list_all_iff IsWhiteSpace_def isspace_def)

lemma rnode_no_NUL:
  "rnode k s \<Longrightarrow> readable depth k \<Longrightarrow> CHR 0x00 \<notin> set s"
  "rnodes after_text ks t \<Longrightarrow> list_all (readable depth) ks \<Longrightarrow> CHR 0x00 \<notin> set t"
proof (induction arbitrary: depth and depth rule: rnode_rnodes.inducts)
  case (r_open ks s name as)
  then have "list_all (readable (Suc depth)) ks" by (auto simp: list_all_iff)
  then show ?case using r_open by (auto simp: name_no_NUL attrs_no_NUL)
qed (auto simp: str_ok_def esc_no_NUL name_no_NUL attrs_no_NUL blank_no_NUL)

lemma rnodes_strip:
  assumes "rnodes False ks s" "ks \<noteq> []" "list_all (\<lambda>k. \<not> plain k) ks"
  shows "rnodes False ks (SkipWhiteSpace s) \<and> markup (SkipWhiteSpace s)"
proof -
  obtain k ks' where ks: "ks = k # ks'" using assms(2) by (cases ks) auto
  then obtain w s1 s2 where *: "s = w @ s1 @ s2" "blank w" "rnode k s1" "rnodes (plain k) ks' s2"
    using assms(1) by (auto elim!: rnodes_ConsE)
  have "\<not> plain k" using assms(3) ks by simp
  then have mk: "markup (s1 @ s2)" using rnode_markup *(3) by blast
  then have "SkipWhiteSpace s = s1 @ s2"
    using SkipWhiteSpace_blank [OF *(2), of "s1 @ s2"] *(1) by (auto simp: markup_def)
  moreover have "rnodes False (k # ks') ([] @ s1 @ s2)"
    by (rule r_Cons [OF _ _ _ *(3,4)]) (use \<open>\<not> plain k\<close> in auto)
  ultimately show ?thesis using ks mk by simp
qed

lemma rnodes_document:
  assumes "rnodes False ks s" "s \<noteq> []" "default_mode doc" "list_all (readable 1) ks"
    "list_all (\<lambda>k. \<not> plain k) ks" "decls_ok True ks"
  shows "parse_loop (Suc (length s)) doc 1 True True [] s = Some (norms ks, None, None)"
proof -
  have run: "parse_loop (Suc 0) doc 1 True False ([] @ norms ks) [] = Some (norms ks, None, None)"
    using loop_stops [of "[]"] by simp
  have "\<not> ends_text False ks" using assms(5) by (simp add: ends_text_def list_all_iff)
  then have "\<exists>fuel. parse_loop fuel doc 1 True False [] (s @ []) = Some (norms ks, None, None)"
    by (intro nodes_readD [OF rnodes_parse(2) [OF assms(3,1)] assms(4,6) _ _ _ run]) auto
  then show ?thesis using loop_first [OF assms(3)] loop_unique_result by (metis append_Nil2)
qed

definition BOM :: string where "BOM = [CHR 0xEF, CHR 0xBB, CHR 0xBF]"

lemma parse_rendering:
  assumes "rnodes False ks s" "ks \<noteq> []" "default_mode doc" "list_all (readable 1) ks"
    "list_all (\<lambda>k. \<not> plain k) ks" "decls_ok True ks"
  shows "parse_buffer doc ((if bom then BOM else []) @ s) = Inr (doc\<lparr>writeBOM := bom, docKids := norms ks\<rparr>)"
proof -
  have s: "rnodes False ks (SkipWhiteSpace s)" "markup (SkipWhiteSpace s)" using rnodes_strip [OF assms(1,2,5)] by auto
  have nul: "CHR 0x00 \<notin> set s" using rnode_no_NUL(2) [OF assms(1,4)] .
  have mode: "default_mode (doc\<lparr>writeBOM := b\<rparr>)" for b using assms(3) by (simp add: default_mode_def)
  show ?thesis
  proof (cases bom)
    case True
    have "s \<noteq> []" using s(2) by (auto simp: markup_def)
    moreover have "ReadBOM (SkipWhiteSpace (c_str (BOM @ s))) = (s, True)"
      using c_str_id [of "BOM @ s"] nul by (simp add: BOM_def ReadBOM_def IsWhiteSpace_def IsUTF8Continuation_def)
    ultimately show ?thesis
      using True rnodes_document [OF assms(1) _ mode assms(4-6)] by (simp add: parse_buffer_def)
  next
    case False
    have "ReadBOM (SkipWhiteSpace (c_str s)) = (SkipWhiteSpace s, False)"
      using s(2) c_str_id [OF nul] by (auto simp: ReadBOM_def markup_def)
    moreover have "SkipWhiteSpace s \<noteq> []" using s(2) by (auto simp: markup_def)
    ultimately show ?thesis
      using False rnodes_document [OF s(1) _ mode assms(4-6)] by (simp add: parse_buffer_def)
  qed
qed

text \<open>Printing renders the children of the document, after its byte order mark.\<close>

lemma Print_renders:
  assumes "doc_ok doc" "0 \<le> depth"
  shows "okR (Print doc (newXMLPrinter compact depth))
    (\<lambda>pr. \<exists>s. printBuffer pr = (if writeBOM doc then BOM else []) @ s \<and> rnodes False (docKids doc) s)"
proof -
  define pr where "pr = VisitEnter_document doc (newXMLPrinter compact depth)"
  have pr: "printer_ok pr" "printBuffer pr = (if writeBOM doc then BOM else [])"
    using assms by (auto simp: pr_def VisitEnter_document_def newXMLPrinter_def PushHeader_def printer_ok_def
        doc_ok_def default_mode_def BOM_def Let_def)
  have "okR (Accept_kids (docKids doc) pr) (nodes_post False (docKids doc) pr)"
    using Accept_renders(2) [of False "docKids doc"] assms(1) pr(1) unfolding nodes_render_def doc_ok_def by blast
  then show ?thesis unfolding Print_def pr_def [symmetric]
    by (rule okR_mono) (auto simp: nodes_post_def pr(2))
qed

lemma print_parse_inverse:
  assumes "doc_ok doc" and "0 \<le> depth" and "default_mode target"
  shows "\<exists>pr. Print doc (newXMLPrinter compact depth) = Inr pr \<and>
     Parse target (Some (CStr pr)) (-1) =
       Inr (target\<lparr>writeBOM := writeBOM doc, errorID := XML_SUCCESS, docKids := norms (docKids doc)\<rparr>)"
proof -
  obtain pr s where pr: "Print doc (newXMLPrinter compact depth) = Inr pr"
    "printBuffer pr = (if writeBOM doc then BOM else []) @ s" "rnodes False (docKids doc) s"
    using Print_renders [OF assms(1,2), of compact] by (auto simp: okR_iff)
  have d: "docKids doc \<noteq> []" "list_all (readable 1) (docKids doc)" "list_all (\<lambda>k. \<not> plain k) (docKids doc)"
    "decls_ok True (docKids doc)" using assms(1) by (simp_all add: doc_ok_def)
  have nul: "CHR 0x00 \<notin> set (printBuffer pr)"
    using pr(2) rnode_no_NUL(2) [OF pr(3) d(2)] by (auto simp: BOM_def)
  have "SkipWhiteSpace s \<noteq> []" using rnodes_strip [OF pr(3) d(1,3)] by (auto simp: markup_def)
  then have "printBuffer pr \<noteq> []" using pr(2) by (cases s) auto
  have "default_mode (XMLDocument_Clear target)" using assms(3) by (simp add: default_mode_def XMLDocument_Clear_def)
  then have "parse_buffer (XMLDocument_Clear target) (printBuffer pr) =
      Inr ((XMLDocument_Clear target)\<lparr>writeBOM := writeBOM doc, docKids := norms (docKids doc)\<rparr>)"
    unfolding pr(2) by (rule parse_rendering [OF pr(3) d(1) _ d(2-4)])
  then have "Parse target (Some (CStr pr)) (-1) =
      Inr ((XMLDocument_Clear target)\<lparr>writeBOM := writeBOM doc, docKids := norms (docKids doc)\<rparr>)"
    using \<open>printBuffer pr \<noteq> []\<close> c_str_id [OF nul] by (simp add: Parse_def CStr_def Let_def) (simp add: XMLDocument_Clear_def)
  then show ?thesis using pr(1) by (simp add: XMLDocument_Clear_def)
qed

text \<open>
  (C12) A document that is printed and parsed again is the same document, without the texts that consist of white
  space: for every printer mode and initial indentation, the printer ends without a fault and \<open>Parse\<close> of its
  output reports success and yields the children and the byte order mark of the document.
\<close>

theorem parse_print:
  assumes "doc_ok doc" and "0 \<le> depth" and "default_mode target"
  shows "\<exists>pr. Print doc (newXMLPrinter compact depth) = Inr pr \<and>
     Parse target (Some (CStr pr)) (-1) =
       Inr (target\<lparr>writeBOM := writeBOM doc, errorID := XML_SUCCESS, docKids := norms (docKids doc)\<rparr>)"
  using assms by (rule print_parse_inverse)

text \<open>A small document with an attribute, a text to be escaped and a comment.\<close>

definition ex_document :: XMLDocument where
  "ex_document = (newXMLDocument True PRESERVE_WHITESPACE)\<lparr>docKids :=
     [XMLElement ''a'' [(''n'', ''1'')] [XMLText ''x<y'' False, XMLComment ''c'', XMLElement ''b'' [] []]]\<rparr>"

lemma ex_document_ok: "doc_ok ex_document"
  by (simp add: doc_ok_def ex_document_def newXMLDocument_def default_mode_def valid_name_def attrs_ok_def str_ok_def plain_def
      ToText_def ToDeclaration_def INT_MAX_def IsNameStartChar_def isalpha_def TINYXML2_MAX_ELEMENT_DEPTH_def StringEqualN_def)

theorem parse_print_witness:
  "\<exists>pr. Print ex_document (newXMLPrinter False 0) = Inr pr \<and>
     Parse (newXMLDocument True PRESERVE_WHITESPACE) (Some (CStr pr)) (-1) =
       Inr ((newXMLDocument True PRESERVE_WHITESPACE)\<lparr>writeBOM := writeBOM ex_document, errorID := XML_SUCCESS,
         docKids := norms (docKids ex_document)\<rparr>)"
  by (rule parse_print [OF ex_document_ok]) (simp_all add: default_mode_def newXMLDocument_def)

end
