(* ===== verification/Zstore_Listing.thy ===== *)
theory Zstore_Listing
  imports Zstore_Requests Zstore_XmlRound
begin

text \<open>
  The list request (\<^verbatim>\<open>src/src/http_server.cc\<close>) with the XML library: the document that
  \<open>create_s3_list_objects_response\<close> builds, that it can be read back, and what a client that parses the
  printed listing gets.
\<close>

section \<open>The document\<close>

lemma insert_all_element: "insert_all ks (XMLElement name as kk) = XMLElement name as (kk @ ks)"
proof (induction ks arbitrary: kk)
  case Nil
  then show ?case by (simp add: insert_all_def)
next
  case (Cons k ks)
  from Cons [of "kk @ [k]"] show ?case by (simp add: insert_all_def on_kids_def InsertEndChild_def)
qed

definition plain_elem :: "string \<Rightarrow> string \<Rightarrow> XMLNode" where
  "plain_elem tag s = XMLElement tag [] [XMLText s False]"

lemma text_elem_plain:
  "CHR 0x00 \<notin> set tag \<Longrightarrow> CHR 0x00 \<notin> set s \<Longrightarrow> text_elem tag s = plain_elem tag s"
  by (simp add: text_elem_def plain_elem_def SetText_def NewElement_def on_kids_def InsertFirstChild_def NewText_def c_str_id)

text \<open>The characters of numbers and hash strings.\<close>

lemma list_all_no_char: "list_all P s \<Longrightarrow> \<not> P ch \<Longrightarrow> ch \<notin> set s"
  by (auto simp: list_all_iff)

lemma dec_string_ok: "n < 2 ^ 31 \<Longrightarrow> str_ok (dec_string n)"
  using dec_string_props [of n] dec_string_length [of n] list_all_no_char [of is_digit "dec_string n"]
  by (auto simp: str_ok_def INT_MAX_def is_digit_def)

definition is_hex :: "char \<Rightarrow> bool" where
  "is_hex ch \<longleftrightarrow> ch \<in> set ''0123456789abcdef''"

lemma hashToCString_hex: "list_all is_hex (hashToCString h)"
proof (induction h)
  case Nil
  then show ?case by (simp add: hashToCString_def)
next
  case (Cons b h)
  have d: "is_hex (hex_digit d)" if "d < 16" for d
    unfolding hex_digit_def is_hex_def by (rule nth_mem) (use that in simp)
  have "unat b div 16 < 16" using byte_bound [of b] by simp
  then show ?case using Cons hex02_byte [OF byte_bound [of b]] d by simp
qed

lemma hash_string_ok:
  assumes "hash_wf h" shows "str_ok (hashToCString h)" "\<not> blank (hashToCString h)"
proof -
  have "\<not> is_hex (CHR 0x00)" "\<not> is_hex (CHR 0x0D)" by (simp_all add: is_hex_def)
  then show "str_ok (hashToCString h)"
    using list_all_no_char [OF hashToCString_hex [of h]] length_hashToCString [of h] assms
    by (simp add: str_ok_def INT_MAX_def hash_wf_def)
  have "\<not> IsWhiteSpace ch" if "is_hex ch" for ch
    using that by (auto simp: is_hex_def IsWhiteSpace_def isspace_def)
  moreover have "hashToCString h \<noteq> []" using length_hashToCString [of h] assms by (auto simp: hash_wf_def)
  ultimately show "\<not> blank (hashToCString h)"
    using hashToCString_hex [of h] by (cases "hashToCString h") auto
qed

text \<open>The document, and that it can be read back.\<close>

definition contents_tree :: "ObjectKeyHash \<Rightarrow> XMLNode" where
  "contents_tree hash = XMLElement ''Contents'' []
     [plain_elem ''Key'' (hashToCString hash),
      plain_elem ''LastModified'' ''2024-01-10T15:30:00.000Z'',
      plain_elem ''ETag'' (CHR 0x22 # ''9b2cf535f27731c974343645a3985328'' @ [CHR 0x22]),
      plain_elem ''Size'' (dec_string 123456),
      plain_elem ''StorageClass'' ''STANDARD'']"

definition listing_tree :: "string \<Rightarrow> nat \<Rightarrow> ObjectKeyHash list \<Rightarrow> XMLNode" where
  "listing_tree bucket n hashes =
     XMLElement ''ListBucketResult'' [(''xmlns'', ''http://s3.amazonaws.com/doc/2006-03-01/'')]
       ([plain_elem ''Name'' bucket, plain_elem ''Prefix'' [], plain_elem ''Marker'' [],
         plain_elem ''MaxKeys'' (dec_string n), plain_elem ''IsTruncated'' ''false''] @ map contents_tree hashes)"

lemma contents_elem_tree:
  assumes "hash_wf h" shows "contents_elem h = contents_tree h"
proof -
  have "CHR 0x00 \<notin> set (hashToCString h)" "CHR 0x00 \<notin> set (dec_string 123456)"
    using hash_string_ok [OF assms] dec_string_ok [of 123456] by (auto simp: str_ok_def)
  then show ?thesis
    by (simp add: contents_elem_def contents_tree_def insert_all_element text_elem_plain NewElement_def c_str_id)
qed

lemma listing_document:
  assumes "str_ok bucket" "n < 2 ^ 31" "list_all hash_wf hashes"
  shows "create_s3_list_objects_response doc bucket (int n) hashes = doc\<lparr>docKids := listing_tree bucket n hashes # docKids doc\<rparr>"
proof -
  have "CHR 0x00 \<notin> set bucket" "CHR 0x00 \<notin> set (dec_string n)"
    using assms(1) dec_string_ok [OF assms(2)] by (auto simp: str_ok_def)
  moreover have "map contents_elem hashes = map contents_tree hashes"
    using assms(3) contents_elem_tree by (simp add: list_all_iff)
  moreover have "SetAttribute ''xmlns'' ''http://s3.amazonaws.com/doc/2006-03-01/'' (NewElement ''ListBucketResult'') =
      XMLElement ''ListBucketResult'' [(''xmlns'', ''http://s3.amazonaws.com/doc/2006-03-01/'')] []"
    by (simp add: SetAttribute_def NewElement_def c_str_id)
  ultimately show ?thesis
    by (simp add: create_s3_list_objects_response_def listing_tree_def insert_all_element text_elem_plain InsertFirstChild_def)
qed

lemma valid_names:
  "valid_name ''Contents''" "valid_name ''Key''" "valid_name ''LastModified''" "valid_name ''ETag''" "valid_name ''Size''"
  "valid_name ''StorageClass''" "valid_name ''ListBucketResult''" "valid_name ''Name''" "valid_name ''Prefix''"
  "valid_name ''Marker''" "valid_name ''MaxKeys''" "valid_name ''IsTruncated''" "valid_name ''xmlns''"
  by (simp_all add: valid_name_def IsNameStartChar_def IsNameChar_def isalpha_def INT_MAX_def)

lemma plain_elem_readable:
  "valid_name tag \<Longrightarrow> str_ok s \<Longrightarrow> Suc depth < TINYXML2_MAX_ELEMENT_DEPTH \<Longrightarrow> readable depth (plain_elem tag s)"
  "separated (plain_elem tag s)" "\<not> ToDeclaration (plain_elem tag s)" "\<not> plain (plain_elem tag s)"
  by (simp_all add: plain_elem_def attrs_ok_def ToDeclaration_def plain_def ToText_def)

lemma contents_tree_readable:
  assumes "hash_wf h"
  shows "readable 2 (contents_tree h)" "separated (contents_tree h)" "\<not> ToDeclaration (contents_tree h)" "\<not> plain (contents_tree h)"
proof -
  have k: "str_ok (hashToCString h)" "str_ok (dec_string 123456)" using hash_string_ok(1) [OF assms] dec_string_ok by auto
  have "str_ok ''2024-01-10T15:30:00.000Z''" "str_ok (CHR 0x22 # ''9b2cf535f27731c974343645a3985328'' @ [CHR 0x22])" "str_ok ''STANDARD''"
    by (simp_all add: str_ok_def INT_MAX_def)
  then show "readable 2 (contents_tree h)"
    using k plain_elem_readable(1) valid_names
    by (simp add: contents_tree_def attrs_ok_def plain_elem_readable(3) TINYXML2_MAX_ELEMENT_DEPTH_def)
  show "separated (contents_tree h)" "\<not> ToDeclaration (contents_tree h)" "\<not> plain (contents_tree h)"
    by (simp_all add: contents_tree_def plain_elem_readable(2,4)) (simp_all add: ToDeclaration_def plain_def ToText_def)
qed

lemma separateds_all: "list_all (\<lambda>k. separated k \<and> \<not> plain k) ks \<Longrightarrow> separateds False ks"
  by (induction ks) auto

lemma listing_readable:
  assumes "str_ok bucket" "n < 2 ^ 31" "list_all hash_wf hashes"
  shows "readable 1 (listing_tree bucket n hashes)" "separated (listing_tree bucket n hashes)"
proof -
  have s: "str_ok (dec_string n)" "str_ok []" "str_ok ''false''" "str_ok ''http://s3.amazonaws.com/doc/2006-03-01/''"
    using dec_string_ok [OF assms(2)] by (simp_all add: str_ok_def INT_MAX_def)
  have c: "list_all (\<lambda>k. readable 2 k \<and> \<not> ToDeclaration k) (map contents_tree hashes)"
    "list_all (\<lambda>k. separated k \<and> \<not> plain k) (map contents_tree hashes)"
    using assms(3) contents_tree_readable by (auto simp: list_all_iff)
  show "readable 1 (listing_tree bucket n hashes)"
    using s c(1) assms(1) valid_names plain_elem_readable(1)
    by (simp add: listing_tree_def attrs_ok_def plain_elem_readable(3) TINYXML2_MAX_ELEMENT_DEPTH_def numeral_2_eq_2)
  show "separated (listing_tree bucket n hashes)"
    using c(2) unfolding listing_tree_def separated.simps
    by (intro separateds_all) (simp add: plain_elem_readable(2,4))
qed

section \<open>What a client reads\<close>

text \<open>A client of the library: the texts of the \<^verbatim>\<open>Key\<close> elements of the \<^verbatim>\<open>Contents\<close> elements, in order.\<close>

definition key_text :: "XMLNode \<Rightarrow> string option" where
  "key_text e = (case FirstChildElement (Some ''Key'') (kids e) of None \<Rightarrow> None | Some k \<Rightarrow> GetText k)"

definition listed_keys :: "XMLDocument \<Rightarrow> string option list" where
  "listed_keys doc =
     (case FirstChildElement (Some ''ListBucketResult'') (docKids doc) of
        None \<Rightarrow> []
      | Some root \<Rightarrow> map key_text (filter (ToElementWithName (Some ''Contents'')) (kids root)))"

lemma norm_plain_elem: "norm (plain_elem tag s) = XMLElement tag [] (if blank s then [] else [XMLText s False])"
  by (simp add: plain_elem_def plain_def ToText_def Value_def)

lemma norms_map: "list_all (\<lambda>k. \<not> plain k) ks \<Longrightarrow> norms ks = map norm ks"
  by (induction ks) auto

lemma key_text_contents:
  assumes "hash_wf h" shows "key_text (norm (contents_tree h)) = Some (hashToCString h)"
    and "ToElementWithName (Some ''Contents'') (norm (contents_tree h))"
proof -
  have "norms (kids (contents_tree h)) = map norm (kids (contents_tree h))"
    by (rule norms_map) (simp add: contents_tree_def plain_elem_readable(4))
  then obtain r where n: "norm (contents_tree h) = XMLElement ''Contents'' [] (plain_elem ''Key'' (hashToCString h) # r)"
    using hash_string_ok(2) [OF assms] by (simp add: contents_tree_def norm_plain_elem) (simp add: plain_elem_def)
  show "key_text (norm (contents_tree h)) = Some (hashToCString h)"
    by (simp add: n key_text_def FirstChildElement_def ToElementWithName_def ToElement_def plain_elem_def GetText_def
        ToComment_def ToText_def Value_def)
  show "ToElementWithName (Some ''Contents'') (norm (contents_tree h))"
    by (simp add: n ToElementWithName_def ToElement_def)
qed

lemma listed_keys_listing:
  assumes "list_all hash_wf hashes" "docKids doc = norms [listing_tree bucket n hashes]"
  shows "listed_keys doc = map (\<lambda>h. Some (hashToCString h)) hashes"
proof -
  have np: "\<not> plain (listing_tree bucket n hashes)" by (simp add: listing_tree_def plain_def ToText_def)
  have "norms (kids (listing_tree bucket n hashes)) = map norm (kids (listing_tree bucket n hashes))"
    by (rule norms_map) (use assms(1) contents_tree_readable(4) in \<open>auto simp: listing_tree_def list_all_iff plain_elem_readable(4)\<close>)
  then have k: "docKids doc = [XMLElement ''ListBucketResult'' [(''xmlns'', ''http://s3.amazonaws.com/doc/2006-03-01/'')]
      (map norm (kids (listing_tree bucket n hashes)))]"
    using assms(2) np by (simp add: listing_tree_def)
  have "filter (ToElementWithName (Some ''Contents'')) (map norm (kids (listing_tree bucket n hashes))) = map (\<lambda>h. norm (contents_tree h)) hashes"
    using assms(1) key_text_contents(2)
    by (auto simp: listing_tree_def norm_plain_elem ToElementWithName_def [of _ "XMLElement a b c" for a b c] ToElement_def
        StringEqual_def StringEqualN_def INT_MAX_def list_all_iff)
  then show ?thesis using k assms(1) key_text_contents(1)
    by (simp add: listed_keys_def FirstChildElement_def ToElementWithName_def ToElement_def list_all_iff)
qed



end
