(* ===== verification/Zstore_XmlShape.thy ===== *)
theory Zstore_XmlShape
  imports Zstore_XmlParse
begin

text \<open>
  What the parser of the XML library guarantees on every input: it ends, and the tree it leaves is well
  formed (\<open>Parse_total_shaped\<close>).
\<close>

section \<open>The shape of a parsed document\<close>

text \<open>
  What the parser guarantees of every node it inserts, at a given nesting: names made of name characters, distinct
  attribute names, declarations at the top only, and a nesting below the limit.
\<close>

definition name_shape :: "string \<Rightarrow> bool" where
  "name_shape s \<longleftrightarrow> (case s of [] \<Rightarrow> False | ch # cs \<Rightarrow> IsNameStartChar ch \<and> list_all IsNameChar cs)"

definition attrs_shape :: "(string \<times> string) list \<Rightarrow> bool" where
  "attrs_shape as \<longleftrightarrow> list_all (\<lambda>a. name_shape (fst a)) as \<and> distinct (map (\<lambda>a. take INT_MAX (fst a)) as)"

fun shaped :: "nat \<Rightarrow> XMLNode \<Rightarrow> bool" where
  "shaped depth (XMLElement name as ks) \<longleftrightarrow>
     name_shape name \<and> attrs_shape as \<and> (ks \<noteq> [] \<longrightarrow> Suc depth < TINYXML2_MAX_ELEMENT_DEPTH) \<and>
     list_all (\<lambda>k. shaped (Suc depth) k \<and> \<not> ToDeclaration k) ks"
| "shaped depth n \<longleftrightarrow> True"

lemma ParseName_shape: "ParseName p = Some (name, r) \<Longrightarrow> name_shape name"
  by (auto simp: ParseName_def name_shape_def list_all_iff dest: set_takeWhileD split: list.splits if_splits)

lemma XMLAttribute_name:
  "XMLAttribute_ParseDeep doc p = Some (a, r) \<Longrightarrow> name_shape (fst a)"
  by (auto simp: XMLAttribute_ParseDeep_def Let_def dest!: ParseName_shape split: option.splits if_splits list.splits)

lemma Attribute_absent: "Attribute name None as = None \<Longrightarrow> take INT_MAX name \<notin> (\<lambda>a. take INT_MAX (fst a)) ` set as"
  by (induction as) (auto simp: Attribute_def StringEqual_def StringEqualN_def split: option.splits if_splits)

lemma ParseAttributes_shape:
  "ParseAttributes doc as p = Inr (as', sealed, r) \<Longrightarrow> attrs_shape as \<Longrightarrow> attrs_shape as'"
proof (induction doc as p rule: ParseAttributes.induct)
  case (1 doc as p)
  obtain ch cs where p: "SkipWhiteSpace p = ch # cs"
    using "1.prems" by (subst (asm) ParseAttributes.simps) (auto split: list.splits)
  show ?case
  proof (cases "IsNameStartChar ch")
    case True
    then obtain a q where a: "XMLAttribute_ParseDeep doc (ch # cs) = Some (a, q)" "Attribute (fst a) None as = None"
        "ParseAttributes doc (as @ [a]) q = Inr (as', sealed, r)"
      using "1.prems" p by (subst (asm) ParseAttributes.simps) (auto split: option.splits if_splits)
    have "attrs_shape (as @ [a])"
      using "1.prems"(2) XMLAttribute_name [OF a(1)] Attribute_absent [OF a(2)] by (auto simp: attrs_shape_def)
    then show ?thesis using "1.IH" [OF p True a(1)] a by simp
  next
    case False
    then show ?thesis using "1.prems" p
      by (subst (asm) ParseAttributes.simps) (auto split: if_splits)
  qed
qed

lemma element_head_shape:
  "element_head doc p = Inr (name, as, closing, r) \<Longrightarrow> name_shape name \<and> attrs_shape as"
  by (auto simp: element_head_def Let_def attrs_shape_def split: option.splits sum.splits if_splits
      dest!: ParseName_shape ParseAttributes_shape)

lemma leaf_shape: "leaf_ParseDeep doc kind p = Inr (node, r) \<Longrightarrow> shaped depth node \<and> \<not> ToElement node"
  by (cases kind) (auto simp: leaf_ParseDeep_def XMLText_ParseDeep_def XMLComment_ParseDeep_def XMLDeclaration_ParseDeep_def
      XMLUnknown_ParseDeep_def ToElement_def Let_def split: option.splits if_splits)

text \<open>The children of a loop: shaped, with declarations only in front and only in a document.\<close>

definition kids_shape :: "nat \<Rightarrow> bool \<Rightarrow> XMLNode list \<Rightarrow> bool" where
  "kids_shape depth is_document ks \<longleftrightarrow> list_all (shaped depth) ks \<and>
     list_all (\<lambda>k. \<not> ToDeclaration k) (if is_document then dropWhile ToDeclaration ks else ks)"

lemma kids_shape_Nil [simp]: "kids_shape depth is_document []"
  by (simp add: kids_shape_def)

lemma kids_shape_snoc:
  assumes "kids_shape depth is_document ks" "shaped depth k" "ToDeclaration k \<Longrightarrow> wellLocated is_document ks"
  shows "kids_shape depth is_document (InsertEndChild k ks)"
proof -
  have "list_all (\<lambda>k. \<not> ToDeclaration k) (if is_document then dropWhile ToDeclaration (ks @ [k]) else ks @ [k])"
  proof (cases "ToDeclaration k")
    case True
    then have w: "is_document" "ks = [] \<or> ToDeclaration (last ks)" using assms(3) by (auto simp: wellLocated_def)
    have "dropWhile ToDeclaration ks = []"
    proof (rule ccontr)
      assume ne: "dropWhile ToDeclaration ks \<noteq> []"
      then have "last (dropWhile ToDeclaration ks) = last ks"
        using last_appendR [OF ne, of "takeWhile ToDeclaration ks"] by simp
      moreover have "\<not> ToDeclaration (last (dropWhile ToDeclaration ks))"
        using last_in_set [OF ne] assms(1) w(1) by (simp add: kids_shape_def list_all_iff)
      ultimately show False using w(2) ne by auto
    qed
    then show ?thesis using w(1) True by (simp add: dropWhile_append)
  next
    case False
    then show ?thesis using assms(1) by (auto simp: kids_shape_def dropWhile_append list_all_iff)
  qed
  then show ?thesis using assms(1,2) by (simp add: kids_shape_def InsertEndChild_def)
qed

lemma element_result_cases:
  assumes "XMLElement_ParseDeep (Suc fuel) doc depth p = Some (Inr (name, as, closing, ks, t, r))"
  obtains (no_loop) "element_head doc p = Inr (name, as, closing, r)" "ks = []"
  | (loop) q err where "element_head doc p = Inr (name, as, closing, q)" "Suc depth \<noteq> TINYXML2_MAX_ELEMENT_DEPTH"
      "parse_loop fuel doc (Suc depth) False True [] q = Some (ks, err, Some (t, r))"
proof -
  obtain h where h: "element_head doc p = Inr h" using assms by (cases "element_head doc p") (auto simp: XMLElement_ParseDeep.simps)
  obtain name' as' closing' q where h': "h = (name', as', closing', q)" by (cases h) auto
  show ?thesis
  proof (cases "q = [] \<or> closing' \<noteq> OPEN")
    case True
    then show ?thesis using assms h h' no_loop by (simp add: XMLElement_ParseDeep.simps)
  next
    case False
    with assms h h' have d: "Suc depth \<noteq> TINYXML2_MAX_ELEMENT_DEPTH"
      by (auto simp: XMLElement_ParseDeep.simps split: if_splits)
    obtain ks' err ret where l: "parse_loop fuel doc (Suc depth) False True [] q = Some (ks', err, ret)"
      using assms h h' False d by (cases "parse_loop fuel doc (Suc depth) False True [] q") (auto simp: XMLElement_ParseDeep.simps)
    then show ?thesis using assms h h' False d loop by (cases ret) (auto simp: XMLElement_ParseDeep.simps)
  qed
qed

lemma loop_result_cases:
  assumes "parse_loop (Suc fuel) doc depth is_document first children p = Some (ks, err, ret)"
  obtains (stop) "ks = children"
  | (leaf) kind q node r where "leaf_ParseDeep doc kind q = Inr (node, r)" "ToDeclaration node \<Longrightarrow> wellLocated is_document children"
      "parse_loop fuel doc depth is_document False (InsertEndChild node children) r = Some (ks, err, ret)"
  | (element) q name as closing kk t r where "XMLElement_ParseDeep fuel doc depth q = Some (Inr (name, as, closing, kk, t, r))"
      "parse_loop fuel doc depth is_document False (InsertEndChild (XMLElement name as kk) children) r = Some (ks, err, ret)"
proof -
  obtain ko q where i: "Identify doc first p = (ko, q)" by fastforce
  consider "p = [] \<or> ko = None" | kind where "p \<noteq> []" "ko = Some kind" "kind \<noteq> ElementK" | "p \<noteq> []" "ko = Some ElementK"
    by (cases ko) auto
  then show ?thesis
  proof cases
    case 1
    then have "parse_loop (Suc fuel) doc depth is_document first children p = Some (children, None, None)"
      using i loop_stops by metis
    then show ?thesis using assms stop by simp
  next
    case 2
    show ?thesis
    proof (cases "leaf_ParseDeep doc kind q")
      case (Inl e)
      from loop_leaf_fails [OF i [unfolded 2(2)] 2(1,3) this, of fuel depth is_document children] assms stop show ?thesis by simp
    next
      case (Inr b)
      then obtain node r where n: "leaf_ParseDeep doc kind q = Inr (node, r)" by (cases b) auto
      from loop_leaf [OF i [unfolded 2(2)] 2(1,3) n, of fuel depth is_document children] assms stop leaf [OF n] show ?thesis
        by (auto split: if_splits)
    qed
  next
    case 3
    then obtain out where out: "XMLElement_ParseDeep fuel doc depth q = Some out"
      using assms i by (auto simp: parse_loop.simps(2) [of fuel] split: option.splits)
    show ?thesis
    proof (cases out)
      case (Inl e)
      from loop_element_fails [OF i [unfolded 3(2)] 3(1) out [unfolded this], of is_document children] assms stop show ?thesis by simp
    next
      case (Inr o')
      then obtain name as closing kk t r where o': "out = Inr (name, as, closing, kk, t, r)" by (cases o') auto
      from loop_element [OF i [unfolded 3(2)] 3(1) out [unfolded o'], of is_document children] assms stop element [OF out [unfolded o']]
      show ?thesis by (auto split: if_splits)
    qed
  qed
qed

definition loop_shapes :: "nat \<Rightarrow> bool" where
  "loop_shapes fuel \<longleftrightarrow> (\<forall>doc depth is_document first children p ks err ret.
      parse_loop fuel doc depth is_document first children p = Some (ks, err, ret) \<longrightarrow> depth < TINYXML2_MAX_ELEMENT_DEPTH \<longrightarrow>
      kids_shape depth is_document children \<longrightarrow> kids_shape depth is_document ks)"

definition element_shapes :: "nat \<Rightarrow> bool" where
  "element_shapes fuel \<longleftrightarrow> (\<forall>doc depth p name as closing ks t r.
      XMLElement_ParseDeep fuel doc depth p = Some (Inr (name, as, closing, ks, t, r)) \<longrightarrow> depth < TINYXML2_MAX_ELEMENT_DEPTH \<longrightarrow>
      shaped depth (XMLElement name as ks))"

lemma element_shapes_Suc:
  assumes "loop_shapes fuel" shows "element_shapes (Suc fuel)"
  unfolding element_shapes_def
proof (intro allI impI)
  fix doc depth p name as closing ks t r
  assume run: "XMLElement_ParseDeep (Suc fuel) doc depth p = Some (Inr (name, as, closing, ks, t, r))"
    and d: "depth < TINYXML2_MAX_ELEMENT_DEPTH"
  from run show "shaped depth (XMLElement name as ks)"
  proof (cases rule: element_result_cases)
    case no_loop
    then show ?thesis using element_head_shape by simp
  next
    case (loop q err)
    then have "kids_shape (Suc depth) False ks"
      using assms d Suc_lessI [of depth TINYXML2_MAX_ELEMENT_DEPTH] kids_shape_Nil unfolding loop_shapes_def by blast
    then show ?thesis using loop(2) d element_head_shape [OF loop(1)] by (simp add: kids_shape_def list_all_iff)
  qed
qed

lemma loop_shapes_Suc:
  assumes IH: "loop_shapes fuel" "element_shapes fuel" shows "loop_shapes (Suc fuel)"
  unfolding loop_shapes_def
proof (intro allI impI)
  fix doc depth is_document first children p ks err ret
  assume run: "parse_loop (Suc fuel) doc depth is_document first children p = Some (ks, err, ret)"
    and d: "depth < TINYXML2_MAX_ELEMENT_DEPTH" and ch: "kids_shape depth is_document children"
  note next_loop = IH(1) [unfolded loop_shapes_def, rule_format, OF _ d]
  from run show "kids_shape depth is_document ks"
  proof (cases rule: loop_result_cases)
    case stop
    then show ?thesis using ch by simp
  next
    case (leaf kind q node r)
    show ?thesis
      by (rule next_loop [OF leaf(3)], rule kids_shape_snoc [OF ch]) (use leaf_shape [OF leaf(1)] leaf(2) in auto)
  next
    case (element q name as closing kk t r)
    have "shaped depth (XMLElement name as kk)" using IH(2) element(1) d unfolding element_shapes_def by blast
    then show ?thesis
      by (intro next_loop [OF element(2)] kids_shape_snoc [OF ch]) (auto simp: ToDeclaration_def)
  qed
qed

lemma parse_shapes: "loop_shapes fuel \<and> element_shapes fuel"
proof (induction fuel)
  case 0
  then show ?case by (simp add: loop_shapes_def element_shapes_def parse_loop.simps XMLElement_ParseDeep.simps)
next
  case (Suc fuel)
  then show ?case using loop_shapes_Suc element_shapes_Suc by blast
qed

lemma parse_buffer_okR:
  "okR (parse_buffer doc buf) (\<lambda>doc'. docKids doc' = docKids doc \<or> kids_shape 1 True (docKids doc'))"
proof -
  obtain p bom where pb: "ReadBOM (SkipWhiteSpace (c_str buf)) = (p, bom)" by fastforce
  let ?doc = "doc\<lparr>writeBOM := bom\<rparr>"
  obtain ks err ret where l: "parse_loop (Suc (length p)) ?doc 1 True True [] p = Some (ks, err, ret)"
    using parse_enough_fuel by blast
  have "kids_shape 1 True ks"
    using parse_shapes [of "Suc (length p)"] l kids_shape_Nil unfolding loop_shapes_def TINYXML2_MAX_ELEMENT_DEPTH_def
    by (meson one_less_numeral_iff semiring_norm(76))
  then show ?thesis using pb l by (simp add: parse_buffer_def Let_def)
qed

text \<open>
  (C14) Whatever the input, \<open>Parse\<close> ends, and the tree it leaves is well formed: names of name characters, distinct
  attributes, declarations in front, nesting below the limit; after an error the tree is empty.
\<close>

theorem Parse_total_shaped:
  assumes "nBytes = -1 \<or> unat nBytes \<le> length s"
  shows "\<exists>doc'. Parse doc (Some s) nBytes = Inr doc' \<and> kids_shape 1 True (docKids doc') \<and>
     (errorID doc' \<noteq> XML_SUCCESS \<longrightarrow> docKids doc' = [])"
proof -
  have parsed: "okR (parse_buffer (XMLDocument_Clear doc) buf) (\<lambda>doc'. kids_shape 1 True (docKids doc'))" for buf
    by (rule okR_mono [OF parse_buffer_okR]) (auto simp: XMLDocument_Clear_def)
  define buf where "buf = (if nBytes = -1 then c_str s else take (unat nBytes) s)"
  obtain d where d: "parse_buffer (XMLDocument_Clear doc) buf = Inr d" "kids_shape 1 True (docKids d)"
    using parsed [of buf] by (auto simp: okR_iff)
  show ?thesis
  proof (cases "nBytes = 0 \<or> c_str s = []")
    case True
    then show ?thesis by (auto simp: Parse_def Let_def XMLDocument_Clear_def)
  next
    case False
    then have "Parse doc (Some s) nBytes = bindR (parse_buffer (XMLDocument_Clear doc) buf) (\<lambda>doc.
        Inr (if errorID doc \<noteq> XML_SUCCESS then doc\<lparr>docKids := []\<rparr> else doc))"
      using assms by (auto simp: Parse_def Let_def buf_def)
    then show ?thesis using d by simp
  qed
qed

theorem Parse_total_shaped_witness:
  "\<exists>doc'. Parse (newXMLDocument True PRESERVE_WHITESPACE) (Some ''<a b='') (-1) = Inr doc' \<and> kids_shape 1 True (docKids doc') \<and>
     (errorID doc' \<noteq> XML_SUCCESS \<longrightarrow> docKids doc' = [])"
  by (rule Parse_total_shaped) simp

end
