(* ===== verification/Zstore_XmlFile.thy ===== *)
theory Zstore_XmlFile
  imports Zstore_XmlRound Zstore_XmlShape
begin

text \<open>
  Documents in files (\<^verbatim>\<open>src/src/tinyxml2.cpp\<close>, \<open>LoadFile\<close> and \<open>SaveFile\<close>), and the properties of the parser and the
  printer as a whole. The C library's file functions are parameters: what \<open>fopen\<close> returns for a name, and for an open
  file whether the first read fails, the position that \<open>ftell\<close> reports at the end, and the bytes that \<open>fread\<close> delivers.
\<close>

section \<open>Loading and saving\<close>

record xml_file =
  getc_fails :: bool
  end_position :: int
  file_bytes :: string

definition LoadFile_fp :: "xml_file \<Rightarrow> XMLDocument \<Rightarrow> XMLDocument res" where
  "LoadFile_fp fp doc =
     (let doc = XMLDocument_Clear doc in
      if getc_fails fp then Inr (doc\<lparr>errorID := XML_ERROR_FILE_READ_ERROR\<rparr>)
      else if end_position fp = -1 then Inr (doc\<lparr>errorID := XML_ERROR_FILE_READ_ERROR\<rparr>)
      else
        let filelength = word_of_int (end_position fp) :: u64 in
        if -1 \<le> filelength then Inr (doc\<lparr>errorID := XML_ERROR_FILE_READ_ERROR\<rparr>)
        else if filelength = 0 then Inr (doc\<lparr>errorID := XML_ERROR_EMPTY_DOCUMENT\<rparr>)
        else
          let charBuffer = take (unat filelength) (file_bytes fp) in
          if length charBuffer \<noteq> unat filelength then Inr (doc\<lparr>errorID := XML_ERROR_FILE_READ_ERROR\<rparr>)
          else parse_buffer doc charBuffer)"

definition LoadFile :: "(string \<Rightarrow> xml_file option) \<Rightarrow> string option \<Rightarrow> XMLDocument \<Rightarrow> XMLDocument res" where
  "LoadFile fopen filename doc =
     (case filename of
        None \<Rightarrow> Inr (doc\<lparr>errorID := XML_ERROR_FILE_COULD_NOT_BE_OPENED\<rparr>)
      | Some name \<Rightarrow>
          let doc = XMLDocument_Clear doc in
          (case fopen name of
             None \<Rightarrow> Inr (doc\<lparr>errorID := XML_ERROR_FILE_NOT_FOUND\<rparr>)
           | Some fp \<Rightarrow> LoadFile_fp fp doc))"

text \<open>\<open>SaveFile\<close> yields what it has written, \<open>None\<close> if the file was not opened.\<close>

definition SaveFile :: "bool \<Rightarrow> string option \<Rightarrow> bool \<Rightarrow> XMLDocument \<Rightarrow> (string option \<times> XMLDocument) res" where
  "SaveFile opened filename compact doc =
     (case filename of
        None \<Rightarrow> Inr (None, doc\<lparr>errorID := XML_ERROR_FILE_COULD_NOT_BE_OPENED\<rparr>)
      | Some _ \<Rightarrow>
          if \<not> opened then Inr (None, doc\<lparr>errorID := XML_ERROR_FILE_COULD_NOT_BE_OPENED\<rparr>)
          else
            let doc = doc\<lparr>errorID := XML_SUCCESS\<rparr> in
            bindR (Print doc (newXMLPrinter compact 0)) (\<lambda>stream. Inr (Some (printBuffer stream), doc)))"

definition file_of :: "string \<Rightarrow> xml_file" where
  "file_of s = \<lparr>getc_fails = False, end_position = int (length s), file_bytes = s\<rparr>"

lemma file_length_word:
  assumes "n < 2 ^ 63"
  shows "unat (word_of_int (int n) :: u64) = n" "\<not> (-1 :: u64) \<le> word_of_int (int n)"
proof -
  show u: "unat (word_of_int (int n) :: u64) = n" using assms by (simp add: unsigned_of_nat take_bit_nat_eq_self)
  have "unat (-1 :: u64) = 2 ^ 64 - 1" by (simp add: unsigned_minus_1_eq_mask mask_eq_exp_minus_1)
  then show "\<not> (-1 :: u64) \<le> word_of_int (int n)" using assms u by (simp add: word_le_nat_alt)
qed

lemma LoadFile_bytes:
  assumes "fopen name = Some (file_of s)" "s \<noteq> []" "length s < 2 ^ 63"
  shows "LoadFile fopen (Some name) doc = parse_buffer (XMLDocument_Clear doc) s"
proof -
  note w = file_length_word [OF assms(3)]
  have "word_of_int (int (length s)) \<noteq> (0 :: u64)" using w(1) assms(2) by (metis length_0_conv unat_0)
  then show ?thesis
    using assms(1) w by (simp add: LoadFile_def LoadFile_fp_def file_of_def XMLDocument_Clear_def)
qed



end
