(* ===== verification/Zstore_XmlNum.thy ===== *)
theory Zstore_XmlNum
  imports Zstore_XmlPrint
begin

text \<open>
  Numbers and booleans as texts (\<^verbatim>\<open>src/src/tinyxml2.cpp\<close>, \<^verbatim>\<open>src/src/include/tinyxml2.h\<close>): the \<open>ToStr\<close> and
  \<open>To...\<close> conversions of \<open>XMLUtil\<close>, the typed setters and queries of attributes and of element texts, and the
  typed output of the printer. The conversions to and from floating point are not modelled.

  The locale \<open>text_value\<close> is the contract of one pair of conversions; what is set is read back, for
  attributes and for texts, follows from it once, and each of the five types interprets it.
\<close>

section \<open>Conversions\<close>

text \<open>
  \<^verbatim>\<open>snprintf\<close> of a number: the buffer of \<open>BUF_SIZE\<close> = 200 bytes holds every value. \<^verbatim>\<open>sscanf\<close> skips white space
  and reads a sign and digits; it converts nothing when there is no digit. A number that does not
  fit its type is undefined behaviour, which the model reports as a fault.
\<close>

definition int_string :: "int \<Rightarrow> string" where
  "int_string v = (if v < 0 then CHR ''-'' # dec_string (nat (- v)) else dec_string (nat v))"

fun skip_space :: "string \<Rightarrow> string" where
  "skip_space [] = []"
| "skip_space (ch # cs) = (if isspace ch then skip_space cs else ch # cs)"

definition scan_dec :: "string \<Rightarrow> (bool \<times> nat) option" where
  "scan_dec str =
     (let p = skip_space str;
          neg = (take 1 p = ''-'');
          p = (if neg \<or> take 1 p = ''+'' then tl p else p);
          digits = takeWhile is_digit p
      in if digits = [] then None else Some (neg, dec_value digits))"

definition xdigit :: "char \<Rightarrow> nat option" where
  "xdigit ch = map_option unat (ref_hex_digit ch)"

text \<open>\<^verbatim>\<open>%x\<close> on a text that \<open>IsPrefixHex\<close> accepts: no sign, and the prefix is skipped.\<close>

definition scan_hex :: "string \<Rightarrow> nat option" where
  "scan_hex str =
     (let digits = takeWhile (\<lambda>ch. xdigit ch \<noteq> None) (drop 2 (skip_space str))
      in if digits = [] then None else Some (foldl (\<lambda>n ch. 16 * n + the (xdigit ch)) 0 digits))"

definition fit_signed :: "nat \<Rightarrow> bool \<times> nat \<Rightarrow> int option res" where
  "fit_signed bits x =
     (let v = (if fst x then - int (snd x) else int (snd x))
      in if - (2 ^ (bits - 1)) \<le> v \<and> v < 2 ^ (bits - 1) then Inr (Some v) else Inl OutOfRange)"

definition fit_unsigned :: "bool \<times> nat \<Rightarrow> 'a::len word option res" where
  "fit_unsigned x =
     (if snd x < 2 ^ LENGTH('a) then Inr (Some (if fst x then - of_nat (snd x) else of_nat (snd x))) else Inl OutOfRange)"

definition scanned :: "'a option \<Rightarrow> ('a \<Rightarrow> 'b option res) \<Rightarrow> 'b option res" where
  "scanned r f = (case r of None \<Rightarrow> Inr None | Some x \<Rightarrow> f x)"

definition ToStr_int :: "int \<Rightarrow> string" where "ToStr_int v = int_string v"
definition ToStr_unsigned :: "u32 \<Rightarrow> string" where "ToStr_unsigned v = dec_string (unat v)"
definition ToStr_int64 :: "int \<Rightarrow> string" where "ToStr_int64 v = int_string v"
definition ToStr_uint64 :: "u64 \<Rightarrow> string" where "ToStr_uint64 v = dec_string (unat v)"

text \<open>The two texts of a boolean are static members, set for the whole library.\<close>

definition SetBoolSerialization :: "string option \<Rightarrow> string option \<Rightarrow> string \<times> string" where
  "SetBoolSerialization writeTrue writeFalse =
     (case writeTrue of Some s \<Rightarrow> s | None \<Rightarrow> ''true'', case writeFalse of Some s \<Rightarrow> s | None \<Rightarrow> ''false'')"

definition bool_texts :: "string \<times> string" where
  "bool_texts = SetBoolSerialization None None"

definition ToStr_bool :: "string \<times> string \<Rightarrow> bool \<Rightarrow> string" where
  "ToStr_bool texts v = (if v then fst texts else snd texts)"

definition ToInt :: "string \<Rightarrow> int option res" where
  "ToInt str =
     (if IsPrefixHex str
      then scanned (scan_hex str) (\<lambda>n. bindR (fit_unsigned (False, n)) (\<lambda>v. Inr (map_option (\<lambda>w. sint (w :: u32)) v)))
      else scanned (scan_dec str) (fit_signed 32))"

definition ToUnsigned :: "string \<Rightarrow> u32 option res" where
  "ToUnsigned str =
     (if IsPrefixHex str then scanned (scan_hex str) (\<lambda>n. fit_unsigned (False, n)) else scanned (scan_dec str) fit_unsigned)"

definition ToInt64 :: "string \<Rightarrow> int option res" where
  "ToInt64 str =
     (if IsPrefixHex str
      then scanned (scan_hex str) (\<lambda>n. bindR (fit_unsigned (False, n)) (\<lambda>v. Inr (map_option (\<lambda>w. sint (w :: u64)) v)))
      else scanned (scan_dec str) (fit_signed 64))"

definition ToUnsigned64 :: "string \<Rightarrow> u64 option res" where
  "ToUnsigned64 str =
     (if IsPrefixHex str then scanned (scan_hex str) (\<lambda>n. fit_unsigned (False, n)) else scanned (scan_dec str) fit_unsigned)"

definition ToBool :: "string \<Rightarrow> bool option res" where
  "ToBool str =
     bindR (ToInt str) (\<lambda>ival. case ival of
         Some i \<Rightarrow> Inr (Some (i \<noteq> 0))
       | None \<Rightarrow> Inr (if list_ex (StringEqual str) [''true'', ''True'', ''TRUE''] then Some True
                      else if list_ex (StringEqual str) [''false'', ''False'', ''FALSE''] then Some False
                      else None))"

section \<open>Queries\<close>

text \<open>
  A query returns an error code and writes its result parameter only on success; \<open>v0\<close> is what the
  parameter held before.
\<close>

definition query_value :: "(string \<Rightarrow> 'a option res) \<Rightarrow> XMLError \<Rightarrow> string \<Rightarrow> 'a \<Rightarrow> (XMLError \<times> 'a) res" where
  "query_value conv err s v0 =
     bindR (conv s) (\<lambda>r. Inr (case r of Some v \<Rightarrow> (XML_SUCCESS, v) | None \<Rightarrow> (err, v0)))"

definition query_attribute ::
  "(string \<Rightarrow> 'a \<Rightarrow> (XMLError \<times> 'a) res) \<Rightarrow> string \<Rightarrow> XMLNode \<Rightarrow> 'a \<Rightarrow> (XMLError \<times> 'a) res" where
  "query_attribute q name e v0 =
     (case FindAttribute name (attrs e) of None \<Rightarrow> Inr (XML_NO_ATTRIBUTE, v0) | Some a \<Rightarrow> q (snd a) v0)"

definition query_text :: "(string \<Rightarrow> 'a option res) \<Rightarrow> XMLNode \<Rightarrow> 'a \<Rightarrow> (XMLError \<times> 'a) res" where
  "query_text conv e v0 =
     (case kids e of
        n # _ \<Rightarrow> if ToText n then query_value conv XML_CAN_NOT_CONVERT_TEXT (Value n) v0 else Inr (XML_NO_TEXT_NODE, v0)
      | [] \<Rightarrow> Inr (XML_NO_TEXT_NODE, v0))"

definition QueryStringAttribute :: "string \<Rightarrow> XMLNode \<Rightarrow> string \<Rightarrow> XMLError \<times> string" where
  "QueryStringAttribute name e v0 =
     (case FindAttribute name (attrs e) of None \<Rightarrow> (XML_NO_ATTRIBUTE, v0) | Some a \<Rightarrow> (XML_SUCCESS, snd a))"

subsection \<open>Int\<close>

definition QueryIntValue :: "string \<Rightarrow> int \<Rightarrow> (XMLError \<times> int) res" where
  "QueryIntValue s v0 = query_value ToInt XML_WRONG_ATTRIBUTE_TYPE s v0"

definition QueryIntAttribute :: "string \<Rightarrow> XMLNode \<Rightarrow> int \<Rightarrow> (XMLError \<times> int) res" where
  "QueryIntAttribute name e v0 = query_attribute QueryIntValue name e v0"

definition IntAttribute :: "string \<Rightarrow> int \<Rightarrow> XMLNode \<Rightarrow> int res" where
  "IntAttribute name defaultValue e = bindR (QueryIntAttribute name e defaultValue) (\<lambda>(_, v). Inr v)"

definition QueryIntText :: "XMLNode \<Rightarrow> int \<Rightarrow> (XMLError \<times> int) res" where
  "QueryIntText e v0 = query_text ToInt e v0"

definition IntText :: "int \<Rightarrow> XMLNode \<Rightarrow> int res" where
  "IntText defaultValue e = bindR (QueryIntText e defaultValue) (\<lambda>(_, v). Inr v)"

definition SetAttribute_int :: "string \<Rightarrow> int \<Rightarrow> XMLNode \<Rightarrow> XMLNode" where
  "SetAttribute_int name v e = SetAttribute name (ToStr_int v) e"

definition SetText_int :: "int \<Rightarrow> XMLNode \<Rightarrow> XMLNode" where
  "SetText_int v e = SetText (ToStr_int v) e"

definition PushAttribute_int :: "string \<Rightarrow> int \<Rightarrow> XMLPrinter \<Rightarrow> XMLPrinter" where
  "PushAttribute_int name v pr = PushAttribute (name, ToStr_int v) pr"

definition PushText_int :: "int \<Rightarrow> XMLPrinter \<Rightarrow> XMLPrinter" where
  "PushText_int v pr = PushText (ToStr_int v) False pr"

subsection \<open>Unsigned\<close>

definition QueryUnsignedValue :: "string \<Rightarrow> u32 \<Rightarrow> (XMLError \<times> u32) res" where
  "QueryUnsignedValue s v0 = query_value ToUnsigned XML_WRONG_ATTRIBUTE_TYPE s v0"

definition QueryUnsignedAttribute :: "string \<Rightarrow> XMLNode \<Rightarrow> u32 \<Rightarrow> (XMLError \<times> u32) res" where
  "QueryUnsignedAttribute name e v0 = query_attribute QueryUnsignedValue name e v0"

definition UnsignedAttribute :: "string \<Rightarrow> u32 \<Rightarrow> XMLNode \<Rightarrow> u32 res" where
  "UnsignedAttribute name defaultValue e = bindR (QueryUnsignedAttribute name e defaultValue) (\<lambda>(_, v). Inr v)"

definition QueryUnsignedText :: "XMLNode \<Rightarrow> u32 \<Rightarrow> (XMLError \<times> u32) res" where
  "QueryUnsignedText e v0 = query_text ToUnsigned e v0"

definition UnsignedText :: "u32 \<Rightarrow> XMLNode \<Rightarrow> u32 res" where
  "UnsignedText defaultValue e = bindR (QueryUnsignedText e defaultValue) (\<lambda>(_, v). Inr v)"

definition SetAttribute_unsigned :: "string \<Rightarrow> u32 \<Rightarrow> XMLNode \<Rightarrow> XMLNode" where
  "SetAttribute_unsigned name v e = SetAttribute name (ToStr_unsigned v) e"

definition SetText_unsigned :: "u32 \<Rightarrow> XMLNode \<Rightarrow> XMLNode" where
  "SetText_unsigned v e = SetText (ToStr_unsigned v) e"

definition PushAttribute_unsigned :: "string \<Rightarrow> u32 \<Rightarrow> XMLPrinter \<Rightarrow> XMLPrinter" where
  "PushAttribute_unsigned name v pr = PushAttribute (name, ToStr_unsigned v) pr"

definition PushText_unsigned :: "u32 \<Rightarrow> XMLPrinter \<Rightarrow> XMLPrinter" where
  "PushText_unsigned v pr = PushText (ToStr_unsigned v) False pr"

subsection \<open>Int64\<close>

definition QueryInt64Value :: "string \<Rightarrow> int \<Rightarrow> (XMLError \<times> int) res" where
  "QueryInt64Value s v0 = query_value ToInt64 XML_WRONG_ATTRIBUTE_TYPE s v0"

definition QueryInt64Attribute :: "string \<Rightarrow> XMLNode \<Rightarrow> int \<Rightarrow> (XMLError \<times> int) res" where
  "QueryInt64Attribute name e v0 = query_attribute QueryInt64Value name e v0"

definition Int64Attribute :: "string \<Rightarrow> int \<Rightarrow> XMLNode \<Rightarrow> int res" where
  "Int64Attribute name defaultValue e = bindR (QueryInt64Attribute name e defaultValue) (\<lambda>(_, v). Inr v)"

definition QueryInt64Text :: "XMLNode \<Rightarrow> int \<Rightarrow> (XMLError \<times> int) res" where
  "QueryInt64Text e v0 = query_text ToInt64 e v0"

definition Int64Text :: "int \<Rightarrow> XMLNode \<Rightarrow> int res" where
  "Int64Text defaultValue e = bindR (QueryInt64Text e defaultValue) (\<lambda>(_, v). Inr v)"

definition SetAttribute_int64 :: "string \<Rightarrow> int \<Rightarrow> XMLNode \<Rightarrow> XMLNode" where
  "SetAttribute_int64 name v e = SetAttribute name (ToStr_int64 v) e"

definition SetText_int64 :: "int \<Rightarrow> XMLNode \<Rightarrow> XMLNode" where
  "SetText_int64 v e = SetText (ToStr_int64 v) e"

definition PushAttribute_int64 :: "string \<Rightarrow> int \<Rightarrow> XMLPrinter \<Rightarrow> XMLPrinter" where
  "PushAttribute_int64 name v pr = PushAttribute (name, ToStr_int64 v) pr"

definition PushText_int64 :: "int \<Rightarrow> XMLPrinter \<Rightarrow> XMLPrinter" where
  "PushText_int64 v pr = PushText (ToStr_int64 v) False pr"

subsection \<open>Unsigned64\<close>

definition QueryUnsigned64Value :: "string \<Rightarrow> u64 \<Rightarrow> (XMLError \<times> u64) res" where
  "QueryUnsigned64Value s v0 = query_value ToUnsigned64 XML_WRONG_ATTRIBUTE_TYPE s v0"

definition QueryUnsigned64Attribute :: "string \<Rightarrow> XMLNode \<Rightarrow> u64 \<Rightarrow> (XMLError \<times> u64) res" where
  "QueryUnsigned64Attribute name e v0 = query_attribute QueryUnsigned64Value name e v0"

definition Unsigned64Attribute :: "string \<Rightarrow> u64 \<Rightarrow> XMLNode \<Rightarrow> u64 res" where
  "Unsigned64Attribute name defaultValue e = bindR (QueryUnsigned64Attribute name e defaultValue) (\<lambda>(_, v). Inr v)"

definition QueryUnsigned64Text :: "XMLNode \<Rightarrow> u64 \<Rightarrow> (XMLError \<times> u64) res" where
  "QueryUnsigned64Text e v0 = query_text ToUnsigned64 e v0"

definition Unsigned64Text :: "u64 \<Rightarrow> XMLNode \<Rightarrow> u64 res" where
  "Unsigned64Text defaultValue e = bindR (QueryUnsigned64Text e defaultValue) (\<lambda>(_, v). Inr v)"

definition SetAttribute_uint64 :: "string \<Rightarrow> u64 \<Rightarrow> XMLNode \<Rightarrow> XMLNode" where
  "SetAttribute_uint64 name v e = SetAttribute name (ToStr_uint64 v) e"

definition SetText_uint64 :: "u64 \<Rightarrow> XMLNode \<Rightarrow> XMLNode" where
  "SetText_uint64 v e = SetText (ToStr_uint64 v) e"

definition PushAttribute_uint64 :: "string \<Rightarrow> u64 \<Rightarrow> XMLPrinter \<Rightarrow> XMLPrinter" where
  "PushAttribute_uint64 name v pr = PushAttribute (name, ToStr_uint64 v) pr"

definition PushText_uint64 :: "u64 \<Rightarrow> XMLPrinter \<Rightarrow> XMLPrinter" where
  "PushText_uint64 v pr = PushText (ToStr_uint64 v) False pr"

subsection \<open>Bool\<close>

definition QueryBoolValue :: "string \<Rightarrow> bool \<Rightarrow> (XMLError \<times> bool) res" where
  "QueryBoolValue s v0 = query_value ToBool XML_WRONG_ATTRIBUTE_TYPE s v0"

definition QueryBoolAttribute :: "string \<Rightarrow> XMLNode \<Rightarrow> bool \<Rightarrow> (XMLError \<times> bool) res" where
  "QueryBoolAttribute name e v0 = query_attribute QueryBoolValue name e v0"

definition BoolAttribute :: "string \<Rightarrow> bool \<Rightarrow> XMLNode \<Rightarrow> bool res" where
  "BoolAttribute name defaultValue e = bindR (QueryBoolAttribute name e defaultValue) (\<lambda>(_, v). Inr v)"

definition QueryBoolText :: "XMLNode \<Rightarrow> bool \<Rightarrow> (XMLError \<times> bool) res" where
  "QueryBoolText e v0 = query_text ToBool e v0"

definition BoolText :: "bool \<Rightarrow> XMLNode \<Rightarrow> bool res" where
  "BoolText defaultValue e = bindR (QueryBoolText e defaultValue) (\<lambda>(_, v). Inr v)"

definition SetAttribute_bool :: "string \<Rightarrow> bool \<Rightarrow> XMLNode \<Rightarrow> XMLNode" where
  "SetAttribute_bool name v e = SetAttribute name (ToStr_bool bool_texts v) e"

definition SetText_bool :: "bool \<Rightarrow> XMLNode \<Rightarrow> XMLNode" where
  "SetText_bool v e = SetText (ToStr_bool bool_texts v) e"

definition PushAttribute_bool :: "string \<Rightarrow> bool \<Rightarrow> XMLPrinter \<Rightarrow> XMLPrinter" where
  "PushAttribute_bool name v pr = PushAttribute (name, ToStr_bool bool_texts v) pr"

definition PushText_bool :: "bool \<Rightarrow> XMLPrinter \<Rightarrow> XMLPrinter" where
  "PushText_bool v pr = PushText (ToStr_bool bool_texts v) False pr"

section \<open>The contract of a conversion\<close>

locale text_value =
  fixes to_str :: "'a \<Rightarrow> string" and from_str :: "string \<Rightarrow> 'a option res" and fits :: "'a \<Rightarrow> bool"
  assumes reads_back: "fits v \<Longrightarrow> from_str (to_str v) = Inr (Some v)"
    and no_NUL: "fits v \<Longrightarrow> CHR 0x00 \<notin> set (to_str v)"
begin

lemma query_back: "fits v \<Longrightarrow> query_value from_str err (to_str v) v0 = Inr (XML_SUCCESS, v)"
  by (simp add: query_value_def reads_back)

lemma query_attribute_back:
  assumes "fits v" "CHR 0x00 \<notin> set name"
  shows "query_attribute (query_value from_str err) name (SetAttribute name (to_str v) (XMLElement s as ks)) v0 = Inr (XML_SUCCESS, v)"
proof -
  have "\<exists>a. FindAttribute name (FindOrCreateAttribute name (\<lambda>_. c_str (to_str v)) as) = Some a \<and> snd a = to_str v"
    using assms no_NUL by (induction as) (auto simp: c_str_id)
  then show ?thesis using query_back [OF assms(1)] by (auto simp: query_attribute_def SetAttribute_def)
qed

lemma query_text_back:
  assumes "fits v"
  shows "query_text from_str (SetText (to_str v) (XMLElement s as ks)) v0 = Inr (XML_SUCCESS, v)"
proof (cases ks)
  case Nil
  then show ?thesis using query_back [OF assms] no_NUL [OF assms]
    by (simp add: query_text_def SetText_def on_kids_def InsertFirstChild_def NewText_def ToText_def Value_def c_str_id)
next
  case (Cons n ns)
  have "\<exists>b. SetValue (to_str v) n = XMLText (to_str v) b" if "ToText n"
    using that no_NUL [OF assms] by (cases n) (auto simp: ToText_def SetValue_def c_str_id)
  then show ?thesis using Cons query_back [OF assms] no_NUL [OF assms]
    by (auto simp: query_text_def SetText_def on_kids_def InsertFirstChild_def NewText_def ToText_def Value_def c_str_id)
qed

end

section \<open>The five types\<close>

lemma dec_string_Cons: "\<exists>ch cs. dec_string n = ch # cs \<and> is_digit ch \<and> list_all is_digit cs"
  using dec_string_props [of n] by (cases "dec_string n") auto

lemma digit_not:
  "is_digit ch \<Longrightarrow> \<not> isspace ch \<and> \<not> IsWhiteSpace ch \<and> ch \<noteq> CHR ''-'' \<and> ch \<noteq> CHR ''+'' \<and> ch \<noteq> CHR ''x'' \<and> ch \<noteq> CHR ''X'' \<and> ch \<noteq> CHR 0x00"
  by (auto simp: is_digit_def isspace_def IsWhiteSpace_def)

lemma scan_dec_digits:
  assumes "list_all is_digit ds" "ds \<noteq> []"
  shows "scan_dec ds = Some (False, dec_value ds)" "scan_dec (CHR ''-'' # ds) = Some (True, dec_value ds)"
    "\<not> IsPrefixHex ds" "\<not> IsPrefixHex (CHR ''-'' # ds)"
proof -
  obtain ch cs where ds: "ds = ch # cs" "is_digit ch" "list_all is_digit cs" using assms by (cases ds) auto
  note d = digit_not [OF ds(2)]
  have "takeWhile is_digit xs = xs" if "list_all is_digit xs" for xs using that by (induction xs) auto
  then have tw: "takeWhile is_digit ds = ds" "takeWhile is_digit cs = cs" using assms(1) ds(3) by blast+
  show "scan_dec ds = Some (False, dec_value ds)"
    using d ds(1,2) by (simp add: scan_dec_def tw(2))
  show "scan_dec (CHR ''-'' # ds) = Some (True, dec_value ds)"
    using assms(2) by (simp add: scan_dec_def isspace_def tw(1))
  show "\<not> IsPrefixHex (CHR ''-'' # ds)"
    by (simp add: IsPrefixHex_def IsWhiteSpace_def isspace_def split: list.split)
  show "\<not> IsPrefixHex ds"
    using d ds digit_not by (cases cs) (auto simp: IsPrefixHex_def)
qed

lemma scan_int_string: "scan_dec (int_string v) = Some (v < 0, nat \<bar>v\<bar>)" "\<not> IsPrefixHex (int_string v)"
  using scan_dec_digits dec_string_props by (auto simp: int_string_def)

lemma scan_dec_string: "scan_dec (dec_string n) = Some (False, n)" "\<not> IsPrefixHex (dec_string n)"
  using scan_dec_digits dec_string_props by metis+

lemma number_no_NUL: "CHR 0x00 \<notin> set (dec_string n)" "CHR 0x00 \<notin> set (int_string v)"
proof -
  show d: "CHR 0x00 \<notin> set (dec_string n)" for n
    using dec_string_props [of n] by (auto simp: list_all_iff dest: digit_not)
  show "CHR 0x00 \<notin> set (int_string v)" using d by (simp add: int_string_def)
qed

interpretation int_text: text_value ToStr_int ToInt "\<lambda>v. - (2 ^ 31) \<le> v \<and> v < 2 ^ 31"
  by unfold_locales
    (auto simp: ToInt_def ToStr_int_def scan_int_string scanned_def fit_signed_def number_no_NUL)

interpretation int64_text: text_value ToStr_int64 ToInt64 "\<lambda>v. - (2 ^ 63) \<le> v \<and> v < 2 ^ 63"
  by unfold_locales
    (auto simp: ToInt64_def ToStr_int64_def scan_int_string scanned_def fit_signed_def number_no_NUL)

lemma unat_word_bounds: "unat (v :: u32) < 4294967296" "unat (w :: u64) < 18446744073709551616"
  using unat_bound [of v] unat_bound [of w] by simp_all

interpretation unsigned_text: text_value ToStr_unsigned ToUnsigned "\<lambda>_. True"
  by unfold_locales
    (use unat_word_bounds in \<open>auto simp: ToUnsigned_def ToStr_unsigned_def scan_dec_string scanned_def fit_unsigned_def number_no_NUL\<close>)

interpretation uint64_text: text_value ToStr_uint64 ToUnsigned64 "\<lambda>_. True"
  by unfold_locales
    (use unat_word_bounds in \<open>auto simp: ToUnsigned64_def ToStr_uint64_def scan_dec_string scanned_def fit_unsigned_def number_no_NUL\<close>)

interpretation bool_text: text_value "ToStr_bool bool_texts" ToBool "\<lambda>_. True"
proof unfold_locales
  fix v
  have "ToInt ''true'' = Inr None" "ToInt ''false'' = Inr None"
    by (simp_all add: ToInt_def IsPrefixHex_def IsWhiteSpace_def isspace_def scan_dec_def is_digit_def scanned_def)
  then show "ToBool (ToStr_bool bool_texts v) = Inr (Some v)"
    by (simp add: ToStr_bool_def bool_texts_def SetBoolSerialization_def ToBool_def StringEqual_def StringEqualN_def INT_MAX_def)
  show "CHR 0x00 \<notin> set (ToStr_bool bool_texts v)"
    by (simp add: ToStr_bool_def bool_texts_def SetBoolSerialization_def)
qed

text \<open>
  (C32) An integer that is stored in an attribute or as the text of an element is read back by the query of its
  type, for every value of the type and whatever the element held before.
\<close>

theorem typed_values_read_back:
  assumes "CHR 0x00 \<notin> set name" and "- (2 ^ 31) \<le> i" and "i < 2 ^ 31" and "- (2 ^ 63) \<le> j" and "j < 2 ^ 63"
  shows "QueryIntAttribute name (SetAttribute_int name i (XMLElement s as ks)) i0 = Inr (XML_SUCCESS, i) \<and>
    QueryInt64Attribute name (SetAttribute_int64 name j (XMLElement s as ks)) i0 = Inr (XML_SUCCESS, j) \<and>
    QueryUnsignedAttribute name (SetAttribute_unsigned name u (XMLElement s as ks)) u0 = Inr (XML_SUCCESS, u) \<and>
    QueryUnsigned64Attribute name (SetAttribute_uint64 name w (XMLElement s as ks)) w0 = Inr (XML_SUCCESS, w) \<and>
    QueryBoolAttribute name (SetAttribute_bool name b (XMLElement s as ks)) b0 = Inr (XML_SUCCESS, b) \<and>
    QueryIntText (SetText_int i (XMLElement s as ks)) i0 = Inr (XML_SUCCESS, i) \<and>
    QueryInt64Text (SetText_int64 j (XMLElement s as ks)) i0 = Inr (XML_SUCCESS, j) \<and>
    QueryUnsignedText (SetText_unsigned u (XMLElement s as ks)) u0 = Inr (XML_SUCCESS, u) \<and>
    QueryUnsigned64Text (SetText_uint64 w (XMLElement s as ks)) w0 = Inr (XML_SUCCESS, w) \<and>
    QueryBoolText (SetText_bool b (XMLElement s as ks)) b0 = Inr (XML_SUCCESS, b)"
proof -
  have q: "QueryIntValue = query_value ToInt XML_WRONG_ATTRIBUTE_TYPE" "QueryInt64Value = query_value ToInt64 XML_WRONG_ATTRIBUTE_TYPE"
    "QueryUnsignedValue = query_value ToUnsigned XML_WRONG_ATTRIBUTE_TYPE"
    "QueryUnsigned64Value = query_value ToUnsigned64 XML_WRONG_ATTRIBUTE_TYPE"
    "QueryBoolValue = query_value ToBool XML_WRONG_ATTRIBUTE_TYPE"
    by (intro ext, simp add: QueryIntValue_def QueryInt64Value_def QueryUnsignedValue_def QueryUnsigned64Value_def QueryBoolValue_def)+
  show ?thesis
    unfolding QueryIntAttribute_def QueryInt64Attribute_def QueryUnsignedAttribute_def QueryUnsigned64Attribute_def
      QueryBoolAttribute_def QueryIntText_def QueryInt64Text_def QueryUnsignedText_def QueryUnsigned64Text_def QueryBoolText_def
      SetAttribute_int_def SetAttribute_int64_def SetAttribute_unsigned_def SetAttribute_uint64_def SetAttribute_bool_def
      SetText_int_def SetText_int64_def SetText_unsigned_def SetText_uint64_def SetText_bool_def q
    by (intro conjI int_text.query_attribute_back int64_text.query_attribute_back unsigned_text.query_attribute_back
        uint64_text.query_attribute_back bool_text.query_attribute_back int_text.query_text_back int64_text.query_text_back
        unsigned_text.query_text_back uint64_text.query_text_back bool_text.query_text_back)
      (use assms in simp_all)
qed

theorem typed_values_read_back_witness:
  "QueryIntAttribute ''n'' (SetAttribute_int ''n'' (-5) (XMLElement ''a'' [(''n'', ''x'')] [])) 0 = Inr (XML_SUCCESS, -5)"
  using typed_values_read_back [of "''n''" "-5" 7 "''a''" "[(''n'', ''x'')]" "[]" 0] by simp

end
