(* ===== verification/Zstore_XmlLinks.thy ===== *)
theory Zstore_XmlLinks
  imports Zstore_Prelude
begin

text \<open>
  The links between the nodes of a document (\<^verbatim>\<open>src/src/tinyxml2.cpp\<close>, \<open>XMLNode\<close>): parent, first and last
  child, previous and next sibling are pointers, here maps from addresses, one per field. The
  operations \<open>Unlink\<close>, \<open>InsertEndChild\<close>, \<open>InsertFirstChild\<close> and \<open>InsertAfterChild\<close> move nodes, also out of another
  parent; \<open>MarkInUse\<close> keeps the list of nodes that are in no tree.

  The specification is a list of children for every node. \<open>represents\<close> says that the pointers form these lists,
  and each operation is proved to act on them as its name says.
\<close>

record links =
  x_document :: "nat \<Rightarrow> nat"
  x_parent :: "nat \<Rightarrow> nat option"
  x_first :: "nat \<Rightarrow> nat option"
  x_last :: "nat \<Rightarrow> nat option"
  x_prev :: "nat \<Rightarrow> nat option"
  x_next :: "nat \<Rightarrow> nat option"
  x_unlinked :: "nat list"

section \<open>Operations\<close>

definition Unlink :: "nat \<Rightarrow> nat \<Rightarrow> links \<Rightarrow> links" where
  "Unlink this child h =
     (let h = (if x_first h this = Some child then h\<lparr>x_first := (x_first h)(this := x_next h child)\<rparr> else h);
          h = (if x_last h this = Some child then h\<lparr>x_last := (x_last h)(this := x_prev h child)\<rparr> else h);
          h = (case x_prev h child of Some p \<Rightarrow> h\<lparr>x_next := (x_next h)(p := x_next h child)\<rparr> | None \<Rightarrow> h);
          h = (case x_next h child of Some q \<Rightarrow> h\<lparr>x_prev := (x_prev h)(q := x_prev h child)\<rparr> | None \<Rightarrow> h)
      in h\<lparr>x_next := (x_next h)(child := None), x_prev := (x_prev h)(child := None),
           x_parent := (x_parent h)(child := None)\<rparr>)"

text \<open>\<open>SwapRemove\<close> puts the last entry in the place of the removed one.\<close>

definition SwapRemove :: "nat \<Rightarrow> 'a list \<Rightarrow> 'a list" where
  "SwapRemove i xs = butlast (xs[i := last xs])"

fun index_of :: "'a \<Rightarrow> 'a list \<Rightarrow> nat option" where
  "index_of x [] = None"
| "index_of x (y # ys) = (if x = y then Some 0 else map_option Suc (index_of x ys))"

definition MarkInUse :: "nat \<Rightarrow> links \<Rightarrow> links" where
  "MarkInUse node h =
     (case index_of node (x_unlinked h) of
        None \<Rightarrow> h
      | Some i \<Rightarrow> h\<lparr>x_unlinked := SwapRemove i (x_unlinked h)\<rparr>)"

definition InsertChildPreamble :: "nat \<Rightarrow> links \<Rightarrow> links" where
  "InsertChildPreamble insertThis h =
     (case x_parent h insertThis of
        Some p \<Rightarrow> Unlink p insertThis h
      | None \<Rightarrow> MarkInUse insertThis h)"

definition append_child :: "nat \<Rightarrow> nat \<Rightarrow> links \<Rightarrow> links" where
  "append_child this addThis h =
     (case x_last h this of
        Some l \<Rightarrow> h\<lparr>x_next := (x_next h)(l := Some addThis, addThis := None), x_prev := (x_prev h)(addThis := Some l),
                   x_last := (x_last h)(this := Some addThis), x_parent := (x_parent h)(addThis := Some this)\<rparr>
      | None \<Rightarrow> h\<lparr>x_first := (x_first h)(this := Some addThis), x_last := (x_last h)(this := Some addThis),
                 x_prev := (x_prev h)(addThis := None), x_next := (x_next h)(addThis := None),
                 x_parent := (x_parent h)(addThis := Some this)\<rparr>)"

definition prepend_child :: "nat \<Rightarrow> nat \<Rightarrow> links \<Rightarrow> links" where
  "prepend_child this addThis h =
     (case x_first h this of
        Some f \<Rightarrow> h\<lparr>x_prev := (x_prev h)(f := Some addThis, addThis := None), x_next := (x_next h)(addThis := Some f),
                   x_first := (x_first h)(this := Some addThis), x_parent := (x_parent h)(addThis := Some this)\<rparr>
      | None \<Rightarrow> h\<lparr>x_first := (x_first h)(this := Some addThis), x_last := (x_last h)(this := Some addThis),
                 x_prev := (x_prev h)(addThis := None), x_next := (x_next h)(addThis := None),
                 x_parent := (x_parent h)(addThis := Some this)\<rparr>)"

text \<open>A null result is \<open>None\<close>: the node belongs to another document, or the position is not a child.\<close>

definition InsertEndChild_link :: "nat \<Rightarrow> nat \<Rightarrow> links \<Rightarrow> nat option \<times> links" where
  "InsertEndChild_link this addThis h =
     (if x_document h addThis \<noteq> x_document h this then (None, h)
      else (Some addThis, append_child this addThis (InsertChildPreamble addThis h)))"

definition InsertFirstChild_link :: "nat \<Rightarrow> nat \<Rightarrow> links \<Rightarrow> nat option \<times> links" where
  "InsertFirstChild_link this addThis h =
     (if x_document h addThis \<noteq> x_document h this then (None, h)
      else (Some addThis, prepend_child this addThis (InsertChildPreamble addThis h)))"

definition InsertAfterChild :: "nat \<Rightarrow> nat \<Rightarrow> nat \<Rightarrow> links \<Rightarrow> (nat option \<times> links) res" where
  "InsertAfterChild this afterThis addThis h =
     (if x_document h addThis \<noteq> x_document h this then Inr (None, h)
      else if x_parent h afterThis \<noteq> Some this then Inr (None, h)
      else if afterThis = addThis then Inr (Some addThis, h)
      else if x_next h afterThis = None then Inr (InsertEndChild_link this addThis h)
      else
        let h = InsertChildPreamble addThis h;
            h = h\<lparr>x_prev := (x_prev h)(addThis := Some afterThis)\<rparr>;
            h = h\<lparr>x_next := (x_next h)(addThis := x_next h afterThis)\<rparr>
        in case x_next h afterThis of
             None \<Rightarrow> Inl NullDeref
           | Some q \<Rightarrow>
               let h = h\<lparr>x_prev := (x_prev h)(q := Some addThis)\<rparr>;
                   h = h\<lparr>x_next := (x_next h)(afterThis := Some addThis)\<rparr>
               in Inr (Some addThis, h\<lparr>x_parent := (x_parent h)(addThis := Some this)\<rparr>))"

section \<open>Doubly linked lists\<close>

definition hd_or :: "nat option \<Rightarrow> nat list \<Rightarrow> nat option" where
  "hd_or d ks = (case ks of [] \<Rightarrow> d | k # _ \<Rightarrow> Some k)"

definition last_or :: "nat option \<Rightarrow> nat list \<Rightarrow> nat option" where
  "last_or d ks = (if ks = [] then d else Some (last ks))"

lemma hd_or_simps [simp]: "hd_or d [] = d" "hd_or d (k # ks) = Some k" "hd_or d (xs @ ys) = hd_or (hd_or d ys) xs"
  by (simp_all add: hd_or_def split: list.split)

lemma last_or_simps [simp]: "last_or d [] = d" "last_or d (k # ks) = last_or (Some k) ks" "last_or d (xs @ ys) = last_or (last_or d xs) ys"
  by (simp_all add: last_or_def)

text \<open>A segment between the nodes \<open>p\<close> and \<open>n\<close>: the sibling pointers of its nodes.\<close>

fun segment :: "(nat \<Rightarrow> nat option) \<Rightarrow> (nat \<Rightarrow> nat option) \<Rightarrow> nat option \<Rightarrow> nat list \<Rightarrow> nat option \<Rightarrow> bool" where
  "segment prv nxt p [] n \<longleftrightarrow> True"
| "segment prv nxt p (k # ks) n \<longleftrightarrow> prv k = p \<and> nxt k = hd_or n ks \<and> segment prv nxt (Some k) ks n"

lemma segment_append [simp]:
  "segment prv nxt p (xs @ ys) n \<longleftrightarrow> segment prv nxt p xs (hd_or n ys) \<and> segment prv nxt (last_or p xs) ys n"
  by (induction xs arbitrary: p) auto

lemma segment_cong:
  "(\<And>k. k \<in> set ks \<Longrightarrow> prv k = prv' k \<and> nxt k = nxt' k) \<Longrightarrow> segment prv nxt p ks n = segment prv' nxt' p ks n"
  by (induction ks arbitrary: p) auto

lemma segment_other [simp]:
  "a \<notin> set ks \<Longrightarrow> segment (prv(a := v)) nxt p ks n = segment prv nxt p ks n"
  "a \<notin> set ks \<Longrightarrow> segment prv (nxt(a := v)) p ks n = segment prv nxt p ks n"
  by (induction ks arbitrary: p) auto

text \<open>Redirecting the ends of a segment.\<close>

lemma segment_prev:
  "segment prv nxt p (k # ks) n \<Longrightarrow> k \<notin> set ks \<Longrightarrow> segment (prv(k := p')) nxt p' (k # ks) n"
  by simp

lemma segment_next:
  "segment prv nxt p (ks @ [k]) n \<Longrightarrow> k \<notin> set ks \<Longrightarrow> segment prv (nxt(k := n')) p (ks @ [k]) n'"
  by simp

definition linked :: "links \<Rightarrow> nat \<Rightarrow> nat list \<Rightarrow> bool" where
  "linked h x ks \<longleftrightarrow> distinct ks \<and> x_first h x = hd_or None ks \<and> x_last h x = last_or None ks \<and>
     segment (x_prev h) (x_next h) None ks None \<and> (\<forall>c. x_parent h c = Some x \<longleftrightarrow> c \<in> set ks)"

definition represents :: "links \<Rightarrow> (nat \<Rightarrow> nat list) \<Rightarrow> bool" where
  "represents h K \<longleftrightarrow> (\<forall>x. linked h x (K x))"

lemma represents_disjoint: "represents h K \<Longrightarrow> c \<in> set (K x) \<Longrightarrow> c \<in> set (K y) \<Longrightarrow> x = y"
  by (metis linked_def option.inject represents_def)

lemma represents_parent: "represents h K \<Longrightarrow> x_parent h c = Some x \<longleftrightarrow> c \<in> set (K x)"
  by (simp add: represents_def linked_def)

section \<open>Unlinking\<close>

lemma Unlink_fields:
  assumes "linked h p (xs @ c # ys)"
  defines "h' \<equiv> Unlink p c h"
  shows "x_first h' = (x_first h)(p := hd_or None (xs @ ys))"
    and "x_last h' = (x_last h)(p := last_or None (xs @ ys))"
    and "x_prev h' = (if ys = [] then x_prev h else (x_prev h)(hd ys := last_or None xs))(c := None)"
    and "x_next h' = (if xs = [] then x_next h else (x_next h)(last xs := hd_or None ys))(c := None)"
    and "x_parent h' = (x_parent h)(c := None)"
proof -
  have d: "distinct (xs @ c # ys)" and f: "x_first h p = hd_or (Some c) xs" and l: "x_last h p = last_or (Some c) ys"
    and pc: "x_prev h c = last_or None xs" and nc: "x_next h c = hd_or None ys"
    using assms(1) by (auto simp: linked_def)
  have fc: "x_first h p = Some c \<longleftrightarrow> xs = []" using f d by (cases xs) auto
  have lc: "x_last h p = Some c \<longleftrightarrow> ys = []" using l d by (cases ys rule: rev_cases) auto
  show "x_first h' = (x_first h)(p := hd_or None (xs @ ys))"
    using f fc nc by (cases xs) (auto simp: h'_def Unlink_def Let_def fun_eq_iff split: option.splits)
  show "x_last h' = (x_last h)(p := last_or None (xs @ ys))"
    using l lc pc by (cases ys rule: rev_cases) (auto simp: h'_def Unlink_def Let_def fun_eq_iff split: option.splits)
  show "x_parent h' = (x_parent h)(c := None)"
    by (auto simp: h'_def Unlink_def Let_def split: option.splits)
  show "x_prev h' = (if ys = [] then x_prev h else (x_prev h)(hd ys := last_or None xs))(c := None)"
    using pc nc by (cases ys; cases xs rule: rev_cases) (auto simp: h'_def Unlink_def Let_def)
  show "x_next h' = (if xs = [] then x_next h else (x_next h)(last xs := hd_or None ys))(c := None)"
    using pc nc by (cases ys; cases xs rule: rev_cases) (auto simp: h'_def Unlink_def Let_def)
qed

lemma segment_end:
  assumes "segment prv nxt p ks n" "distinct ks" "ks \<noteq> []"
  shows "segment prv (nxt(last ks := n')) p ks n'"
  using assms by (cases ks rule: rev_cases) auto

lemma segment_start:
  assumes "segment prv nxt p ks n" "distinct ks" "ks \<noteq> []"
  shows "segment (prv(hd ks := p')) nxt p' ks n"
  using assms by (cases ks) auto

lemma Unlink_linked_parent:
  assumes "linked h p (xs @ c # ys)" shows "linked (Unlink p c h) p (xs @ ys)"
proof -
  note f = Unlink_fields [OF assms]
  have d: "distinct (xs @ c # ys)" and sx: "segment (x_prev h) (x_next h) None xs (Some c)"
    and sy: "segment (x_prev h) (x_next h) (Some c) ys None" and pa: "\<And>k. x_parent h k = Some p \<longleftrightarrow> k \<in> set (xs @ c # ys)"
    using assms by (auto simp: linked_def)
  have "segment (x_prev (Unlink p c h)) (x_next (Unlink p c h)) None xs (hd_or None ys)"
  proof (cases "xs = []")
    case False
    have "hd ys \<notin> set xs" if "ys \<noteq> []" using d that by (cases ys) auto
    then show ?thesis using segment_end [OF sx _ False] d False by (auto simp: f)
  qed simp
  moreover have "segment (x_prev (Unlink p c h)) (x_next (Unlink p c h)) (last_or None xs) ys None"
  proof (cases "ys = []")
    case False
    have "last xs \<notin> set ys" if "xs \<noteq> []" using d that by (cases xs rule: rev_cases) auto
    then show ?thesis using segment_start [OF sy _ False] d False by (auto simp: f)
  qed simp
  ultimately show ?thesis using d pa by (auto simp: linked_def f)
qed

lemma Unlink_linked_other:
  assumes "linked h p (xs @ c # ys)" "linked h x ks" "x \<noteq> p" "set ks \<inter> set (xs @ c # ys) = {}"
  shows "linked (Unlink p c h) x ks"
proof -
  note f = Unlink_fields [OF assms(1)]
  have "segment (x_prev (Unlink p c h)) (x_next (Unlink p c h)) None ks None = segment (x_prev h) (x_next h) None ks None"
  proof (rule segment_cong)
    fix k
    assume "k \<in> set ks"
    then have k: "k \<noteq> c" "k \<notin> set xs" "k \<notin> set ys" using assms(4) by auto
    then have "ys = [] \<or> k \<noteq> hd ys" "xs = [] \<or> k \<noteq> last xs" by auto
    with k(1) show "x_prev (Unlink p c h) k = x_prev h k \<and> x_next (Unlink p c h) k = x_next h k"
      unfolding f by (cases "ys = []"; cases "xs = []") simp_all
  qed
  moreover have "x_parent (Unlink p c h) k = Some x \<longleftrightarrow> k \<in> set ks" for k
    using assms(2,4) by (auto simp: linked_def f)
  ultimately show ?thesis using assms(2,3) by (simp add: linked_def f)
qed

definition spec_unlink :: "nat \<Rightarrow> (nat \<Rightarrow> nat list) \<Rightarrow> nat \<Rightarrow> nat list" where
  "spec_unlink c K = (\<lambda>x. remove1 c (K x))"

lemma Unlink_refines:
  assumes "represents h K" "x_parent h c = Some p"
  shows "represents (Unlink p c h) (spec_unlink c K)"
proof -
  have "c \<in> set (K p)" using represents_parent assms by blast
  then obtain xs ys where K: "K p = xs @ c # ys" "c \<notin> set xs" by (meson split_list_first)
  have lp: "linked h p (xs @ c # ys)" using assms(1) K(1) by (metis represents_def)
  show ?thesis unfolding represents_def
  proof
    fix x
    show "linked (Unlink p c h) x (spec_unlink c K x)"
    proof (cases "x = p")
      case True
      then show ?thesis using Unlink_linked_parent [OF lp] K by (simp add: spec_unlink_def remove1_append)
    next
      case False
      then have disj: "set (K x) \<inter> set (xs @ c # ys) = {}" using represents_disjoint [OF assms(1)] K(1) by (metis disjoint_iff)
      then have "remove1 c (K x) = K x" by (simp add: remove1_idem)
      moreover have "linked h x (K x)" using assms(1) by (simp add: represents_def)
      ultimately show ?thesis using Unlink_linked_other [OF lp _ False disj] by (simp add: spec_unlink_def)
    qed
  qed
qed

section \<open>Insertion\<close>

lemma MarkInUse_fields [simp]:
  "x_document (MarkInUse n h) = x_document h" "x_parent (MarkInUse n h) = x_parent h" "x_first (MarkInUse n h) = x_first h"
  "x_last (MarkInUse n h) = x_last h" "x_prev (MarkInUse n h) = x_prev h" "x_next (MarkInUse n h) = x_next h"
  by (auto simp: MarkInUse_def split: option.split)

lemma represents_parentless:
  "represents h K \<Longrightarrow> x_parent h c = None \<Longrightarrow> spec_unlink c K = K"
  by (auto simp: spec_unlink_def fun_eq_iff represents_parent [symmetric] intro!: remove1_idem)

lemma Preamble_refines:
  assumes "represents h K"
  shows "represents (InsertChildPreamble a h) (spec_unlink a K)" "x_parent (InsertChildPreamble a h) a = None"
proof -
  show "represents (InsertChildPreamble a h) (spec_unlink a K)"
    using assms Unlink_refines [OF assms] represents_parentless [OF assms]
    by (auto simp: InsertChildPreamble_def represents_def linked_def split: option.split)
  show "x_parent (InsertChildPreamble a h) a = None"
    by (auto simp: InsertChildPreamble_def Unlink_def Let_def split: option.split)
qed

text \<open>A node without a parent is in no list, so its own pointers are free.\<close>

lemma linked_update_free:
  assumes "linked h x ks" "a \<notin> set ks"
    "x_first h' x = x_first h x" "x_last h' x = x_last h x"
    "\<And>k. k \<in> set ks \<Longrightarrow> x_prev h' k = x_prev h k \<and> x_next h' k = x_next h k"
    "\<And>k. x_parent h' k = Some x \<longleftrightarrow> x_parent h k = Some x"
  shows "linked h' x ks"
  using assms segment_cong [of ks "x_prev h'" "x_prev h" "x_next h'" "x_next h" None None] by (simp add: linked_def)

lemma append_child_linked:
  assumes "represents h K" "x_parent h a = None"
  shows "represents (append_child this a h) (K(this := K this @ [a]))"
proof -
  have a: "a \<notin> set (K x)" for x using represents_parent [OF assms(1)] assms(2) by (metis option.distinct(1))
  have lt: "linked h this (K this)" using assms(1) by (simp add: represents_def)
  show ?thesis unfolding represents_def
  proof
    fix x
    show "linked (append_child this a h) x ((K(this := K this @ [a])) x)"
    proof (cases "x = this")
      case True
      then show ?thesis using lt a [of this]
        by (cases "K this" rule: rev_cases) (auto simp: linked_def append_child_def)
    next
      case False
      have l: "last (K this) \<notin> set (K x)" if "K this \<noteq> []"
        using represents_disjoint [OF assms(1)] that False by (metis last_in_set)
      have "linked (append_child this a h) x (K x)"
        by (rule linked_update_free [of h x "K x" a])
          (use assms False a l lt in \<open>auto simp: represents_def append_child_def linked_def last_or_def split: option.splits if_splits\<close>)
      then show ?thesis using False by simp
    qed
  qed
qed

lemma prepend_child_linked:
  assumes "represents h K" "x_parent h a = None"
  shows "represents (prepend_child this a h) (K(this := a # K this))"
proof -
  have a: "a \<notin> set (K x)" for x using represents_parent [OF assms(1)] assms(2) by (metis option.distinct(1))
  have lt: "linked h this (K this)" using assms(1) by (simp add: represents_def)
  show ?thesis unfolding represents_def
  proof
    fix x
    show "linked (prepend_child this a h) x ((K(this := a # K this)) x)"
    proof (cases "x = this")
      case True
      then show ?thesis using lt a [of this] by (cases "K this") (auto simp: linked_def prepend_child_def)
    next
      case False
      have l: "hd (K this) \<notin> set (K x)" if "K this \<noteq> []"
        using represents_disjoint [OF assms(1)] that False by (metis hd_in_set)
      have "linked (prepend_child this a h) x (K x)"
        by (rule linked_update_free [of h x "K x" a])
          (use assms False a l lt in \<open>auto simp: represents_def prepend_child_def linked_def hd_or_def split: option.splits if_splits list.splits\<close>)
      then show ?thesis using False by simp
    qed
  qed
qed

text \<open>The specification of the insertions: the node leaves the list it is in and enters the new one.\<close>

definition spec_insert_end :: "nat \<Rightarrow> nat \<Rightarrow> (nat \<Rightarrow> nat list) \<Rightarrow> nat \<Rightarrow> nat list" where
  "spec_insert_end this a K = (let K = spec_unlink a K in K(this := K this @ [a]))"

definition spec_insert_first :: "nat \<Rightarrow> nat \<Rightarrow> (nat \<Rightarrow> nat list) \<Rightarrow> nat \<Rightarrow> nat list" where
  "spec_insert_first this a K = (let K = spec_unlink a K in K(this := a # K this))"

fun insert_after :: "nat \<Rightarrow> nat \<Rightarrow> nat list \<Rightarrow> nat list" where
  "insert_after b a [] = []"
| "insert_after b a (k # ks) = (if k = b then k # a # ks else k # insert_after b a ks)"

definition spec_insert_after :: "nat \<Rightarrow> nat \<Rightarrow> nat \<Rightarrow> (nat \<Rightarrow> nat list) \<Rightarrow> nat \<Rightarrow> nat list" where
  "spec_insert_after this b a K =
     (if a = b then K else let K = spec_unlink a K in K(this := insert_after b a (K this)))"

lemma insert_after_append: "b \<notin> set xs \<Longrightarrow> insert_after b a (xs @ b # ys) = xs @ b # a # ys"
  by (induction xs) auto

lemma InsertEnd_refines:
  "represents h K \<Longrightarrow> represents (append_child this a (InsertChildPreamble a h)) (spec_insert_end this a K)"
  unfolding spec_insert_end_def Let_def by (intro append_child_linked Preamble_refines)

lemma InsertFirst_refines:
  "represents h K \<Longrightarrow> represents (prepend_child this a (InsertChildPreamble a h)) (spec_insert_first this a K)"
  unfolding spec_insert_first_def Let_def by (intro prepend_child_linked Preamble_refines)

text \<open>The four assignments of \<open>InsertAfterChild\<close>, between \<open>b\<close> and its successor.\<close>

definition splice :: "nat \<Rightarrow> nat \<Rightarrow> nat \<Rightarrow> nat \<Rightarrow> links \<Rightarrow> links" where
  "splice this b a q h =
     h\<lparr>x_prev := (x_prev h)(a := Some b, q := Some a), x_next := (x_next h)(a := Some q, b := Some a),
       x_parent := (x_parent h)(a := Some this)\<rparr>"

lemma splice_linked:
  assumes "represents h K" "x_parent h a = None" "K this = xs @ b # q # ys"
  shows "represents (splice this b a q h) (K(this := xs @ b # a # q # ys))"
proof -
  have a: "a \<notin> set (K x)" for x using represents_parent [OF assms(1)] assms(2) by (metis option.distinct(1))
  have lt: "linked h this (xs @ b # q # ys)" using assms(1,3) by (metis represents_def)
  show ?thesis unfolding represents_def
  proof
    fix x
    show "linked (splice this b a q h) x ((K(this := xs @ b # a # q # ys)) x)"
    proof (cases "x = this")
      case True
      then show ?thesis using lt a [of this] assms(3) by (auto simp: linked_def splice_def)
    next
      case False
      have l: "b \<notin> set (K x)" "q \<notin> set (K x)"
        using represents_disjoint [OF assms(1), of _ x this] False assms(3) by auto
      have "linked (splice this b a q h) x (K x)"
        by (rule linked_update_free [of h x "K x" a])
          (use assms(1,2) False a l in \<open>auto simp: represents_def splice_def\<close>)
      then show ?thesis using False by simp
    qed
  qed
qed

lemma next_at:
  assumes "represents h K" "K this = xs @ b # ys" shows "x_next h b = hd_or None ys"
  using assms by (auto simp: represents_def linked_def dest!: spec [of _ this])

lemma remove1_split:
  "b \<noteq> a \<Longrightarrow> remove1 a (xs @ b # ys) = (if a \<in> set xs then remove1 a xs @ b # ys else xs @ b # remove1 a ys)"
  by (auto simp: remove1_append)

lemma Preamble_document [simp]: "x_document (InsertChildPreamble a h) = x_document h"
  by (auto simp: InsertChildPreamble_def Unlink_def Let_def split: option.split)

lemma InsertAfterChild_splice:
  assumes rep: "represents h K" and K: "K this = xs @ b # ys" "ys \<noteq> []" and ab: "a \<noteq> b"
    and doc: "x_document h a = x_document h this" and K1: "spec_unlink a K this = xs' @ b # ys'"
  shows "InsertAfterChild this b a h =
     (case ys' of [] \<Rightarrow> Inl NullDeref | q # _ \<Rightarrow> Inr (Some a, splice this b a q (InsertChildPreamble a h)))"
proof -
  have "x_parent h b = Some this" using represents_parent [OF rep] K(1) by auto
  moreover have "x_next h b \<noteq> None" using next_at [OF rep K(1)] K(2) by (cases ys) auto
  moreover have n: "x_next (InsertChildPreamble a h) b = hd_or None ys'" using next_at [OF Preamble_refines(1) [OF rep] K1] .
  ultimately show ?thesis
    using ab doc by (cases ys') (auto simp: InsertAfterChild_def Let_def splice_def fun_upd_twist)
qed

lemma InsertAfter_last:
  assumes "represents h K" "K this = xs @ [b]" "a \<noteq> b" "x_document h a = x_document h this"
  shows "InsertAfterChild this b a h = Inr (Some a, append_child this a (InsertChildPreamble a h))"
    and "spec_insert_after this b a K = spec_insert_end this a K"
proof -
  have "x_parent h b = Some this" "x_next h b = None"
    using represents_parent [OF assms(1)] next_at [OF assms(1), of this xs b "[]"] assms(2) by auto
  then show "InsertAfterChild this b a h = Inr (Some a, append_child this a (InsertChildPreamble a h))"
    using assms(3,4) by (simp add: InsertAfterChild_def InsertEndChild_link_def)
  have "distinct (K this)" using assms(1) by (simp add: represents_def linked_def)
  then have "b \<notin> set xs" using assms(2) by simp
  then show "spec_insert_after this b a K = spec_insert_end this a K"
    using assms(2,3) insert_after_append [of b "remove1 a xs" a "[]"] insert_after_append [of b xs a "[]"]
    by (auto simp: spec_insert_after_def spec_insert_end_def spec_unlink_def Let_def remove1_split dest: notin_set_remove1)
qed

lemma InsertAfterChild_moves:
  assumes "represents h K" and "b \<in> set (K this)" and "x_document h a = x_document h this"
    and "\<And>xs. K this \<noteq> xs @ [b, a]"
  shows "\<exists>h'. InsertAfterChild this b a h = Inr (Some a, h') \<and> represents h' (spec_insert_after this b a K)"
proof (cases "a = b")
  case True
  then show ?thesis using assms represents_parent [OF assms(1)] by (simp add: InsertAfterChild_def spec_insert_after_def)
next
  case False
  obtain xs ys where K: "K this = xs @ b # ys" "b \<notin> set xs" using assms(2) by (meson split_list_first)
  show ?thesis
  proof (cases "ys = []")
    case True
    then have K': "K this = xs @ [b]" using K by simp
    show ?thesis using InsertAfter_last [OF assms(1) K' False assms(3)] InsertEnd_refines [OF assms(1)] by auto
  next
    case ys: False
    define xs' ys' where "xs' = (if a \<in> set xs then remove1 a xs else xs)" and "ys' = (if a \<in> set xs then ys else remove1 a ys)"
    have K1: "spec_unlink a K this = xs' @ b # ys'" using K(1) False by (simp add: spec_unlink_def remove1_split xs'_def ys'_def)
    have "ys \<noteq> [a]" using assms(4) K(1) by auto
    then have "ys' \<noteq> []" using ys by (cases ys; cases "tl ys") (auto simp: ys'_def)
    then obtain q r where q: "ys' = q # r" by (cases ys') auto
    have "represents (splice this b a q (InsertChildPreamble a h)) ((spec_unlink a K)(this := xs' @ b # a # q # r))"
      by (rule splice_linked [OF Preamble_refines [OF assms(1)]]) (use K1 q in simp)
    moreover have "b \<notin> set xs'" using K(2) notin_set_remove1 [of b xs a] by (simp add: xs'_def)
    then have "spec_insert_after this b a K = (spec_unlink a K)(this := xs' @ b # a # q # r)"
      using False K1 q by (simp add: spec_insert_after_def Let_def insert_after_append)
    ultimately show ?thesis using InsertAfterChild_splice [OF assms(1) K(1) ys False assms(3) K1] q by simp
  qed
qed

text \<open>
  (C20) Insertion after a child acts on the lists of children as it should: the new node leaves its old place and
  follows the given child, and all other lists keep their order, unless the node is the last child and
  already follows the given one.
\<close>

theorem InsertAfterChild_refines:
  assumes "represents h K" and "b \<in> set (K this)" and "x_document h a = x_document h this"
    and "\<And>xs. K this \<noteq> xs @ [b, a]"
  shows "\<exists>h'. InsertAfterChild this b a h = Inr (Some a, h') \<and> represents h' (spec_insert_after this b a K)"
  using assms by (rule InsertAfterChild_moves)

text \<open>
  (C40) Insertion of the last child after the child that it already follows dereferences a null pointer: the check
  for a last child is made before the node is unlinked, and unlinking it makes the given child the last.
\<close>

theorem InsertAfterChild_last_crashes:
  assumes "represents h K" and "K this = xs @ [b, a]" and "x_document h a = x_document h this"
  shows "InsertAfterChild this b a h = Inl NullDeref"
proof -
  have "distinct (K this)" using assms(1) by (simp add: represents_def linked_def)
  then have ab: "a \<noteq> b" "a \<notin> set xs" using assms(2) by auto
  then have "spec_unlink a K this = xs @ b # []" using assms(2) by (simp add: spec_unlink_def remove1_append)
  from InsertAfterChild_splice [OF assms(1) _ _ ab(1) assms(3) this, of xs "[a]"] assms(2) show ?thesis by simp
qed

text \<open>
  The three other operations on the children of a node act on the lists of children as their specification
  says, whatever lists the node was in before.
\<close>

lemma insertions_refine:
  assumes "represents h K" and "x_document h a = x_document h this" and "x_parent h c = Some p"
  shows "represents (Unlink p c h) (spec_unlink c K) \<and>
    (\<exists>h'. InsertEndChild_link this a h = (Some a, h') \<and> represents h' (spec_insert_end this a K)) \<and>
    (\<exists>h'. InsertFirstChild_link this a h = (Some a, h') \<and> represents h' (spec_insert_first this a K))"
  using assms Unlink_refines InsertEnd_refines InsertFirst_refines
  by (simp add: InsertEndChild_link_def InsertFirstChild_link_def)

text \<open>Two children of one node, for the examples.\<close>

definition ex_links :: links where
  "ex_links = \<lparr>x_document = (\<lambda>_. 0), x_parent = (\<lambda>_. None)(1 := Some 0, 2 := Some 0), x_first = (\<lambda>_. None)(0 := Some 1),
     x_last = (\<lambda>_. None)(0 := Some 2), x_prev = (\<lambda>_. None)(2 := Some 1), x_next = (\<lambda>_. None)(1 := Some 2), x_unlinked = [3]\<rparr>"

definition ex_kids :: "nat \<Rightarrow> nat list" where
  "ex_kids = (\<lambda>_. [])(0 := [1, 2])"

lemma ex_represents: "represents ex_links ex_kids"
  by (auto simp: represents_def linked_def ex_links_def ex_kids_def)

theorem InsertAfterChild_refines_witness:
  "\<exists>h'. InsertAfterChild 0 1 3 ex_links = Inr (Some 3, h') \<and> represents h' (spec_insert_after 0 1 3 ex_kids)"
  by (rule InsertAfterChild_refines [OF ex_represents]) (simp_all add: ex_kids_def ex_links_def)

theorem InsertAfterChild_last_crashes_witness: "InsertAfterChild 0 1 2 ex_links = Inl NullDeref"
  by (rule InsertAfterChild_last_crashes [OF ex_represents, of _ "[]"]) (simp_all add: ex_kids_def ex_links_def)

lemma insertions_refine_example:
  "represents (Unlink 0 1 ex_links) (spec_unlink 1 ex_kids)"
  using insertions_refine [OF ex_represents, of 3 0 1 0] by (simp add: ex_links_def)

end
