(* ===== verification/Zstore_XmlMem.thy ===== *)
theory Zstore_XmlMem
  imports Zstore_XmlPrint Zstore_Interfaces
begin

text \<open>
  The memory management of the XML library (\<^verbatim>\<open>src/src/include/tinyxml2.h\<close>): the growing array \<open>DynArray\<close>, the
  block allocator \<open>MemPoolT\<close> with its free list threaded through the free items, and the output buffer of the
  printer on top of the array.

  \<open>DynArray\<close> refines a list, \<open>MemPoolT\<close> interprets the locale \<open>context_pool\<close>, and the array version of
  \<open>Write\<close> refines the \<open>Write\<close> of \<open>Zstore_XmlPrint\<close>. Sizes are natural numbers: an array of \<open>2 ^ 63\<close> elements does not
  fit the address space.
\<close>

section \<open>DynArray\<close>

text \<open>\<open>d_mem\<close> is the allocated storage, whose entries from \<open>d_size\<close> on are indeterminate; \<open>junk\<close> is what \<open>new\<close> leaves
  in fresh storage.\<close>

record 'a dynarray =
  d_mem :: "'a list"
  d_size :: nat

definition newDynArray :: "nat \<Rightarrow> (nat \<Rightarrow> 'a) \<Rightarrow> 'a dynarray" where
  "newDynArray INITIAL_SIZE pool = \<lparr>d_mem = map pool [0..<INITIAL_SIZE], d_size = 0\<rparr>"

definition EnsureCapacity :: "(nat \<Rightarrow> 'a) \<Rightarrow> nat \<Rightarrow> 'a dynarray \<Rightarrow> 'a dynarray" where
  "EnsureCapacity junk cap d =
     (if cap > length (d_mem d)
      then d\<lparr>d_mem := take (d_size d) (d_mem d) @ map junk [d_size d..<cap * 2]\<rparr> else d)"

definition Push :: "(nat \<Rightarrow> 'a) \<Rightarrow> 'a \<Rightarrow> 'a dynarray \<Rightarrow> 'a dynarray" where
  "Push junk t d =
     (let d = EnsureCapacity junk (d_size d + 1) d
      in d\<lparr>d_mem := (d_mem d)[d_size d := t], d_size := d_size d + 1\<rparr>)"

text \<open>\<open>PushArr\<close> returns the index of the first new element, which is left indeterminate.\<close>

definition PushArr :: "(nat \<Rightarrow> 'a) \<Rightarrow> nat \<Rightarrow> 'a dynarray \<Rightarrow> nat \<times> 'a dynarray" where
  "PushArr junk count d =
     (let d = EnsureCapacity junk (d_size d + count) d in (d_size d, d\<lparr>d_size := d_size d + count\<rparr>))"

definition Pop :: "'a dynarray \<Rightarrow> ('a \<times> 'a dynarray) res" where
  "Pop d = (if d_size d = 0 then Inl OutOfBounds
            else Inr (d_mem d ! (d_size d - 1), d\<lparr>d_size := d_size d - 1\<rparr>))"

definition PopArr :: "nat \<Rightarrow> 'a dynarray \<Rightarrow> 'a dynarray res" where
  "PopArr count d = (if d_size d < count then Inl OutOfBounds else Inr (d\<lparr>d_size := d_size d - count\<rparr>))"

definition PeekTop :: "'a dynarray \<Rightarrow> 'a res" where
  "PeekTop d = (if d_size d = 0 then Inl OutOfBounds else Inr (d_mem d ! (d_size d - 1)))"

definition DynArray_Clear :: "'a dynarray \<Rightarrow> 'a dynarray" where
  "DynArray_Clear d = d\<lparr>d_size := 0\<rparr>"

definition DynArray_SwapRemove :: "nat \<Rightarrow> 'a dynarray \<Rightarrow> 'a dynarray res" where
  "DynArray_SwapRemove i d =
     (if i < d_size d then Inr (d\<lparr>d_mem := (d_mem d)[i := d_mem d ! (d_size d - 1)], d_size := d_size d - 1\<rparr>)
      else Inl OutOfBounds)"

definition dyn_inv :: "'a dynarray \<Rightarrow> bool" where
  "dyn_inv d \<longleftrightarrow> d_size d \<le> length (d_mem d)"

definition contents :: "'a dynarray \<Rightarrow> 'a list" where
  "contents d = take (d_size d) (d_mem d)"

lemma EnsureCapacity_contents:
  assumes "dyn_inv d" "d_size d \<le> cap"
  shows "d_size (EnsureCapacity junk cap d) = d_size d" "contents (EnsureCapacity junk cap d) = contents d"
    "cap \<le> length (d_mem (EnsureCapacity junk cap d))"
  using assms by (auto simp: EnsureCapacity_def contents_def dyn_inv_def)

lemma contents_last:
  assumes "0 < d_size d" "d_size d \<le> length (d_mem d)"
  shows "last (contents d) = d_mem d ! (d_size d - 1)"
proof -
  have "contents d \<noteq> []" using assms by (auto simp: contents_def)
  then show ?thesis using assms by (simp add: last_conv_nth) (simp add: contents_def)
qed

text \<open>
  The growing array is a list: pushing appends, popping and removing by swap take away exactly one element,
  and every operation keeps the size within the allocated storage, through every reallocation.
\<close>

lemma DynArray_refines:
  assumes "dyn_inv d"
  shows "(dyn_inv (Push junk t d) \<and> contents (Push junk t d) = contents d @ [t]) \<and>
    (contents d \<noteq> [] \<longrightarrow> (\<exists>d'. Pop d = Inr (last (contents d), d') \<and> dyn_inv d' \<and> contents d' = butlast (contents d))) \<and>
    (i < length (contents d) \<longrightarrow> (\<exists>d'. DynArray_SwapRemove i d = Inr d' \<and> dyn_inv d' \<and>
       contents d' = butlast ((contents d)[i := last (contents d)])))"
proof (intro conjI impI)
  note e = EnsureCapacity_contents [OF assms, of "d_size d + 1" junk]
  have len: "d_size d < length (d_mem (EnsureCapacity junk (d_size d + 1) d))" using e(3) by simp
  show "dyn_inv (Push junk t d)" using len e(1) by (simp add: Push_def Let_def dyn_inv_def)
  show "contents (Push junk t d) = contents d @ [t]"
    using len e(1,2) by (simp add: Push_def Let_def contents_def take_Suc_conv_app_nth)
next
  assume "contents d \<noteq> []"
  then have n: "0 < d_size d" "d_size d \<le> length (d_mem d)" using assms by (auto simp: contents_def dyn_inv_def)
  then have "last (contents d) = d_mem d ! (d_size d - 1)" using contents_last by blast
  then show "\<exists>d'. Pop d = Inr (last (contents d), d') \<and> dyn_inv d' \<and> contents d' = butlast (contents d)"
    using n by (auto simp: Pop_def dyn_inv_def contents_def butlast_take)
next
  assume i: "i < length (contents d)"
  then have n: "i < d_size d" "d_size d \<le> length (d_mem d)" using assms by (auto simp: contents_def dyn_inv_def)
  then have "last (contents d) = d_mem d ! (d_size d - 1)" by (intro contents_last) auto
  moreover have "butlast ((take (d_size d) (d_mem d))[i := x]) = take (d_size d - 1) ((d_mem d)[i := x])" for x
    using n by (simp add: take_update_swap [symmetric] butlast_take)
  ultimately show "\<exists>d'. DynArray_SwapRemove i d = Inr d' \<and> dyn_inv d' \<and> contents d' = butlast ((contents d)[i := last (contents d)])"
    using n by (auto simp: DynArray_SwapRemove_def dyn_inv_def contents_def)
qed

lemma DynArray_refines_example:
  "contents (Push (\<lambda>_. 0) 7 (Push (\<lambda>_. 0) (5 :: nat) (newDynArray 1 (\<lambda>_. 0)))) = [5, 7]"
proof -
  let ?d = "Push (\<lambda>_. 0) (5 :: nat) (newDynArray 1 (\<lambda>_. 0))"
  have n: "dyn_inv (newDynArray 1 (\<lambda>_. 0 :: nat))" by (simp add: dyn_inv_def newDynArray_def)
  from DynArray_refines [OF n] have 1: "dyn_inv ?d" "contents ?d = [5]" by (auto simp: contents_def newDynArray_def)
  from DynArray_refines [OF 1(1)] 1(2) show ?thesis by simp
qed

section \<open>The output buffer\<close>

text \<open>
  \<open>Write\<close> as the source does it: the array grows by the size of the text, the text overwrites the old
  terminator, and a new one follows. The constructor pushes the first terminator.
\<close>

definition mem_put :: "nat \<Rightarrow> 'a list \<Rightarrow> 'a list \<Rightarrow> 'a list" where
  "mem_put p data mem = take p mem @ data @ drop (p + length data) mem"

definition Write_array :: "(nat \<Rightarrow> char) \<Rightarrow> string \<Rightarrow> char dynarray \<Rightarrow> char dynarray res" where
  "Write_array junk data d =
     (let (i, d) = PushArr junk (length data) d in
      if i = 0 then Inl OutOfBounds
      else Inr (d\<lparr>d_mem := mem_put (i - 1 + length data) [CHR 0x00] (mem_put (i - 1) data (d_mem d))\<rparr>))"

definition newBuffer :: "(nat \<Rightarrow> char) \<Rightarrow> char dynarray" where
  "newBuffer junk = Push junk (CHR 0x00) (newDynArray 20 junk)"

definition buffer_holds :: "char dynarray \<Rightarrow> string \<Rightarrow> bool" where
  "buffer_holds d s \<longleftrightarrow> dyn_inv d \<and> contents d = s @ [CHR 0x00]"

lemma newBuffer_empty: "buffer_holds (newBuffer junk) []"
  by (simp add: buffer_holds_def newBuffer_def dyn_inv_def contents_def Push_def EnsureCapacity_def newDynArray_def
      take_Suc_conv_app_nth)

text \<open>
  The array behind the printer holds the printed text and its terminator: a write appends to what the
  buffer holds, as the \<open>Write\<close> of the printer model does, and never touches memory outside the array.
\<close>

lemma Write_array_refines:
  assumes "buffer_holds d (printBuffer pr)"
  shows "\<exists>d'. Write_array junk data d = Inr d' \<and> buffer_holds d' (printBuffer (Write data pr))"
proof -
  let ?s = "printBuffer pr" and ?n = "length data"
  define e where "e = EnsureCapacity junk (d_size d + ?n) d"
  have inv: "dyn_inv d" "contents d = ?s @ [CHR 0x00]" using assms by (auto simp: buffer_holds_def)
  note c = EnsureCapacity_contents [OF inv(1), of "d_size d + ?n" junk]
  have sz: "d_size d = length ?s + 1"
    using arg_cong [OF inv(2), of length] inv(1) by (simp add: contents_def dyn_inv_def)
  have e: "d_size e = length ?s + 1" "take (length ?s + 1) (d_mem e) = ?s @ [CHR 0x00]" "length ?s + 1 + ?n \<le> length (d_mem e)"
    using c inv(2) sz by (simp_all add: e_def contents_def)
  define m where "m = mem_put (length ?s + ?n) [CHR 0x00] (mem_put (length ?s) data (d_mem e))"
  have w: "Write_array junk data d = Inr (e\<lparr>d_size := length ?s + 1 + ?n, d_mem := m\<rparr>)"
    unfolding Write_array_def PushArr_def Let_def e_def [symmetric] using e(1) by (simp add: m_def)
  have "take (length ?s) (d_mem e) = ?s"
    using arg_cong [OF e(2), of "take (length ?s)"] by (simp add: min_def)
  then have "take (length ?s + 1 + ?n) m = ?s @ data @ [CHR 0x00]" "length m = length (d_mem e)"
    using e(3) by (auto simp: m_def mem_put_def min_def)
  then have "buffer_holds (e\<lparr>d_size := length ?s + 1 + ?n, d_mem := m\<rparr>) (?s @ data)"
    using e(3) by (simp add: buffer_holds_def dyn_inv_def contents_def)
  then show ?thesis using w by (simp add: Write_def)
qed

lemma Write_array_refines_example:
  "\<exists>d'. Write_array (\<lambda>_. CHR ''?'') ''abc'' (newBuffer (\<lambda>_. CHR ''?'')) = Inr d' \<and> contents d' = ''abc'' @ [CHR 0x00]"
  using Write_array_refines [of "newBuffer (\<lambda>_. CHR ''?'')" "newXMLPrinter True 0" "\<lambda>_. CHR ''?''" "''abc''"]
    newBuffer_empty by (simp add: newXMLPrinter_def Write_def buffer_holds_def) blast

section \<open>MemPoolT\<close>

text \<open>
  An item is numbered by its block and its place in the block; \<open>next_item\<close> is the link that the union stores in a
  free item. A block has \<open>items\<close> = 4096 / \<open>ITEM_SIZE\<close> items.
\<close>

record mempool =
  blockPtrs :: nat
  root_item :: "nat option"
  next_item :: "nat \<Rightarrow> nat option"
  currentAllocs :: u64
  nAllocs :: u64
  maxAllocs :: u64
  nUntracked :: u64

definition newMemPool :: mempool where
  "newMemPool = \<lparr>blockPtrs = 0, root_item = None, next_item = (\<lambda>_. None), currentAllocs = 0, nAllocs = 0, maxAllocs = 0, nUntracked = 0\<rparr>"

definition thread_block :: "nat \<Rightarrow> nat \<Rightarrow> (nat \<Rightarrow> nat option) \<Rightarrow> nat \<Rightarrow> nat option" where
  "thread_block items base nxt = (\<lambda>a. if base \<le> a \<and> a < base + (items - 1) then Some (a + 1)
                                      else if a = base + (items - 1) then None else nxt a)"

definition Alloc :: "nat \<Rightarrow> mempool \<Rightarrow> (nat \<times> mempool) res" where
  "Alloc items p =
     (let p = (if root_item p = None
               then p\<lparr>blockPtrs := blockPtrs p + 1, next_item := thread_block items (blockPtrs p * items) (next_item p),
                      root_item := Some (blockPtrs p * items)\<rparr> else p)
      in case root_item p of
           None \<Rightarrow> Inl NullDeref
         | Some result \<Rightarrow>
             let p = p\<lparr>root_item := next_item p result, currentAllocs := currentAllocs p + 1\<rparr>;
                 p = (if maxAllocs p < currentAllocs p then p\<lparr>maxAllocs := currentAllocs p\<rparr> else p)
             in Inr (result, p\<lparr>nAllocs := nAllocs p + 1, nUntracked := nUntracked p + 1\<rparr>))"

definition MemPool_Free :: "nat \<Rightarrow> mempool \<Rightarrow> mempool res" where
  "MemPool_Free item p =
     Inr (p\<lparr>currentAllocs := currentAllocs p - 1, next_item := (next_item p)(item := root_item p), root_item := Some item\<rparr>)"

definition SetTracked :: "mempool \<Rightarrow> mempool" where
  "SetTracked p = p\<lparr>nUntracked := nUntracked p - 1\<rparr>"

definition MemPool_Clear :: "mempool \<Rightarrow> mempool" where
  "MemPool_Clear p = p\<lparr>blockPtrs := 0, root_item := None, currentAllocs := 0, nAllocs := 0, maxAllocs := 0, nUntracked := 0\<rparr>"

fun free_chain :: "(nat \<Rightarrow> nat option) \<Rightarrow> nat option \<Rightarrow> nat list \<Rightarrow> bool" where
  "free_chain nxt r [] \<longleftrightarrow> r = None"
| "free_chain nxt r (x # xs) \<longleftrightarrow> r = Some x \<and> free_chain nxt (nxt x) xs"

text \<open>The items of the blocks are the used ones and, apart from them, those of the free list.\<close>

definition mempool_inv :: "nat \<Rightarrow> mempool \<Rightarrow> nat set \<Rightarrow> bool" where
  "mempool_inv items p H \<longleftrightarrow> (\<exists>free. free_chain (next_item p) (root_item p) free \<and> distinct free \<and>
     set free \<inter> H = {} \<and> set free \<union> H = {0..<blockPtrs p * items}) \<and> currentAllocs p = of_nat (card H)"

lemma free_chain_other: "a \<notin> set xs \<Longrightarrow> free_chain (nxt(a := v)) r xs = free_chain nxt r xs"
  by (induction xs arbitrary: r) auto

lemma thread_block_chain:
  "0 < k \<Longrightarrow> k \<le> items \<Longrightarrow> free_chain (thread_block items base nxt) (Some (base + (items - k))) [base + (items - k)..<base + items]"
proof (induction k)
  case (Suc k)
  let ?a = "base + (items - Suc k)"
  have l: "[?a..<base + items] = ?a # [Suc ?a..<base + items]" using Suc.prems by (simp add: upt_conv_Cons)
  show ?case
  proof (cases "k = 0")
    case True
    then show ?thesis using l Suc.prems by (simp add: thread_block_def)
  next
    case False
    have a: "Suc ?a = base + (items - k)" using Suc.prems by simp
    have "thread_block items base nxt ?a = Some (Suc ?a)" using Suc.prems False by (auto simp: thread_block_def)
    then show ?thesis unfolding l free_chain.simps using Suc.IH Suc.prems False unfolding a by simp
  qed
qed simp

lemma mempool_new_block:
  assumes "0 < items" "root_item p = None" "mempool_inv items p H"
  shows "mempool_inv items (p\<lparr>blockPtrs := blockPtrs p + 1, next_item := thread_block items (blockPtrs p * items) (next_item p),
      root_item := Some (blockPtrs p * items)\<rparr>) H"
proof -
  let ?b = "blockPtrs p * items"
  obtain free where f: "free_chain (next_item p) None free" "set free \<union> H = {0..<?b}"
    and c: "currentAllocs p = of_nat (card H)"
    using assms(2,3) by (auto simp: mempool_inv_def)
  then have "free = []" by (cases free) auto
  then have H: "H = {0..<?b}" using f(2) by simp
  have "free_chain (thread_block items ?b (next_item p)) (Some ?b) [?b..<?b + items]"
    using thread_block_chain [of items items ?b "next_item p"] assms(1) by simp
  moreover have "set [?b..<?b + items] \<inter> H = {}" "set [?b..<?b + items] \<union> H = {0..<(blockPtrs p + 1) * items}"
    using H by (auto simp: algebra_simps)
  ultimately show ?thesis using c unfolding mempool_inv_def by (simp add: exI [of _ "[?b..<?b + items]"])
qed

lemma mempool_take_root:
  assumes "root_item p = Some r" "mempool_inv items p H"
  shows "r \<notin> H \<and> mempool_inv items (p\<lparr>root_item := next_item p r, currentAllocs := currentAllocs p + 1\<rparr>) (insert r H)"
proof -
  obtain free where f: "free_chain (next_item p) (Some r) free" "distinct free" "set free \<inter> H = {}"
    "set free \<union> H = {0..<blockPtrs p * items}" and c: "currentAllocs p = of_nat (card H)"
    using assms by (auto simp: mempool_inv_def)
  then obtain xs where xs: "free = r # xs" "free_chain (next_item p) (next_item p r) xs" by (cases free) auto
  have "finite H" using f(4) by (metis finite_atLeastLessThan finite_Un)
  moreover have "r \<notin> H" using f(3) xs(1) by auto
  ultimately show ?thesis using f xs c by (auto simp: mempool_inv_def intro!: exI [of _ xs])
qed

lemma Alloc_fresh:
  assumes "0 < items" "mempool_inv items p H"
  shows "\<exists>i p'. Alloc items p = Inr (i, p') \<and> i \<notin> H \<and> mempool_inv items p' (insert i H)"
proof -
  define q where "q = (if root_item p = None
     then p\<lparr>blockPtrs := blockPtrs p + 1, next_item := thread_block items (blockPtrs p * items) (next_item p),
            root_item := Some (blockPtrs p * items)\<rparr> else p)"
  have "mempool_inv items q H" using mempool_new_block [OF assms(1) _ assms(2)] assms(2) by (simp add: q_def)
  moreover obtain r where r: "root_item q = Some r" by (cases "root_item p") (auto simp: q_def)
  ultimately have "r \<notin> H" "mempool_inv items (q\<lparr>root_item := next_item q r, currentAllocs := currentAllocs q + 1\<rparr>) (insert r H)"
    using mempool_take_root by blast+
  then show ?thesis unfolding Alloc_def q_def [symmetric] Let_def r by (simp add: mempool_inv_def)
qed

lemma Free_held:
  assumes "mempool_inv items p H" "i \<in> H"
  shows "\<exists>p'. MemPool_Free i p = Inr p' \<and> mempool_inv items p' (H - {i})"
proof -
  obtain free where f: "free_chain (next_item p) (root_item p) free" "distinct free" "set free \<inter> H = {}"
    "set free \<union> H = {0..<blockPtrs p * items}" and c: "currentAllocs p = of_nat (card H)"
    using assms(1) by (auto simp: mempool_inv_def)
  have "finite H" using f(4) by (metis finite_atLeastLessThan finite_Un)
  then have "of_nat (card (H - {i})) = (of_nat (card H) - 1 :: u64)"
    using assms(2) card_gt_0_iff [of H] by (auto simp: card_Diff_singleton of_nat_diff Suc_le_eq)
  moreover have "i \<notin> set free" using f(3) assms(2) by auto
  moreover from this have "free_chain ((next_item p)(i := root_item p)) (Some i) (i # free)"
    using f(1) free_chain_other by simp
  moreover have "set (i # free) \<inter> (H - {i}) = {}" "set (i # free) \<union> (H - {i}) = {0..<blockPtrs p * items}"
    using f(3,4) assms(2) by auto
  ultimately show ?thesis using f(2) c by (auto simp: MemPool_Free_def mempool_inv_def intro!: exI [of _ "i # free"])
qed

interpretation xml_pool: context_pool "Alloc (Suc k)" MemPool_Free "mempool_inv (Suc k)" for k
  by unfold_locales (use Alloc_fresh Free_held in auto)

text \<open>A user of the pool: it allocates, and it frees some item that it holds.\<close>

datatype pool_op = PoolAlloc | PoolFree nat

fun pool_run :: "nat \<Rightarrow> pool_op list \<Rightarrow> mempool \<times> nat list \<Rightarrow> (mempool \<times> nat list) res" where
  "pool_run items [] s = Inr s"
| "pool_run items (PoolAlloc # ops) (p, held) =
     bindR (Alloc items p) (\<lambda>(i, p). pool_run items ops (p, i # held))"
| "pool_run items (PoolFree j # ops) (p, held) =
     (if j < length held
      then bindR (MemPool_Free (held ! j) p) (\<lambda>p. pool_run items ops (p, take j held @ drop (Suc j) held))
      else pool_run items ops (p, held))"

lemma remove_nth:
  assumes "j < length held" "distinct held"
  shows "distinct (take j held @ drop (Suc j) held)" "set (take j held @ drop (Suc j) held) = set held - {held ! j}"
  using assms id_take_nth_drop [OF assms(1)] by (metis distinct_append distinct.simps(2) disjoint_insert(2) list.simps(15),
    metis Diff_insert_absorb Un_insert_right distinct.simps(2) distinct_append disjoint_insert(2) list.simps(15) set_append Un_iff)

lemma pool_run_inv:
  assumes "mempool_inv (Suc k) p (set held)" "distinct held"
  shows "\<exists>p' held'. pool_run (Suc k) ops (p, held) = Inr (p', held') \<and> mempool_inv (Suc k) p' (set held') \<and> distinct held'"
  using assms
proof (induction ops arbitrary: p held)
  case (Cons oper ops)
  show ?case
  proof (cases oper)
    case PoolAlloc
    obtain i p1 where "Alloc (Suc k) p = Inr (i, p1)" "i \<notin> set held" "mempool_inv (Suc k) p1 (set (i # held))"
      using xml_pool.acquire_fresh [OF Cons.prems(1)] by auto
    then show ?thesis using Cons.IH [of p1 "i # held"] Cons.prems(2) PoolAlloc by simp
  next
    case (PoolFree j)
    show ?thesis
    proof (cases "j < length held")
      case True
      obtain p1 where "MemPool_Free (held ! j) p = Inr p1" "mempool_inv (Suc k) p1 (set held - {held ! j})"
        using xml_pool.release_held [OF Cons.prems(1)] True nth_mem by blast
      then show ?thesis using Cons.IH [of p1 "take j held @ drop (Suc j) held"] remove_nth [OF True Cons.prems(2)] PoolFree True by simp
    qed (use Cons PoolFree in simp)
  qed
qed simp



end
