(* ===== verification/Zstore_XmlQuirks.thy ===== *)
theory Zstore_XmlQuirks
  imports Zstore_XmlRound
begin

text \<open>
  Inputs that the XML library treats in ways its callers may not expect: an entity that is not in the table,
  nesting at the limit, and a closing tag at the top of a document.
\<close>

section \<open>Unknown entities\<close>

lemma get_str_loop_tail:
  assumes "CHR 0x0D \<notin> set t" "CHR ''&'' \<notin> set t"
  shows "get_str_loop flags orig t out = out @ t"
  using assms
proof (induction t arbitrary: out)
  case (Cons ch t)
  have "take 1 t \<noteq> [CHR 0x0D]" using Cons.prems by (cases t) auto
  then show ?case using Cons by auto
qed simp

text \<open>
  An ampersand that starts no known entity is not copied: the result has, in its place, the character
  that the range holds where the output has got to. After an entity has been replaced this is not the ampersand.
\<close>

lemma unknown_entity_stale:
  assumes "str_ok a" and "str_ok t" and "CHR ''&'' \<notin> set t" and "match_entity t = None" and "take 1 t \<noteq> ''#''"
  shows "GetStr TEXT_ELEMENT (esc True a @ CHR ''&'' # t) = c_str (a @ (esc True a @ CHR ''&'' # t) ! length a # t)"
proof -
  define orig where "orig = esc True a @ CHR ''&'' # t"
  have cr: "CHR 0x0D \<notin> set a" "CHR 0x0D \<notin> set t" using assms(1,2) by (auto simp: str_ok_def)
  have "get_str_loop TEXT_ELEMENT orig orig [] = get_str_loop TEXT_ELEMENT orig (CHR ''&'' # t) a"
    using get_str_loop_esc [of TEXT_ELEMENT a "CHR ''&'' # t" orig True "[]"] cr by (simp add: orig_def TEXT_ELEMENT_def)
  also have "\<dots> = get_str_loop TEXT_ELEMENT orig t (a @ [orig ! length a])"
    using assms(4,5) by (simp add: TEXT_ELEMENT_def)
  also have "\<dots> = a @ orig ! length a # t"
    using get_str_loop_tail [OF cr(2) assms(3)] by simp
  finally show ?thesis by (simp add: GetStr_def TEXT_ELEMENT_def orig_def)
qed

lemma unknown_entity_stale_example: "GetStr TEXT_ELEMENT ''&lt;&x'' = ''<lx''"
proof -
  have e: "esc_char True CHR ''<'' = ''&lt;''" by (simp add: esc_char_def entity_flag_def ENTITY_RANGE_def entities_def)
  show ?thesis
    using unknown_entity_stale [of "''<''" "''x''"]
    by (simp add: e str_ok_def INT_MAX_def match_entity_def entities_def StringEqualN_def c_str_def)
qed

section \<open>Nesting\<close>

lemma element_head_open_a:
  "processEntities doc \<Longrightarrow> element_head doc (''a>'' @ rest) = Inr (''a'', [], OPEN, rest)"
  using element_head_open(1) [of "''a''" "[]" doc rest]
  by (simp add: valid_name_def IsNameStartChar_def isalpha_def INT_MAX_def attrs_ok_def attrs_text_def)

lemma nested_loop:
  assumes "default_mode doc" "rest \<noteq> []"
  shows "depth < TINYXML2_MAX_ELEMENT_DEPTH \<Longrightarrow> TINYXML2_MAX_ELEMENT_DEPTH \<le> depth + n \<Longrightarrow>
    \<exists>fuel. parse_loop fuel doc depth is_document first children (concat (replicate n ''<a>'') @ rest) =
      Some (children, Some XML_ELEMENT_DEPTH_EXCEEDED, None)"
proof (induction n arbitrary: depth is_document first children)
  case (Suc n)
  let ?r = "concat (replicate n ''<a>'') @ rest"
  have i: "Identify doc first (concat (replicate (Suc n) ''<a>'') @ rest) = (Some ElementK, ''a>'' @ ?r)"
    using assms(1) by (simp add: Identify_def StringEqualN_def default_mode_def)
  have h: "element_head doc (''a>'' @ ?r) = Inr (''a'', [], OPEN, ?r)"
    using element_head_open_a assms(1) by (simp add: default_mode_def)
  have "\<exists>fuel. XMLElement_ParseDeep fuel doc depth (''a>'' @ ?r) = Some (Inl (Some XML_ELEMENT_DEPTH_EXCEEDED))"
  proof (cases "Suc depth = TINYXML2_MAX_ELEMENT_DEPTH")
    case True
    then show ?thesis using h assms(2) by (intro exI [of _ "Suc 0"]) (simp add: XMLElement_ParseDeep.simps)
  next
    case False
    then obtain fuel where "parse_loop fuel doc (Suc depth) False True [] ?r = Some ([], Some XML_ELEMENT_DEPTH_EXCEEDED, None)"
      using Suc.IH [of "Suc depth"] Suc.prems by fastforce
    then show ?thesis using h assms(2) False by (intro exI [of _ "Suc fuel"]) (simp add: XMLElement_ParseDeep.simps)
  qed
  then obtain fuel where "XMLElement_ParseDeep fuel doc depth (''a>'' @ ?r) = Some (Inl (Some XML_ELEMENT_DEPTH_EXCEEDED))" by blast
  from loop_element_fails [OF i _ this] show ?case by (intro exI [of _ "Suc fuel"]) (simp add: or_parsing_def)
qed simp

lemma parse_buffer_loop:
  assumes "parse_loop fuel (doc\<lparr>writeBOM := False\<rparr>) 1 True True [] p = Some (ks, err, ret)"
    and "p = CHR ''<'' # q" "CHR 0x00 \<notin> set p"
  shows "parse_buffer doc p = Inr (doc\<lparr>writeBOM := False, docKids := ks, errorID := (case err of None \<Rightarrow> errorID doc | Some e \<Rightarrow> e)\<rparr>)"
proof -
  have "ReadBOM (SkipWhiteSpace (c_str p)) = (p, False)"
    using c_str_id [OF assms(3)] assms(2) by (simp add: ReadBOM_def)
  then show ?thesis using loop_unique_result [OF assms(1)] assms(2) by (simp add: parse_buffer_def Let_def split: option.split)
qed

text \<open>
  Nesting is bounded: a document whose elements nest 499 levels or deeper is refused with the error for it,
  whatever follows.
\<close>

lemma deep_nesting_refused:
  assumes "default_mode doc" and "499 \<le> n" and "rest \<noteq> []" and "CHR 0x00 \<notin> set rest"
  shows "\<exists>doc'. Parse doc (Some (concat (replicate n ''<a>'') @ rest)) (-1) = Inr doc' \<and>
     errorID doc' = XML_ELEMENT_DEPTH_EXCEEDED \<and> docKids doc' = []"
proof -
  let ?p = "concat (replicate n ''<a>'') @ rest"
  have n: "?p = CHR ''<'' # ''a>'' @ concat (replicate (n - 1) ''<a>'') @ rest" using assms(2) by (cases n) auto
  have nul: "CHR 0x00 \<notin> set ?p" using assms(4) by auto
  have m: "default_mode ((XMLDocument_Clear doc)\<lparr>writeBOM := False\<rparr>)"
    using assms(1) by (simp add: default_mode_def XMLDocument_Clear_def)
  obtain fuel where "parse_loop fuel ((XMLDocument_Clear doc)\<lparr>writeBOM := False\<rparr>) 1 True True [] ?p =
      Some ([], Some XML_ELEMENT_DEPTH_EXCEEDED, None)"
    using nested_loop [OF m assms(3), of 1 n True True "[]"] assms(2) by (auto simp: TINYXML2_MAX_ELEMENT_DEPTH_def)
  from parse_buffer_loop [OF this n nul] show ?thesis
    using n c_str_id [OF nul] by (auto simp: Parse_def Let_def)
qed

lemma deep_nesting_refused_example:
  "\<exists>doc'. Parse (newXMLDocument True PRESERVE_WHITESPACE) (Some (concat (replicate 499 ''<a>'') @ ''x'')) (-1) = Inr doc' \<and>
     errorID doc' = XML_ELEMENT_DEPTH_EXCEEDED \<and> docKids doc' = []"
  by (rule deep_nesting_refused) (simp_all add: default_mode_def newXMLDocument_def)

section \<open>A closing tag at the top\<close>

text \<open>
  A closing tag at the top of a document ends the parse without an error: what follows it is not read, and
  \<open>Parse\<close> reports success.
\<close>

lemma stray_closing_tag_accepted:
  assumes "default_mode doc" and "valid_name name" and "CHR 0x00 \<notin> set rest"
  shows "\<exists>doc'. Parse doc (Some (''</'' @ name @ ''>'' @ rest)) (-1) = Inr doc' \<and> errorID doc' = XML_SUCCESS \<and> docKids doc' = []"
proof -
  let ?p = "''</'' @ name @ ''>'' @ rest"
  have nul: "CHR 0x00 \<notin> set ?p" using assms(3) name_no_NUL [OF assms(2)] by auto
  have m: "default_mode ((XMLDocument_Clear doc)\<lparr>writeBOM := False\<rparr>)"
    using assms(1) by (simp add: default_mode_def XMLDocument_Clear_def)
  have n: "?p = CHR ''<'' # CHR ''/'' # name @ ''>'' @ rest" by simp
  from parse_buffer_loop [OF closing_tag_ends [OF assms(2) m] n nul] show ?thesis
    using c_str_id [OF nul] by (auto simp: Parse_def Let_def XMLDocument_Clear_def)
qed

lemma stray_closing_tag_accepted_example:
  "\<exists>doc'. Parse (newXMLDocument True PRESERVE_WHITESPACE) (Some (''</'' @ ''a'' @ ''>'' @ ''<b <c'')) (-1) = Inr doc' \<and>
     errorID doc' = XML_SUCCESS \<and> docKids doc' = []"
  by (rule stray_closing_tag_accepted)
    (simp_all add: default_mode_def newXMLDocument_def valid_name_def IsNameStartChar_def isalpha_def INT_MAX_def)

end
