(* ===== verification/Zstore_XmlDelete.thy ===== *)
theory Zstore_XmlDelete
  imports Zstore_XmlLinks "HOL-Library.Multiset"
begin

text \<open>
  Deleting nodes (\<^verbatim>\<open>src/src/tinyxml2.cpp\<close>): the static \<open>XMLNode::DeleteNode\<close> with the destructor of a node,
  \<open>DeleteChild\<close>, \<open>DeleteChildren\<close>, and \<open>XMLDocument::DeleteNode\<close> and \<open>Clear\<close>. The state is the links and the list of the
  nodes given back to their pools, in that order; an access to a node that was given back is a fault. The
  recursion has fuel: twice the number of nodes of a tree is enough to delete it.

  The specification is a tree of the nodes. Deleting it gives every node back once, children before their
  parents, and \<open>Clear\<close> does so for the whole document and for every node that is in no tree.
\<close>

type_synonym del_state = "links \<times> nat list"

section \<open>Operations\<close>

text \<open>The nodes that \<open>Unlink\<close> reads or writes.\<close>

definition unlink_touches :: "nat \<Rightarrow> nat \<Rightarrow> links \<Rightarrow> nat list" where
  "unlink_touches this child h =
     [this, child] @ (case x_prev h child of Some p \<Rightarrow> [p] | None \<Rightarrow> []) @ (case x_next h child of Some q \<Rightarrow> [q] | None \<Rightarrow> [])"

definition checked_Unlink :: "nat \<Rightarrow> nat \<Rightarrow> del_state \<Rightarrow> del_state res" where
  "checked_Unlink this child s =
     (if list_ex (\<lambda>n. n \<in> set (snd s)) (unlink_touches this child (fst s)) then Inl UseAfterFree
      else Inr (Unlink this child (fst s), snd s))"

text \<open>
  \<open>DeleteNode\<close> marks the node, runs its destructor, which deletes the children and unlinks the node from a parent, and
  gives its memory back. A document is its own \<open>x_document\<close>.
\<close>

fun DeleteNode :: "nat \<Rightarrow> nat \<Rightarrow> del_state \<Rightarrow> del_state res"
and DeleteChildren :: "nat \<Rightarrow> nat \<Rightarrow> del_state \<Rightarrow> del_state res" where
  "DeleteNode 0 node s = Inl Unfinished"
| "DeleteNode (Suc fuel) node s =
     (if node \<in> set (snd s) then Inl UseAfterFree
      else
        let s = (if x_document (fst s) node \<noteq> node then (MarkInUse node (fst s), snd s) else s) in
        bindR (DeleteChildren fuel node s) (\<lambda>s.
        bindR (case x_parent (fst s) node of Some p \<Rightarrow> checked_Unlink p node s | None \<Rightarrow> Inr s) (\<lambda>s.
          if node \<in> set (snd s) then Inl InvalidFree else Inr (fst s, snd s @ [node]))))"
| "DeleteChildren 0 this s = Inl Unfinished"
| "DeleteChildren (Suc fuel) this s =
     (case x_first (fst s) this of
        None \<Rightarrow> Inr ((fst s)\<lparr>x_first := (x_first (fst s))(this := None), x_last := (x_last (fst s))(this := None)\<rparr>, snd s)
      | Some child \<Rightarrow>
          bindR (checked_Unlink this child s) (\<lambda>s.
          bindR (DeleteNode fuel child s) (DeleteChildren fuel this)))"

definition DeleteChild :: "nat \<Rightarrow> nat \<Rightarrow> nat \<Rightarrow> del_state \<Rightarrow> del_state res" where
  "DeleteChild fuel this node s = bindR (checked_Unlink this node s) (DeleteNode fuel node)"

definition XMLDocument_DeleteNode :: "nat \<Rightarrow> nat \<Rightarrow> del_state \<Rightarrow> del_state res" where
  "XMLDocument_DeleteNode fuel node s =
     (case x_parent (fst s) node of Some p \<Rightarrow> DeleteChild fuel p node s | None \<Rightarrow> DeleteNode fuel node s)"

fun clear_unlinked :: "nat \<Rightarrow> del_state \<Rightarrow> del_state res" where
  "clear_unlinked 0 s = Inl Unfinished"
| "clear_unlinked (Suc fuel) s =
     (case x_unlinked (fst s) of
        [] \<Rightarrow> Inr s
      | node # _ \<Rightarrow> bindR (XMLDocument_DeleteNode fuel node s) (clear_unlinked fuel))"

definition Clear_nodes :: "nat \<Rightarrow> nat \<Rightarrow> del_state \<Rightarrow> del_state res" where
  "Clear_nodes fuel this s = bindR (DeleteChildren fuel this s) (clear_unlinked fuel)"

section \<open>Trees\<close>

datatype xtree = XTree (xroot: nat) (xsubs: "xtree list")

fun post :: "xtree \<Rightarrow> nat list" where
  "post (XTree n ts) = concat (map post ts) @ [n]"

fun holds :: "(nat \<Rightarrow> nat list) \<Rightarrow> xtree \<Rightarrow> bool" where
  "holds K (XTree n ts) \<longleftrightarrow> K n = map xroot ts \<and> list_all (holds K) ts"

abbreviation posts :: "xtree list \<Rightarrow> nat list" where
  "posts ts \<equiv> concat (map post ts)"

definition cleared :: "(nat \<Rightarrow> nat list) \<Rightarrow> nat set \<Rightarrow> nat \<Rightarrow> nat list" where
  "cleared K S = (\<lambda>x. if x \<in> S then [] else K x)"

lemma xroot_in_post: "xroot t \<in> set (post t)"
  by (cases t) simp

lemma holds_cong:
  "holds K t \<Longrightarrow> (\<And>x. x \<in> set (post t) \<Longrightarrow> K' x = K x) \<Longrightarrow> holds K' t"
  by (induction t) (auto simp: list_all_iff)

lemma Unlink_keeps [simp]:
  "x_document (Unlink p c h) = x_document h" "x_unlinked (Unlink p c h) = x_unlinked h" "x_parent (Unlink p c h) c = None"
  by (auto simp: Unlink_def Let_def split: option.split)

lemma cleared_parentless:
  assumes "represents h' (cleared K S)" "represents h K" "x_parent h n = None"
  shows "x_parent h' n = None"
proof (rule ccontr)
  assume "x_parent h' n \<noteq> None"
  then obtain p where "n \<in> set (cleared K S p)" using represents_parent [OF assms(1)] by auto
  then have "n \<in> set (K p)" by (auto simp: cleared_def split: if_splits)
  then show False using represents_parent [OF assms(2), of n p] assms(3) by simp
qed

lemma index_of_None: "x \<notin> set xs \<Longrightarrow> index_of x xs = None"
  by (induction xs) auto

lemma SwapRemove_subset: "i < length xs \<Longrightarrow> set (SwapRemove i xs) \<subseteq> set xs"
  using set_update_subset_insert [of xs i "last xs"] by (cases "xs = []") (auto simp: SwapRemove_def dest!: in_set_butlastD)

lemma index_of_Some: "index_of x xs = Some i \<Longrightarrow> i < length xs"
  by (induction xs arbitrary: i) (auto split: if_splits)

lemma MarkInUse_subset: "set (x_unlinked (MarkInUse n h)) \<subseteq> set (x_unlinked h)"
proof (cases "index_of n (x_unlinked h)")
  case (Some i)
  from SwapRemove_subset [OF index_of_Some [OF this]] show ?thesis using Some by (simp add: MarkInUse_def)
qed (simp add: MarkInUse_def)

lemma MarkInUse_other: "n \<notin> set (x_unlinked h) \<Longrightarrow> MarkInUse n h = h"
  by (simp add: MarkInUse_def index_of_None)

lemma represents_MarkInUse [simp]: "represents (MarkInUse n h) K = represents h K"
  by (simp add: represents_def linked_def)

lemma represents_clear_ends:
  "represents h K \<Longrightarrow> x_first h this = None \<Longrightarrow>
    represents (h\<lparr>x_first := (x_first h)(this := None), x_last := (x_last h)(this := None)\<rparr>) K"
  by (auto simp: represents_def linked_def hd_or_def split: list.splits)


section \<open>Deleting a tree\<close>

definition deletes :: "xtree \<Rightarrow> bool" where
  "deletes t \<longleftrightarrow> (\<forall>h F K fuel. represents h K \<longrightarrow> holds K t \<longrightarrow> x_parent h (xroot t) = None \<longrightarrow> distinct (post t) \<longrightarrow>
     set F \<inter> set (post t) = {} \<longrightarrow> set (x_unlinked h) \<inter> (set (post t) - {xroot t}) = {} \<longrightarrow>
     (\<forall>n \<in> set (post t). x_document h n \<noteq> n) \<longrightarrow> 2 * length (post t) \<le> fuel \<longrightarrow>
     (\<exists>h'. DeleteNode fuel (xroot t) (h, F) = Inr (h', F @ post t) \<and> represents h' (cleared K (set (post t))) \<and>
        x_unlinked h' = x_unlinked (MarkInUse (xroot t) h) \<and> x_document h' = x_document h))"

lemma deletesD:
  assumes "deletes t" "represents h K" "holds K t" "x_parent h (xroot t) = None" "distinct (post t)" "set F \<inter> set (post t) = {}"
    "set (x_unlinked h) \<inter> (set (post t) - {xroot t}) = {}" "\<forall>n \<in> set (post t). x_document h n \<noteq> n" "2 * length (post t) \<le> fuel"
  obtains h' where "DeleteNode fuel (xroot t) (h, F) = Inr (h', F @ post t)" "represents h' (cleared K (set (post t)))"
    "x_unlinked h' = x_unlinked (MarkInUse (xroot t) h)" "x_document h' = x_document h"
  using assms unfolding deletes_def by blast

lemma checked_Unlink_first:
  assumes "represents h K" "K this = c # ks" "this \<notin> set F" "set (c # ks) \<inter> set F = {}"
  shows "checked_Unlink this c (h, F) = Inr (Unlink this c h, F)" "represents (Unlink this c h) (K(this := ks))"
proof -
  have l: "linked h this (c # ks)" using assms(1,2) by (metis represents_def)
  then have "x_prev h c = None" "x_next h c = hd_or None ks" by (simp_all add: linked_def)
  then show "checked_Unlink this c (h, F) = Inr (Unlink this c h, F)"
    using assms(3,4) by (cases ks) (auto simp: checked_Unlink_def unlink_touches_def)
  have p: "x_parent h c = Some this" using l by (simp add: linked_def)
  have "spec_unlink c K = K(this := ks)"
  proof
    fix x
    have "c \<notin> set (K x)" if "x \<noteq> this" using represents_parent [OF assms(1)] p that by (metis option.inject)
    then show "spec_unlink c K x = (K(this := ks)) x" using assms(2) by (simp add: spec_unlink_def remove1_idem)
  qed
  then show "represents (Unlink this c h) (K(this := ks))" using Unlink_refines [OF assms(1) p] by simp
qed

lemma DeleteChildren_trees:
  assumes "\<And>t. t \<in> set ts \<Longrightarrow> deletes t" "represents h K" "K this = map xroot ts" "list_all (holds K) ts"
    "distinct (posts ts)" "this \<notin> set (posts ts)" "set F \<inter> insert this (set (posts ts)) = {}"
    "set (x_unlinked h) \<inter> set (posts ts) = {}" "\<forall>n \<in> set (posts ts). x_document h n \<noteq> n" "2 * length (posts ts) < fuel"
  shows "\<exists>h'. DeleteChildren fuel this (h, F) = Inr (h', F @ posts ts) \<and> represents h' (cleared K (insert this (set (posts ts)))) \<and>
    x_unlinked h' = x_unlinked h \<and> x_document h' = x_document h"
  using assms
proof (induction ts arbitrary: h K F fuel)
  case Nil
  have "x_first h this = None" using Nil.prems(2,3) by (simp add: represents_def linked_def)
  moreover have "cleared K {this} = K" using Nil.prems(3) by (auto simp: cleared_def fun_eq_iff)
  ultimately show ?case using represents_clear_ends [OF Nil.prems(2)] Nil.prems(10) by (cases fuel) auto
next
  case (Cons t ts)
  obtain f where fuel: "fuel = Suc f" "2 * length (post t) + 2 * length (posts ts) \<le> f" using Cons.prems(10) by (cases fuel) auto
  let ?c = "xroot t" and ?K1 = "K(this := map xroot ts)"
  have sub: "set (map xroot (t # ts)) \<subseteq> set (posts (t # ts))" using xroot_in_post by fastforce
  then have "set (?c # map xroot ts) \<inter> set F = {}" using Cons.prems(7) by auto
  note u = checked_Unlink_first [OF Cons.prems(2) _ _ this, of this] Cons.prems(3,7)
  have h1: "represents (Unlink this ?c h) ?K1" "checked_Unlink this ?c (h, F) = Inr (Unlink this ?c h, F)" using u by simp_all
  have dis: "set (post t) \<inter> set (posts ts) = {}" "this \<notin> set (post t)" "this \<notin> set (posts ts)" using Cons.prems(5,6) by auto
  have "holds ?K1 t" using Cons.prems(4) dis(2) by (auto intro: holds_cong)
  have pre: "set F \<inter> set (post t) = {}" "set (x_unlinked (Unlink this ?c h)) \<inter> (set (post t) - {?c}) = {}"
    "\<forall>n \<in> set (post t). x_document (Unlink this ?c h) n \<noteq> n" "distinct (post t)" "2 * length (post t) \<le> f"
    using Cons.prems(5,7-9) fuel(2) by auto
  from deletesD [OF Cons.prems(1) h1(1) \<open>holds ?K1 t\<close> _ pre(4,1-3,5)] obtain h2 where h2:
    "DeleteNode f ?c (Unlink this ?c h, F) = Inr (h2, F @ post t)" "represents h2 (cleared ?K1 (set (post t)))"
    "x_unlinked h2 = x_unlinked (MarkInUse ?c (Unlink this ?c h))" "x_document h2 = x_document h"
    by auto
  have ul: "x_unlinked h2 = x_unlinked h" using h2(3) xroot_in_post [of t] Cons.prems(8) by (subst (asm) MarkInUse_other) auto
  let ?K2 = "cleared ?K1 (set (post t))"
  have K2: "list_all (holds ?K2) ts" "?K2 this = map xroot ts"
    using Cons.prems(4) dis by (fastforce simp: list_all_iff cleared_def intro: holds_cong)+
  have "1 \<le> length (post t)" by (cases t) simp
  then have pre2: "distinct (posts ts)" "this \<notin> set (posts ts)" "set (F @ post t) \<inter> insert this (set (posts ts)) = {}"
    "set (x_unlinked h2) \<inter> set (posts ts) = {}" "\<forall>n \<in> set (posts ts). x_document h2 n \<noteq> n" "2 * length (posts ts) < f"
    using Cons.prems(5,7-9) dis fuel(2) ul h2(4) by auto
  obtain h3 where h3: "DeleteChildren f this (h2, F @ post t) = Inr (h3, (F @ post t) @ posts ts)"
    "represents h3 (cleared ?K2 (insert this (set (posts ts))))" "x_unlinked h3 = x_unlinked h2" "x_document h3 = x_document h2"
    using Cons.IH [OF Cons.prems(1) h2(2) K2(2,1) pre2] by auto
  have "cleared (cleared ?K1 (set (post t))) (insert this (set (posts ts))) = cleared K (insert this (set (posts (t # ts))))"
    by (auto simp: cleared_def fun_eq_iff)
  moreover have "x_first h this = Some ?c" using Cons.prems(2,3) by (simp add: represents_def linked_def)
  ultimately show ?case using h1(2) h2(1,4) h3 ul fuel(1) by simp
qed


lemma deletes_tree: "deletes t"
proof (induction t)
  case (XTree n ts)
  show ?case unfolding deletes_def
  proof (intro allI impI)
    fix h :: links and F K fuel
    assume rep: "represents h K" and hold: "holds K (XTree n ts)" and par: "x_parent h (xroot (XTree n ts)) = None"
      and dis: "distinct (post (XTree n ts))" and F: "set F \<inter> set (post (XTree n ts)) = {}"
      and ul: "set (x_unlinked h) \<inter> (set (post (XTree n ts)) - {xroot (XTree n ts)}) = {}"
      and doc: "\<forall>n \<in> set (post (XTree n ts)). x_document h n \<noteq> n" and fuel: "2 * length (post (XTree n ts)) \<le> fuel"
    obtain f where f: "fuel = Suc f" "2 * length (posts ts) < f" using fuel by (cases fuel) auto
    let ?h = "MarkInUse n h" and ?S = "insert n (set (posts ts))"
    have pre: "set (x_unlinked ?h) \<inter> set (posts ts) = {}" "\<forall>n \<in> set (posts ts). x_document ?h n \<noteq> n" "represents ?h K"
      "K n = map xroot ts" "list_all (holds K) ts" "distinct (posts ts)" "n \<notin> set (posts ts)" "set F \<inter> ?S = {}"
      using rep hold dis F ul doc MarkInUse_subset [of n h] by auto
    obtain h' where h': "DeleteChildren f n (?h, F) = Inr (h', F @ posts ts)" "represents h' (cleared K ?S)"
      "x_unlinked h' = x_unlinked ?h" "x_document h' = x_document ?h"
      using DeleteChildren_trees [OF XTree.IH pre(3-8) pre(1,2) f(2)] by blast
    have "x_parent h' n = None" using cleared_parentless [OF h'(2) rep] par by simp
    moreover have "n \<notin> set F" "x_document h n \<noteq> n" using F doc by auto
    ultimately have "DeleteNode fuel n (h, F) = Inr (h', F @ posts ts @ [n])" using h'(1) f(1) pre(7) by simp
    then show "\<exists>h'. DeleteNode fuel (xroot (XTree n ts)) (h, F) = Inr (h', F @ post (XTree n ts)) \<and>
        represents h' (cleared K (set (post (XTree n ts)))) \<and>
        x_unlinked h' = x_unlinked (MarkInUse (xroot (XTree n ts)) h) \<and> x_document h' = x_document h"
      using h'(2-4) by auto
  qed
qed


section \<open>Clearing a document\<close>

lemma mset_posts: "mset us = mset vs \<Longrightarrow> mset (posts us) = mset (posts vs)"
  by (simp only: mset_concat mset_map sum_mset_sum_list [symmetric])

lemma mset_SwapRemove: "mset (SwapRemove 0 (x # xs)) = mset xs"
  by (cases xs rule: rev_cases) (simp_all add: SwapRemove_def)

lemma map_SwapRemove: "xs \<noteq> [] \<Longrightarrow> map f (SwapRemove 0 xs) = SwapRemove 0 (map f xs)"
  by (simp add: SwapRemove_def map_butlast map_update last_map)

lemma clear_unlinked_trees:
  assumes "represents h K" "list_all (holds K) us" "x_unlinked h = map xroot us" "\<forall>t \<in> set us. x_parent h (xroot t) = None"
    "distinct (posts us)" "set F \<inter> set (posts us) = {}" "\<forall>n \<in> set (posts us). x_document h n \<noteq> n" "2 * length (posts us) < fuel"
  shows "\<exists>h' F'. clear_unlinked fuel (h, F) = Inr (h', F @ F') \<and> mset F' = mset (posts us) \<and> x_unlinked h' = [] \<and>
    x_document h' = x_document h \<and> represents h' (cleared K (set (posts us)))"
  using assms
proof (induction us arbitrary: h K F fuel rule: length_induct)
  case (1 us)
  show ?case
  proof (cases us)
    case Nil
    moreover have "cleared K {} = K" by (simp add: cleared_def)
    ultimately show ?thesis using 1 by (cases fuel) auto
  next
    case (Cons t us0)
    define vs where "vs = SwapRemove 0 us"
    obtain f where f: "fuel = Suc f" using 1(9) by (cases fuel) auto
    have m: "mset vs = mset us0" using Cons mset_SwapRemove by (simp add: vs_def)
    note mp = mset_posts [OF m]
    have sv: "set vs = set us0" "set (posts vs) = set (posts us0)" "distinct (posts vs) = distinct (posts us0)" "length (posts vs) = length (posts us0)" "length vs < length us"
      using mset_eq_setD [OF m] mset_eq_setD [OF mp] mset_eq_imp_distinct_iff [OF mp] mset_eq_length [OF mp] mset_eq_length [OF m] Cons by auto
    have dis: "set (post t) \<inter> set (posts us0) = {}" using 1(6) Cons by auto
    have roots: "xroot x \<in> set (posts us0)" if "x \<in> set us0" for x using xroot_in_post that by auto
    have ul: "set (x_unlinked h) \<inter> (set (post t) - {xroot t}) = {}" using 1(4) Cons dis roots by auto
    have pre: "holds K t" "x_parent h (xroot t) = None" "distinct (post t)" "set F \<inter> set (post t) = {}"
      "\<forall>n \<in> set (post t). x_document h n \<noteq> n" "2 * length (post t) \<le> f" using 1(3,5-9) Cons f by auto
    obtain h2 where h2: "DeleteNode f (xroot t) (h, F) = Inr (h2, F @ post t)" "represents h2 (cleared K (set (post t)))"
      "x_unlinked h2 = x_unlinked (MarkInUse (xroot t) h)" "x_document h2 = x_document h"
      using deletesD [OF deletes_tree 1(2) pre(1-4) ul pre(5,6)] by blast
    have "x_unlinked h2 = map xroot vs" using h2(3) 1(4) Cons by (simp add: MarkInUse_def vs_def map_SwapRemove)
    moreover have "list_all (holds (cleared K (set (post t)))) vs"
    proof -
      have "holds (cleared K (set (post t))) x" if "x \<in> set us0" for x
        by (rule holds_cong [of K]) (use 1(3) Cons dis that in \<open>auto simp: list_all_iff cleared_def\<close>)
      then show ?thesis using sv(1) by (simp add: list_all_iff)
    qed
    moreover have "\<forall>x \<in> set vs. x_parent h2 (xroot x) = None"
      using cleared_parentless [OF h2(2) 1(2)] 1(5) Cons sv(1) by simp
    moreover have "1 \<le> length (post t)" by (cases t) simp
    then have "2 * length (posts vs) < f" using 1(9) Cons f sv(4) by simp
    moreover have "set (F @ post t) \<inter> set (posts vs) = {}" "distinct (posts vs)" "\<forall>n \<in> set (posts vs). x_document h2 n \<noteq> n"
      using 1(6-8) Cons dis sv h2(4) by auto
    ultimately obtain h3 F3 where h3: "clear_unlinked f (h2, F @ post t) = Inr (h3, (F @ post t) @ F3)" "mset F3 = mset (posts vs)"
      "x_unlinked h3 = []" "represents h3 (cleared (cleared K (set (post t))) (set (posts vs)))" "x_document h3 = x_document h2"
      using 1(1) [rule_format, OF sv(5) h2(2)] by blast
    have "cleared (cleared K (set (post t))) (set (posts vs)) = cleared K (set (posts us))"
      using Cons sv(2) by (auto simp: cleared_def fun_eq_iff)
    moreover have "mset (post t @ F3) = mset (posts us)" using h3(2) mp Cons by simp
    moreover have "clear_unlinked fuel (h, F) = Inr (h3, F @ post t @ F3)"
      using f 1(4) Cons h2(1) h3(1) pre(2) by (simp add: XMLDocument_DeleteNode_def)
    ultimately show ?thesis using h2(4) h3(3-5) by metis
  qed
qed

text \<open>
  Clearing a document gives every node of its tree, and every node that is in no tree with all below it, back
  to its pool exactly once.
\<close>

lemma Clear_frees:
  assumes "represents h K" and "K d = map xroot ts" and "list_all (holds K) (ts @ us)"
    and "x_unlinked h = map xroot us" and "\<forall>t \<in> set us. x_parent h (xroot t) = None"
    and "distinct (d # posts (ts @ us))" and "\<forall>n \<in> set (posts (ts @ us)). x_document h n = d" and "2 * length (posts (ts @ us)) < fuel"
    and "set F \<inter> insert d (set (posts (ts @ us))) = {}"
  shows "\<exists>h' F'. Clear_nodes fuel d (h, F) = Inr (h', F @ F') \<and> mset F' = mset (posts (ts @ us)) \<and>
    x_unlinked h' = [] \<and> x_document h' = x_document h \<and> represents h' (cleared K (insert d (set (posts (ts @ us)))))"
proof -
  have roots: "set (map xroot us) \<subseteq> set (posts us)" using xroot_in_post by fastforce
  have dis: "d \<notin> set (posts ts)" "d \<notin> set (posts us)" "distinct (posts ts)" "distinct (posts us)" "set (posts ts) \<inter> set (posts us) = {}"
    using assms(6) by auto
  have doc: "\<forall>n \<in> set (posts ts) \<union> set (posts us). x_document h n \<noteq> n" using assms(7) dis by auto
  have ul: "set (x_unlinked h) \<inter> set (posts ts) = {}" using roots dis(5) assms(4) by auto
  have l: "list_all (holds K) ts" "list_all (holds K) us" using assms(3) by auto
  have fuel: "2 * length (posts ts) < fuel" "2 * length (posts us) < fuel" using assms(8) by auto
  have docs: "\<forall>n \<in> set (posts ts). x_document h n \<noteq> n" using doc by blast
  have F: "set F \<inter> insert d (set (posts ts)) = {}" "set (F @ posts ts) \<inter> set (posts us) = {}" using assms(9) dis(5) by auto
  obtain h1 where h1: "DeleteChildren fuel d (h, F) = Inr (h1, F @ posts ts)" "represents h1 (cleared K (insert d (set (posts ts))))"
    "x_unlinked h1 = x_unlinked h" "x_document h1 = x_document h"
    using DeleteChildren_trees [OF deletes_tree assms(1,2) l(1) dis(3,1) F(1) ul docs fuel(1)] by auto
  let ?K = "cleared K (insert d (set (posts ts)))"
  have hold: "holds ?K x" if "x \<in> set us" for x
    by (rule holds_cong [of K]) (use l(2) dis that in \<open>auto simp: list_all_iff cleared_def\<close>)
  have pre: "list_all (holds ?K) us" "x_unlinked h1 = map xroot us" "\<forall>t \<in> set us. x_parent h1 (xroot t) = None"
    "\<forall>n \<in> set (posts us). x_document h1 n \<noteq> n"
    using hold h1(3,4) assms(4,5) cleared_parentless [OF h1(2) assms(1)] doc by (auto simp: list_all_iff)
  obtain h2 F2 where h2: "clear_unlinked fuel (h1, F @ posts ts) = Inr (h2, (F @ posts ts) @ F2)" "mset F2 = mset (posts us)"
    "x_unlinked h2 = []" "x_document h2 = x_document h1" "represents h2 (cleared ?K (set (posts us)))"
    using clear_unlinked_trees [OF h1(2) pre(1-3) dis(4) F(2) pre(4) fuel(2)] by blast
  have "cleared ?K (set (posts us)) = cleared K (insert d (set (posts (ts @ us))))" by (auto simp: cleared_def fun_eq_iff)
  moreover have "mset (posts ts @ F2) = mset (posts (ts @ us))" using h2(2) by simp
  moreover have "Clear_nodes fuel d (h, F) = Inr (h2, F @ posts ts @ F2)" using h1(1) h2(1) by (simp add: Clear_nodes_def)
  ultimately show ?thesis using h1(4) h2(3-5) by metis
qed

end
