(* ===== verification/Zstore_XmlLife.thy ===== *)
theory Zstore_XmlLife
  imports Zstore_XmlDelete
begin

text \<open>
  The life of the nodes of a document, from \<open>CreateUnlinkedNode\<close> over the insertions to the deletion of single nodes and
  of all. The operations are those of \<open>Zstore_XmlLinks\<close> and \<open>Zstore_XmlDelete\<close>; the specification keeps the lists of children, the set of
  nodes of the document and the set of all nodes that were ever created. Between them is the invariant \<open>doc_inv\<close>: the
  pointers form the lists, no node is below itself, the nodes in no list are those of \<^verbatim>\<open>_unlinked\<close>, and every node
  that was created is either a node of the document or was freed once.
\<close>

section \<open>Operations\<close>

definition new_links :: "nat \<Rightarrow> links" where
  "new_links d = \<lparr>x_document = (\<lambda>_. d), x_parent = (\<lambda>_. None), x_first = (\<lambda>_. None), x_last = (\<lambda>_. None),
     x_prev = (\<lambda>_. None), x_next = (\<lambda>_. None), x_unlinked = []\<rparr>"

text \<open>The pool hands out the item \<open>n\<close>, which may have been freed before; the constructor clears the links.\<close>

definition CreateUnlinkedNode :: "nat \<Rightarrow> nat \<Rightarrow> del_state \<Rightarrow> del_state" where
  "CreateUnlinkedNode d n s =
     (let h = fst s in
      (h\<lparr>x_document := (x_document h)(n := d), x_parent := (x_parent h)(n := None), x_first := (x_first h)(n := None),
         x_last := (x_last h)(n := None), x_prev := (x_prev h)(n := None), x_next := (x_next h)(n := None),
         x_unlinked := x_unlinked h @ [n]\<rparr>, removeAll n (snd s)))"

datatype doc_op =
    OpCreate nat
  | OpInsertEnd nat nat
  | OpInsertFirst nat nat
  | OpInsertAfter nat nat nat
  | OpDelete nat
  | OpClear

fun doc_run :: "nat \<Rightarrow> nat \<Rightarrow> doc_op \<Rightarrow> del_state \<Rightarrow> del_state res" where
  "doc_run fuel d (OpCreate n) s = Inr (CreateUnlinkedNode d n s)"
| "doc_run fuel d (OpInsertEnd this a) s = Inr (snd (InsertEndChild_link this a (fst s)), snd s)"
| "doc_run fuel d (OpInsertFirst this a) s = Inr (snd (InsertFirstChild_link this a (fst s)), snd s)"
| "doc_run fuel d (OpInsertAfter this b a) s = bindR (InsertAfterChild this b a (fst s)) (\<lambda>(r, h). Inr (h, snd s))"
| "doc_run fuel d (OpDelete n) s = XMLDocument_DeleteNode fuel n s"
| "doc_run fuel d OpClear s = Clear_nodes fuel d s"

section \<open>Specification\<close>

type_synonym forest = "(nat \<Rightarrow> nat list) \<times> nat set \<times> nat set"

definition edges :: "(nat \<Rightarrow> nat list) \<Rightarrow> (nat \<times> nat) set" where
  "edges K = {(c, p). c \<in> set (K p)}"

definition below :: "(nat \<Rightarrow> nat list) \<Rightarrow> nat \<Rightarrow> nat set" where
  "below K n = {y. (y, n) \<in> (edges K)\<^sup>*}"

fun spec_op :: "doc_op \<Rightarrow> forest \<Rightarrow> forest" where
  "spec_op (OpCreate n) (K, N, C) = (K, insert n N, insert n C)"
| "spec_op (OpInsertEnd this a) (K, N, C) = (spec_insert_end this a K, N, C)"
| "spec_op (OpInsertFirst this a) (K, N, C) = (spec_insert_first this a K, N, C)"
| "spec_op (OpInsertAfter this b a) (K, N, C) = (spec_insert_after this b a K, N, C)"
| "spec_op (OpDelete n) (K, N, C) = (cleared (spec_unlink n K) (below K n), N - below K n, C)"
| "spec_op OpClear (K, N, C) = ((\<lambda>_. []), {}, C)"

text \<open>
  What a caller has to respect: it uses nodes of the document, does not insert a node below itself, and does not insert the last child after the
  child that it follows. The pool hands out an item that is not in use.
\<close>

fun allowed :: "nat \<Rightarrow> doc_op \<Rightarrow> forest \<Rightarrow> bool" where
  "allowed d (OpCreate n) (K, N, C) \<longleftrightarrow> n \<notin> insert d N"
| "allowed d (OpInsertEnd this a) (K, N, C) \<longleftrightarrow> this \<in> insert d N \<and> a \<in> N \<and> this \<notin> below K a"
| "allowed d (OpInsertFirst this a) (K, N, C) \<longleftrightarrow> this \<in> insert d N \<and> a \<in> N \<and> this \<notin> below K a"
| "allowed d (OpInsertAfter this b a) (K, N, C) \<longleftrightarrow>
     this \<in> insert d N \<and> a \<in> N \<and> this \<notin> below K a \<and> b \<in> set (K this) \<and> (\<forall>xs. K this \<noteq> xs @ [b, a])"
| "allowed d (OpDelete n) (K, N, C) \<longleftrightarrow> n \<in> N"
| "allowed d OpClear (K, N, C) \<longleftrightarrow> True"

fun doc_inv :: "nat \<Rightarrow> del_state \<Rightarrow> forest \<Rightarrow> bool" where
  "doc_inv d (h, F) (K, N, C) \<longleftrightarrow>
     represents h K \<and> finite N \<and> d \<notin> N \<and> (\<forall>x. set (K x) \<subseteq> N) \<and> (\<forall>x. x \<notin> insert d N \<longrightarrow> K x = []) \<and> acyclic (edges K) \<and>
     (\<forall>n \<in> insert d N. x_document h n = d) \<and>
     distinct (x_unlinked h) \<and> set (x_unlinked h) = {n \<in> N. \<forall>x. n \<notin> set (K x)} \<and>
     distinct F \<and> set F \<inter> insert d N = {} \<and> C = N \<union> set F"

section \<open>Forests\<close>

lemma finite_edges: "finite N \<Longrightarrow> \<forall>x. set (K x) \<subseteq> N \<Longrightarrow> \<forall>x. x \<notin> insert d N \<longrightarrow> K x = [] \<Longrightarrow> finite (edges K)"
proof -
  assume a: "finite N" "\<forall>x. set (K x) \<subseteq> N" "\<forall>x. x \<notin> insert d N \<longrightarrow> K x = []"
  have "edges K \<subseteq> N \<times> insert d N"
  proof
    fix e
    assume "e \<in> edges K"
    then obtain c p where e: "e = (c, p)" "c \<in> set (K p)" by (auto simp: edges_def)
    then have "p \<in> insert d N" using a(3) by fastforce
    then show "e \<in> N \<times> insert d N" using e a(2) by blast
  qed
  then show "finite (edges K)" using a(1) by (meson finite_SigmaI finite_insert finite_subset)
qed

lemma single_valued_edges: "represents h K \<Longrightarrow> single_valued (edges K)"
  using represents_disjoint by (auto simp: edges_def single_valued_def)

lemma below_root: "x \<in> below K x"
  by (simp add: below_def)

lemma post_below: "holds K t \<Longrightarrow> set (post t) = below K (xroot t)"
proof (induction t)
  case (XTree n ts)
  have IH: "set (post t) = below K (xroot t)" if "t \<in> set ts" for t
    using XTree that by (auto simp: list_all_iff)
  have "y \<in> below K n \<longleftrightarrow> y = n \<or> (\<exists>t \<in> set ts. y \<in> below K (xroot t))" for y
  proof -
    have "y \<in> below K n \<longleftrightarrow> y = n \<or> (\<exists>c \<in> set (K n). y \<in> below K c)"
      unfolding below_def by (auto simp: edges_def elim: rtranclE intro: rtrancl_into_rtrancl)
    then show ?thesis using XTree.prems by auto
  qed
  then show ?case using IH by auto
qed

text \<open>In a finite forest every node has a tree.\<close>

lemma tree_exists:
  assumes "wf (edges K)" shows "\<exists>t. xroot t = x \<and> holds K t"
  using assms
proof (induction x rule: wf_induct_rule)
  case (less x)
  then have "\<forall>c \<in> set (K x). \<exists>t. xroot t = c \<and> holds K t" by (auto simp: edges_def)
  then obtain f where f: "\<forall>c \<in> set (K x). xroot (f c) = c \<and> holds K (f c)" by metis
  then have "map (xroot \<circ> f) (K x) = K x" by (intro map_idI) simp
  then show ?case using f by (intro exI [of _ "XTree x (map f (K x))"]) (auto simp: list_all_iff)
qed

lemma distinct_posts:
  assumes "single_valued (edges K)" "list_all (holds K) ts" "\<And>t. t \<in> set ts \<Longrightarrow> distinct (post t)" "distinct (map xroot ts)"
    "\<And>a b. a \<in> set (map xroot ts) \<Longrightarrow> b \<in> set (map xroot ts) \<Longrightarrow> a \<noteq> b \<Longrightarrow> a \<notin> below K b"
  shows "distinct (posts ts)"
  using assms
proof (induction ts)
  case (Cons t ts)
  have "set (post t) \<inter> set (post u) = {}" if u: "u \<in> set ts" for u
  proof (rule ccontr)
    assume "set (post t) \<inter> set (post u) \<noteq> {}"
    then obtain y where "y \<in> below K (xroot t)" "y \<in> below K (xroot u)"
      using post_below Cons.prems(2) u by (fastforce simp: list_all_iff)
    then have "xroot t \<in> below K (xroot u) \<or> xroot u \<in> below K (xroot t)"
      using single_valued_confluent [OF Cons.prems(1)] by (auto simp: below_def)
    moreover have "xroot t \<noteq> xroot u" using Cons.prems(4) u by auto
    ultimately show False using Cons.prems(5) u by auto
  qed
  moreover have "distinct (posts ts)" using Cons by auto
  ultimately show ?case using Cons.prems(3) by auto
qed simp

lemma siblings_apart:
  assumes "single_valued (edges K)" "acyclic (edges K)" "a \<in> set (K p)" "b \<in> set (K p)" "a \<noteq> b"
  shows "a \<notin> below K b"
proof
  assume "a \<in> below K b"
  then have "(a, b) \<in> (edges K)\<^sup>*" by (simp add: below_def)
  then obtain q where q: "(a, q) \<in> edges K" "(q, b) \<in> (edges K)\<^sup>*" using assms(5) by (meson converse_rtranclE)
  have "(a, p) \<in> edges K" "(b, p) \<in> edges K" using assms(3,4) by (auto simp: edges_def)
  then have "q = p" using q(1) assms(1) by (meson single_valuedD)
  then have "(p, p) \<in> (edges K)\<^sup>+" using q(2) \<open>(b, p) \<in> edges K\<close> by (meson rtrancl_into_trancl1)
  then show False using assms(2) by (simp add: acyclic_def)
qed

lemma post_distinct:
  assumes "single_valued (edges K)" "acyclic (edges K)" "\<And>x. distinct (K x)"
  shows "holds K t \<Longrightarrow> distinct (post t)"
proof (induction t)
  case (XTree n ts)
  have K: "K n = map xroot ts" "list_all (holds K) ts" using XTree.prems by auto
  have "distinct (posts ts)"
  proof (rule distinct_posts [OF assms(1) K(2)])
    show "distinct (post t)" if "t \<in> set ts" for t using XTree.IH that K(2) by (auto simp: list_all_iff)
    show "distinct (map xroot ts)" using assms(3) [of n] K(1) by simp
    show "a \<notin> below K b" if "a \<in> set (map xroot ts)" "b \<in> set (map xroot ts)" "a \<noteq> b" for a b
      using siblings_apart [OF assms(1,2)] that K(1) by metis
  qed
  moreover have "n \<notin> set (posts ts)"
  proof
    assume "n \<in> set (posts ts)"
    then obtain t where "t \<in> set ts" "n \<in> below K (xroot t)" using post_below K(2) by (fastforce simp: list_all_iff)
    then have "(n, xroot t) \<in> (edges K)\<^sup>*" "(xroot t, n) \<in> edges K" using K(1) by (auto simp: below_def edges_def)
    then show False using assms(2) by (meson acyclic_def rtrancl_into_trancl1)
  qed
  ultimately show ?case by simp
qed


section \<open>Creating and inserting\<close>

lemma inv_represents:
  assumes "doc_inv d (h, F) (K, N, C)"
  shows "represents h K" "single_valued (edges K)" "acyclic (edges K)" "wf (edges K)" "\<And>x. distinct (K x)"
    "\<And>c x. x_parent h c = Some x \<longleftrightarrow> c \<in> set (K x)"
proof -
  have i: "represents h K" "finite N" "\<forall>x. set (K x) \<subseteq> N" "\<forall>x. x \<notin> insert d N \<longrightarrow> K x = []" "acyclic (edges K)" using assms by auto
  show "represents h K" "single_valued (edges K)" "acyclic (edges K)" "wf (edges K)"
    using i single_valued_edges finite_edges [OF i(2-4)] finite_acyclic_wf by auto
  show "\<And>x. distinct (K x)" using i(1) by (simp add: represents_def linked_def)
  show "\<And>c x. x_parent h c = Some x \<longleftrightarrow> c \<in> set (K x)" using represents_parent [OF i(1)] .
qed

lemma inv_create:
  assumes "doc_inv d (h, F) (K, N, C)" "n \<notin> insert d N"
  shows "doc_inv d (CreateUnlinkedNode d n (h, F)) (K, insert n N, insert n C)"
proof -
  have i: "\<forall>x. set (K x) \<subseteq> N" "K n = []" using assms by auto
  define h' where "h' = fst (CreateUnlinkedNode d n (h, F))"
  have h': "CreateUnlinkedNode d n (h, F) = (h', removeAll n F)"
    "x_parent h' = (x_parent h)(n := None)" "x_first h' = (x_first h)(n := None)" "x_last h' = (x_last h)(n := None)"
    "x_prev h' = (x_prev h)(n := None)" "x_next h' = (x_next h)(n := None)" "x_document h' = (x_document h)(n := d)"
    "x_unlinked h' = x_unlinked h @ [n]"
    by (simp_all add: CreateUnlinkedNode_def Let_def h'_def)
  have n: "n \<notin> set (K x)" for x using i(1) assms(2) by auto
  have ends: "x_first h n = None" "x_last h n = None" using inv_represents(1) [OF assms(1)] i(2) by (auto simp: represents_def linked_def dest!: spec [of _ n])
  have "linked h' x (K x)" for x
    by (rule linked_update_free [of h x "K x" n]) (use inv_represents [OF assms(1)] n ends in \<open>auto simp: represents_def h'\<close>)
  then have "represents h' K" by (simp add: represents_def)
  then show ?thesis unfolding h'(1) using assms i n by (auto simp: h' distinct_removeAll)
qed

lemma SwapRemove_mset: "i < length xs \<Longrightarrow> mset (SwapRemove i xs) = mset xs - {#xs ! i#}"
proof (cases xs rule: rev_cases)
  case (snoc ys z)
  assume i: "i < length xs"
  show ?thesis
  proof (cases "i < length ys")
    case True
    then have "ys ! i \<in># mset ys" by simp
    then show ?thesis using snoc True by (simp add: SwapRemove_def list_update_append1 mset_update nth_append)
  next
    case False
    then have "i = length ys" using i snoc by simp
    then show ?thesis using snoc by (simp add: SwapRemove_def)
  qed
qed simp

lemma index_of_nth: "index_of x xs = Some i \<Longrightarrow> i < length xs \<and> xs ! i = x"
  by (induction xs arbitrary: i) (auto split: if_splits)

lemma index_of_in: "x \<in> set xs \<Longrightarrow> \<exists>i. index_of x xs = Some i"
  by (induction xs) auto

lemma MarkInUse_unlinked:
  assumes "distinct (x_unlinked h)"
  shows "distinct (x_unlinked (MarkInUse n h))" "set (x_unlinked (MarkInUse n h)) = set (x_unlinked h) - {n}"
proof -
  have "mset (x_unlinked (MarkInUse n h)) = mset (remove1 n (x_unlinked h))"
  proof (cases "n \<in> set (x_unlinked h)")
    case True
    then obtain i where i: "index_of n (x_unlinked h) = Some i" using index_of_in by metis
    then show ?thesis using index_of_nth [OF i] SwapRemove_mset [of i "x_unlinked h"] by (simp add: MarkInUse_def)
  next
    case False
    then show ?thesis by (simp add: MarkInUse_other remove1_idem)
  qed
  from mset_eq_imp_distinct_iff [OF this] mset_eq_setD [OF this] assms
  show "distinct (x_unlinked (MarkInUse n h))" "set (x_unlinked (MarkInUse n h)) = set (x_unlinked h) - {n}" by simp_all
qed

lemma Preamble_unlinked:
  assumes "doc_inv d (h, F) (K, N, C)"
  shows "distinct (x_unlinked (InsertChildPreamble a h))" "set (x_unlinked (InsertChildPreamble a h)) = set (x_unlinked h) - {a}"
proof -
  have u: "distinct (x_unlinked h)" "\<And>x. x_parent h a = Some x \<Longrightarrow> a \<notin> set (x_unlinked h)"
    using assms inv_represents(6) [OF assms] by auto
  then show "distinct (x_unlinked (InsertChildPreamble a h))" "set (x_unlinked (InsertChildPreamble a h)) = set (x_unlinked h) - {a}"
    using MarkInUse_unlinked [OF u(1), of a] by (auto simp: InsertChildPreamble_def split: option.split)
qed

text \<open>The insertions differ in the place of the node in the new list only.\<close>

lemma inv_insert:
  assumes inv: "doc_inv d (h, F) (K, N, C)" and al: "this \<in> insert d N" "a \<in> N" "this \<notin> below K a"
    and rep: "represents h' K'" and memb: "\<And>x. set (K' x) = (if x = this then insert a (set (K x)) else set (K x) - {a})"
    and keep: "x_document h' = x_document h" "x_unlinked h' = x_unlinked (InsertChildPreamble a h)"
  shows "doc_inv d (h', F) (K', N, C)"
proof -
  have sub: "edges K' \<subseteq> insert (a, this) (edges K)" by (auto simp: edges_def memb split: if_splits)
  have "acyclic (insert (a, this) (edges K))" using inv_represents(3) [OF inv] al(3) by (simp add: below_def)
  then have ac: "acyclic (edges K')" using sub acyclic_subset by blast
  have out: "K' x = []" if "x \<notin> insert d N" for x
  proof -
    have "K x = []" "x \<noteq> this" using inv al(1) that by auto
    then show ?thesis using memb [of x] by simp
  qed
  have roots: "(\<forall>x. n \<notin> set (K' x)) \<longleftrightarrow> (\<forall>x. n \<notin> set (K x)) \<and> n \<noteq> a" for n
    by (cases "n = a") (auto simp: memb)
  note u = Preamble_unlinked [OF inv, of a]
  have "set (x_unlinked h') = {n \<in> N. \<forall>x. n \<notin> set (K' x)}" using inv u(2) by (auto simp: keep(2) roots)
  moreover have "\<forall>x. set (K' x) \<subseteq> N" using inv al(2) by (auto simp: memb)
  ultimately show ?thesis using inv rep ac out u(1) by (simp add: keep)
qed

lemma insert_after_set: "b \<in> set ks \<Longrightarrow> set (insert_after b a ks) = insert a (set ks)"
  by (induction ks) auto

lemma append_prepend_keeps:
  "x_document (append_child this a h) = x_document h" "x_unlinked (append_child this a h) = x_unlinked h"
  "x_document (prepend_child this a h) = x_document h" "x_unlinked (prepend_child this a h) = x_unlinked h"
  by (simp_all add: append_child_def prepend_child_def split: option.split)

lemma InsertAfterChild_keeps:
  assumes "InsertAfterChild this b a h = Inr (Some a, h')" "a \<noteq> b"
  shows "x_document h' = x_document h \<and> x_unlinked h' = x_unlinked (InsertChildPreamble a h)"
  using assms by (auto simp: InsertAfterChild_def InsertEndChild_link_def Let_def append_prepend_keeps split: if_splits option.splits)


lemma inv_insert_op:
  assumes "doc_inv d (h, F) (K, N, C)" "allowed d op (K, N, C)"
    "op \<in> {OpInsertEnd this a, OpInsertFirst this a, OpInsertAfter this b a}"
  shows "\<exists>s'. doc_run fuel d op (h, F) = Inr s' \<and> doc_inv d s' (spec_op op (K, N, C))"
proof -
  have al: "this \<in> insert d N" "a \<in> N" "this \<notin> below K a" using assms(2,3) by auto
  have doc: "x_document h a = x_document h this" using assms(1) al by auto
  note rep = inv_represents(1) [OF assms(1)] and dist = inv_represents(5) [OF assms(1)]
  have memb: "set ((spec_unlink a K) x) = set (K x) - {a}" for x using dist [of x] by (simp add: spec_unlink_def)
  consider "op = OpInsertEnd this a" | "op = OpInsertFirst this a" | "op = OpInsertAfter this b a" using assms(3) by blast
  then show ?thesis
  proof cases
    case 1
    have "doc_inv d (append_child this a (InsertChildPreamble a h), F) (spec_insert_end this a K, N, C)"
      by (rule inv_insert [OF assms(1) al InsertEnd_refines [OF rep]])
        (auto simp: spec_insert_end_def Let_def memb append_prepend_keeps)
    then show ?thesis using 1 doc by (simp add: InsertEndChild_link_def)
  next
    case 2
    have "doc_inv d (prepend_child this a (InsertChildPreamble a h), F) (spec_insert_first this a K, N, C)"
      by (rule inv_insert [OF assms(1) al InsertFirst_refines [OF rep]])
        (auto simp: spec_insert_first_def Let_def memb append_prepend_keeps)
    then show ?thesis using 2 doc by (simp add: InsertFirstChild_link_def)
  next
    case 3
    have b: "b \<in> set (K this)" "\<And>xs. K this \<noteq> xs @ [b, a]" using assms(2) 3 by auto
    obtain h' where h': "InsertAfterChild this b a h = Inr (Some a, h')" "represents h' (spec_insert_after this b a K)"
      using InsertAfterChild_moves [OF rep b(1) doc b(2)] by blast
    show ?thesis
    proof (cases "a = b")
      case True
      then have "h' = h" using h'(1) b(1) inv_represents(6) [OF assms(1), of b this] doc by (simp add: InsertAfterChild_def)
      then show ?thesis using assms(1) h'(1) 3 True by (simp add: spec_insert_after_def)
    next
      case False
      have "b \<in> set (spec_unlink a K this)" using b(1) False memb by simp
      then have "set (spec_insert_after this b a K x) = (if x = this then insert a (set (K x)) else set (K x) - {a})" for x
        using False insert_after_set by (simp add: spec_insert_after_def Let_def memb)
      then have "doc_inv d (h', F) (spec_insert_after this b a K, N, C)"
        using inv_insert [OF assms(1) al h'(2)] InsertAfterChild_keeps [OF h'(1) False] by simp
      then show ?thesis using 3 h'(1) by simp
    qed
  qed
qed

section \<open>Deleting\<close>

lemma below_subset: "\<forall>x. set (K x) \<subseteq> N \<Longrightarrow> n \<in> N \<Longrightarrow> below K n \<subseteq> N"
proof
  fix y
  assume a: "\<forall>x. set (K x) \<subseteq> N" "n \<in> N" "y \<in> below K n"
  then have "(y, n) \<in> (edges K)\<^sup>*" by (simp add: below_def)
  then show "y \<in> N" using a(1,2) by (cases rule: converse_rtranclE) (auto simp: edges_def)
qed

lemma root_below: "\<forall>x. m \<notin> set (K x) \<Longrightarrow> m \<in> below K n \<Longrightarrow> m = n"
proof -
  assume a: "\<forall>x. m \<notin> set (K x)" "m \<in> below K n"
  then have "(m, n) \<in> (edges K)\<^sup>*" by (simp add: below_def)
  then show "m = n" using a(1) by (cases rule: converse_rtranclE) (auto simp: edges_def)
qed

lemma below_child: "c \<in> set (K x) \<Longrightarrow> x \<in> below K n \<Longrightarrow> c \<in> below K n"
  by (auto simp: below_def edges_def intro: converse_rtrancl_into_rtrancl)

lemma below_parent:
  assumes "single_valued (edges K)" "c \<in> set (K x)" "c \<in> below K n" "c \<noteq> n" shows "x \<in> below K n"
proof -
  obtain q where "(c, q) \<in> edges K" "(q, n) \<in> (edges K)\<^sup>*" using assms(3,4) by (auto simp: below_def elim: converse_rtranclE)
  moreover have "(c, x) \<in> edges K" using assms(2) by (simp add: edges_def)
  ultimately show ?thesis using assms(1) by (auto simp: below_def dest: single_valuedD)
qed

lemma not_below_parent: "acyclic (edges K) \<Longrightarrow> n \<in> set (K x) \<Longrightarrow> x \<notin> below K n"
  by (auto simp: below_def edges_def acyclic_def dest: rtrancl_into_trancl1)

lemma tree_of:
  assumes "doc_inv d (h, F) (K, N, C)"
  shows "\<exists>t. xroot t = n \<and> holds K t \<and> set (post t) = below K n \<and> distinct (post t)"
  using tree_exists [OF inv_represents(4) [OF assms]] post_below post_distinct [OF inv_represents(2,3,5) [OF assms]] by metis

lemma checked_Unlink_ok:
  assumes "doc_inv d (h, F) (K, N, C)" "x_parent h n = Some p"
  shows "checked_Unlink p n (h, F) = Inr (Unlink p n h, F)"
proof -
  have np: "n \<in> set (K p)" using inv_represents(6) [OF assms(1)] assms(2) by simp
  then obtain xs ys where K: "K p = xs @ n # ys" by (meson split_list)
  have "segment (x_prev h) (x_next h) None (K p) None" using inv_represents(1) [OF assms(1)] by (auto simp: represents_def linked_def)
  then have l: "x_prev h n = last_or None xs" "x_next h n = hd_or None ys" unfolding K by auto
  have "set (K p) \<subseteq> N" "p \<in> insert d N" using assms(1) np by auto
  moreover have "set (unlink_touches p n h) \<subseteq> insert p (set (K p))"
    unfolding unlink_touches_def l K by (cases ys; cases xs rule: rev_cases) auto
  moreover have "set F \<inter> insert d N = {}" using assms(1) by (simp only: doc_inv.simps)
  ultimately have "\<forall>m \<in> set (unlink_touches p n h). m \<notin> set F" by blast
  then show ?thesis by (auto simp: checked_Unlink_def list_ex_iff)
qed

lemma inv_delete:
  assumes inv: "doc_inv d (h, F) (K, N, C)" and n: "n \<in> N" and fuel: "2 * card N < fuel"
  shows "\<exists>s'. XMLDocument_DeleteNode fuel n (h, F) = Inr s' \<and> doc_inv d s' (cleared (spec_unlink n K) (below K n), N - below K n, C)"
proof -
  note i = inv_represents [OF inv]
  have N: "finite N" "\<forall>x. set (K x) \<subseteq> N" "set F \<inter> N = {}" "\<forall>n \<in> N. x_document h n = d" "d \<notin> N" using inv by auto
  define h1 where "h1 = (case x_parent h n of Some p \<Rightarrow> Unlink p n h | None \<Rightarrow> h)"
  have run: "XMLDocument_DeleteNode fuel n (h, F) = DeleteNode fuel n (h1, F)"
    using checked_Unlink_ok [OF inv, of n] by (auto simp: XMLDocument_DeleteNode_def DeleteChild_def h1_def split: option.split)
  have rep: "represents h1 (spec_unlink n K)" "x_parent h1 n = None" "x_unlinked h1 = x_unlinked h" "x_document h1 = x_document h"
    using Unlink_refines [OF i(1)] represents_parentless [OF i(1)] i(1) by (auto simp: h1_def split: option.split)
  obtain t where t: "xroot t = n" "holds K t" "set (post t) = below K n" "distinct (post t)" using tree_of [OF inv] by blast
  have bN: "below K n \<subseteq> N" using below_subset [OF N(2) n] .
  have "holds (spec_unlink n K) t"
    by (rule holds_cong [OF t(2)]) (use not_below_parent [OF i(3)] t(3) in \<open>auto simp: spec_unlink_def intro: remove1_idem\<close>)
  moreover have "set F \<inter> set (post t) = {}" "\<forall>n \<in> set (post t). x_document h1 n \<noteq> n" using N bN t(3) rep(4) by auto
  moreover have "set (x_unlinked h1) \<inter> (set (post t) - {xroot t}) = {}"
    using inv root_below [of _ K n] t(1,3) rep(3) by auto
  moreover have "2 * length (post t) \<le> fuel"
    using fuel card_mono [OF N(1) bN] distinct_card [OF t(4)] t(3) by simp
  moreover have "x_parent h1 (xroot t) = None" using rep(2) t(1) by simp
  ultimately obtain h' where "DeleteNode fuel (xroot t) (h1, F) = Inr (h', F @ post t)" "represents h' (cleared (spec_unlink n K) (set (post t)))"
    "x_unlinked h' = x_unlinked (MarkInUse (xroot t) h1)" "x_document h' = x_document h1"
    using deletesD [OF deletes_tree rep(1) _ _ t(4)] by metis
  then have h': "DeleteNode fuel n (h1, F) = Inr (h', F @ post t)" "represents h' (cleared (spec_unlink n K) (below K n))"
    "x_unlinked h' = x_unlinked (MarkInUse n h1)" "x_document h' = x_document h1"
    using t(1,3) by simp_all
  let ?K = "cleared (spec_unlink n K) (below K n)"
  have K': "c \<in> set (?K x) \<longleftrightarrow> c \<in> set (K x) \<and> c \<notin> below K n" for c x
    using below_child [of c K x n] below_parent [OF i(2), of c x n] below_root [of n K] i(5) [of x]
    by (auto simp: cleared_def spec_unlink_def)
  have "distinct (x_unlinked h)" using inv by simp
  note u = MarkInUse_unlinked [OF this, of n]
  have ul: "distinct (x_unlinked h')" "set (x_unlinked h') = set (x_unlinked h) - {n}"
    using MarkInUse_unlinked [of h1 n] inv unfolding h'(3) rep(3) by auto
  have roots: "set (x_unlinked h') = {m \<in> N - below K n. \<forall>x. m \<notin> set (?K x)}"
    using inv root_below [of _ K n] below_root [of n K] by (auto simp: ul K')
  have "edges ?K \<subseteq> edges K" by (auto simp: edges_def K')
  then have ac: "acyclic (edges ?K)" using i(3) acyclic_subset by blast
  have out: "?K x = []" if "x \<notin> insert d (N - below K n)" for x
    using inv that by (auto simp: cleared_def spec_unlink_def)
  have sub: "\<forall>x. set (?K x) \<subseteq> N - below K n" using K' N(2) by blast
  have docs: "\<forall>m \<in> insert d (N - below K n). x_document h' m = d" using inv h'(4) rep(4) by auto
  have F: "distinct (F @ post t)" "set (F @ post t) \<inter> insert d (N - below K n) = {}" "C = N - below K n \<union> set (F @ post t)"
    using inv t(3,4) bN by auto
  have "doc_inv d (h', F @ post t) (?K, N - below K n, C)"
    unfolding doc_inv.simps using h'(2) N(1,5) sub out ac docs ul(1) roots F by blast
  then show ?thesis using run h'(1) by simp
qed


section \<open>Clearing\<close>

lemma below_top:
  assumes "doc_inv d (h, F) (K, N, C)" "n \<in> N"
  shows "n \<in> below K d \<or> (\<exists>r \<in> set (x_unlinked h). n \<in> below K r)"
proof -
  have i: "finite N" "\<forall>x. set (K x) \<subseteq> N" "\<forall>x. x \<notin> insert d N \<longrightarrow> K x = []" using assms(1) by auto
  have "wf ((edges K)\<inverse>)" by (rule finite_acyclic_wf_converse [OF finite_edges [OF i] inv_represents(3) [OF assms(1)]])
  then have "m \<in> insert d N \<Longrightarrow> m \<in> below K d \<or> (\<exists>r \<in> set (x_unlinked h). m \<in> below K r)" for m
  proof (induction m rule: wf_induct_rule)
    case (less m)
    show ?case
    proof (cases "\<exists>x. m \<in> set (K x)")
      case True
      then obtain x where x: "m \<in> set (K x)" ..
      then have "x \<in> insert d N" using i(3) by fastforce
      then have "x \<in> below K d \<or> (\<exists>r \<in> set (x_unlinked h). x \<in> below K r)" using less.IH x by (simp add: edges_def)
      then show ?thesis using below_child [of m K x] x by blast
    next
      case False
      then show ?thesis using less.prems assms(1) below_root by auto
    qed
  qed
  then show ?thesis using assms(2) by simp
qed

lemma inv_clear:
  assumes inv: "doc_inv d (h, F) (K, N, C)" and fuel: "2 * card N < fuel"
  shows "\<exists>s'. Clear_nodes fuel d (h, F) = Inr s' \<and> doc_inv d s' ((\<lambda>_. []), {}, C)"
proof -
  note i = inv_represents [OF inv]
  have N: "finite N" "\<forall>x. set (K x) \<subseteq> N" "d \<notin> N" "\<And>x. x \<notin> insert d N \<Longrightarrow> K x = []" "\<forall>n \<in> insert d N. x_document h n = d"
    "distinct (x_unlinked h)" "set (x_unlinked h) = {n \<in> N. \<forall>x. n \<notin> set (K x)}" "set F \<inter> insert d N = {}" "distinct F" "C = N \<union> set F"
    using inv unfolding doc_inv.simps by blast+
  have "\<forall>n. \<exists>t. xroot t = n \<and> holds K t \<and> set (post t) = below K n \<and> distinct (post t)" using tree_of [OF inv] by blast
  then obtain f where f: "\<And>n. xroot (f n) = n" "\<And>n. holds K (f n)" "\<And>n. set (post (f n)) = below K n" "\<And>n. distinct (post (f n))" by metis
  define ts us where "ts = map f (K d)" and "us = map f (x_unlinked h)"
  have roots: "map xroot ts = K d" "map xroot us = x_unlinked h" by (simp_all add: ts_def us_def f(1) comp_def)
  have hold: "list_all (holds K) (ts @ us)" by (auto simp: list_all_iff ts_def us_def f(2))
  have no_parent: "\<forall>x. d \<notin> set (K x)" "\<And>u. u \<in> set (x_unlinked h) \<Longrightarrow> \<forall>x. u \<notin> set (K x)" using N(2,3,7) by auto
  have apart: "a \<notin> below K b" if "a \<in> set (K d @ x_unlinked h)" "b \<in> set (K d @ x_unlinked h)" "a \<noteq> b" for a b
  proof (cases "a \<in> set (x_unlinked h)")
    case True
    then show ?thesis using root_below no_parent(2) that(3) by blast
  next
    case False
    then have a: "a \<in> set (K d)" using that(1) by simp
    show ?thesis
    proof
      assume ab: "a \<in> below K b"
      then have "d \<in> below K b" using below_parent [OF i(2) a] that(3) by blast
      then have "d = b" using root_below no_parent(1) by blast
      then show False using that(2) N(2,3,7) by auto
    qed
  qed
  have dr: "distinct (map xroot (ts @ us))" using i(5) [of d] N(6) no_parent(2) by (auto simp: roots)
  have dp: "distinct (posts (ts @ us))"
    by (rule distinct_posts [OF i(2) hold _ dr]) (use f(4) apart in \<open>auto simp: ts_def us_def f(1)\<close>)
  have "set (posts (ts @ us)) \<subseteq> N" using below_subset [OF N(2)] N(2,7) by (auto simp: ts_def us_def f(3))
  moreover have "N \<subseteq> set (posts (ts @ us))"
  proof
    fix n
    assume n: "n \<in> N"
    consider "n \<in> below K d" | r where "r \<in> set (x_unlinked h)" "n \<in> below K r" using below_top [OF inv n] by blast
    then show "n \<in> set (posts (ts @ us))"
    proof cases
      case 1
      have "n \<noteq> d" using n N(3) by auto
      then obtain c where "(n, c) \<in> (edges K)\<^sup>*" "(c, d) \<in> edges K" using 1 by (auto simp: below_def elim: rtranclE)
      then show ?thesis by (auto simp: ts_def f(3) below_def edges_def)
    next
      case 2
      then show ?thesis by (auto simp: us_def f(3))
    qed
  qed
  ultimately have posts: "set (posts (ts @ us)) = N" by blast
  then have len: "2 * length (posts (ts @ us)) < fuel" using fuel distinct_card [OF dp] by simp
  have par: "\<forall>t \<in> set us. x_parent h (xroot t) = None"
  proof
    fix t
    assume "t \<in> set us"
    then have "xroot t \<in> set (x_unlinked h)" using roots(2) by (metis image_eqI list.set_map)
    then show "x_parent h (xroot t) = None" using no_parent(2) i(6) by (metis option.exhaust)
  qed
  have dd: "distinct (d # posts (ts @ us))" "\<forall>n \<in> set (posts (ts @ us)). x_document h n = d" "set F \<inter> insert d (set (posts (ts @ us))) = {}"
    using dp N(3,5,8) unfolding posts distinct.simps by blast+
  obtain h' F' where h': "Clear_nodes fuel d (h, F) = Inr (h', F @ F')" "mset F' = mset (posts (ts @ us))" "x_unlinked h' = []"
    "x_document h' = x_document h" "represents h' (cleared K (insert d (set (posts (ts @ us)))))"
    using Clear_frees [OF i(1) roots(1) [symmetric] hold roots(2) [symmetric] par dd(1,2) len dd(3)] by blast
  have "cleared K (insert d N) = (\<lambda>_. [])" using N(4) by (auto simp: cleared_def fun_eq_iff)
  then have rep: "represents h' (\<lambda>_. [])" using h'(5) posts by simp
  have F': "distinct F'" "set F' = N" using mset_eq_imp_distinct_iff [OF h'(2)] mset_eq_setD [OF h'(2)] dp posts by auto
  have "doc_inv d (h', F @ F') ((\<lambda>_. []), {}, C)" using rep h'(3,4) N(3,5,8-10) F' by (auto simp: edges_def acyclic_def)
  then show ?thesis using h'(1) by blast
qed

section \<open>Sequences of operations\<close>

fun allowed_ops :: "nat \<Rightarrow> doc_op list \<Rightarrow> forest \<Rightarrow> bool" where
  "allowed_ops d [] st \<longleftrightarrow> True"
| "allowed_ops d (op # ops) st \<longleftrightarrow> allowed d op st \<and> allowed_ops d ops (spec_op op st)"

definition created :: "doc_op list \<Rightarrow> nat set" where
  "created ops = {n. OpCreate n \<in> set ops}"

lemma inv_step:
  assumes "doc_inv d s (K, N, C)" "allowed d op (K, N, C)" "2 * card N < fuel"
  shows "\<exists>s'. doc_run fuel d op s = Inr s' \<and> doc_inv d s' (spec_op op (K, N, C))"
proof -
  obtain h F where s: "s = (h, F)" by (cases s)
  note inv = assms(1) [unfolded s]
  show ?thesis
  proof (cases op)
    case (OpCreate n)
    then show ?thesis using inv_create [OF inv, of n] assms(2) s by simp
  next
    case (OpInsertEnd this a)
    then show ?thesis using inv_insert_op [OF inv assms(2), of this a] s by blast
  next
    case (OpInsertFirst this a)
    then show ?thesis using inv_insert_op [OF inv assms(2), of this a] s by blast
  next
    case (OpInsertAfter this b a)
    then show ?thesis using inv_insert_op [OF inv assms(2), of this a b] s by blast
  next
    case (OpDelete n)
    then show ?thesis using inv_delete [OF inv _ assms(3), of n] assms(2) s by simp
  next
    case OpClear
    then show ?thesis using inv_clear [OF inv assms(3)] s by simp
  qed
qed

lemma spec_op_size:
  "finite (fst (snd st)) \<Longrightarrow> finite (fst (snd (spec_op op st))) \<and> card (fst (snd (spec_op op st))) \<le> Suc (card (fst (snd st)))"
  by (cases st; cases op) (auto simp: card_insert_if intro: card_mono le_SucI)

lemma spec_op_created: "snd (snd (spec_op op st)) = snd (snd st) \<union> created [op]"
  by (cases st; cases op) (auto simp: created_def)

lemma created_Cons: "created (op # ops) = created [op] \<union> created ops"
  by (auto simp: created_def)

lemma inv_run:
  assumes "doc_inv d s st" "allowed_ops d ops st" "2 * (card (fst (snd st)) + length ops) < fuel"
  shows "\<exists>s'. foldR (doc_run fuel d) ops s = Inr s' \<and> doc_inv d s' (fold spec_op ops st) \<and>
    snd (snd (fold spec_op ops st)) = snd (snd st) \<union> created ops \<and>
    card (fst (snd (fold spec_op ops st))) \<le> card (fst (snd st)) + length ops"
  using assms
proof (induction ops arbitrary: s st)
  case Nil
  then show ?case by (simp add: created_def)
next
  case (Cons op ops)
  obtain K N C where st: "st = (K, N, C)" by (cases st)
  obtain h F where s: "s = (h, F)" by (cases s)
  have "finite N" using Cons.prems(1) unfolding st s by simp
  then have size: "card (fst (snd (spec_op op st))) \<le> Suc (card N)" using spec_op_size [of st op] st by simp
  have step: "allowed d op st" "allowed_ops d ops (spec_op op st)" using Cons.prems(2) by simp_all
  obtain s' where s': "doc_run fuel d op s = Inr s'" "doc_inv d s' (spec_op op st)"
    using inv_step [of d s K N C op fuel] Cons.prems(1,3) step(1) unfolding st by auto
  have "2 * (card (fst (snd (spec_op op st))) + length ops) < fuel" using Cons.prems(3) size st by simp
  from Cons.IH [OF s'(2) step(2) this] show ?case
    using s'(1) size st by (auto simp: spec_op_created created_Cons [of op ops] Un_assoc)
qed

lemma inv_new: "doc_inv d (new_links d, []) ((\<lambda>_. []), {}, {})"
  by (simp add: new_links_def represents_def linked_def edges_def acyclic_def)

text \<open>
  (C21) Whatever sequence of creations, insertions, moves, deletions and clearings a caller performs on a new document,
  as long as it uses nodes of the document only, puts no node below itself and does not insert the last child after
  the child before it, no operation follows a dangling pointer or frees a node twice, and after the final \<open>Clear\<close>
  every pool item that was ever handed out is given back, once, and neither children nor unlinked nodes are left.
\<close>

theorem document_lifetime:
  assumes "allowed_ops d ops ((\<lambda>_. []), {}, {})" and "2 * length ops < fuel"
  shows "\<exists>h F. foldR (doc_run fuel d) (ops @ [OpClear]) (new_links d, []) = Inr (h, F) \<and>
    distinct F \<and> set F = created ops \<and> x_unlinked h = [] \<and> represents h (\<lambda>_. [])"
proof -
  obtain s K N C where s: "foldR (doc_run fuel d) ops (new_links d, []) = Inr s" "doc_inv d s (K, N, C)" "C = created ops" "card N \<le> length ops"
    using inv_run [OF inv_new assms(1), of fuel] assms(2) by (metis add_0 card.empty fst_conv snd_conv prod.collapse sup_bot_left)
  then obtain s' where s': "doc_run fuel d OpClear s = Inr s'" "doc_inv d s' ((\<lambda>_. []), {}, C)"
    using inv_step [of d s K N C OpClear fuel] assms(2) by auto
  then obtain h F where "s' = (h, F)" by (cases s')
  then show ?thesis using s s' by (auto simp: foldR_append)
qed

theorem document_lifetime_witness:
  "\<exists>h F. foldR (doc_run 13 0) [OpCreate 1, OpCreate 2, OpCreate 3, OpInsertEnd 0 1, OpInsertFirst 1 2, OpDelete 1, OpClear] (new_links 0, []) = Inr (h, F) \<and>
    distinct F \<and> set F = {1, 2, 3} \<and> x_unlinked h = []"
proof -
  let ?ops = "[OpCreate 1, OpCreate 2, OpCreate 3, OpInsertEnd 0 1, OpInsertFirst 1 2, OpDelete 1]"
  have none: "edges (\<lambda>_. []) = {}" by (simp add: edges_def)
  have "edges (spec_insert_end 0 (Suc 0) (\<lambda>_. [])) = {(Suc 0, 0)}"
    by (auto simp: edges_def spec_insert_end_def spec_unlink_def split: if_splits)
  moreover have "(Suc 0, 2) \<notin> {(Suc 0, 0 :: nat)}\<^sup>*"
  proof
    assume "(Suc 0, 2) \<in> {(Suc 0, 0 :: nat)}\<^sup>*"
    then show False by (cases rule: rtranclE) auto
  qed
  ultimately have "allowed_ops 0 ?ops ((\<lambda>_. []), {}, {})" by (simp add: below_def none)
  moreover have "created ?ops = {1, 2, 3}" by (auto simp: created_def)
  ultimately show ?thesis using document_lifetime [of 0 ?ops 13] by (simp del: foldR.simps doc_run.simps) blast
qed

end
