(* ===== verification/Zstore_XmlNav.thy ===== *)
theory Zstore_XmlNav
  imports Zstore_XmlLinks
begin

text \<open>
  Walking over the children of a node along the sibling pointers (\<^verbatim>\<open>src/src/tinyxml2.cpp\<close>: \<open>FirstChildElement\<close>,
  \<open>LastChildElement\<close>, \<open>NextSiblingElement\<close>, \<open>PreviousSiblingElement\<close> and \<open>ChildElementCount\<close>). \<open>is_elem\<close> is the test
  \<open>ToElementWithName(name)\<close> of a node. A loop that follows pointers has fuel; more fuel than there are
  siblings is enough.
\<close>

section \<open>The loops\<close>

fun walk :: "nat \<Rightarrow> (nat \<Rightarrow> nat option) \<Rightarrow> (nat \<Rightarrow> bool) \<Rightarrow> nat option \<Rightarrow> nat option res" where
  "walk fuel step is_elem None = Inr None"
| "walk 0 step is_elem (Some node) = Inl Unfinished"
| "walk (Suc fuel) step is_elem (Some node) =
     (if is_elem node then Inr (Some node) else walk fuel step is_elem (step node))"

definition FirstChildElement_link :: "nat \<Rightarrow> (nat \<Rightarrow> bool) \<Rightarrow> links \<Rightarrow> nat \<Rightarrow> nat option res" where
  "FirstChildElement_link fuel is_elem h this = walk fuel (x_next h) is_elem (x_first h this)"

definition LastChildElement_link :: "nat \<Rightarrow> (nat \<Rightarrow> bool) \<Rightarrow> links \<Rightarrow> nat \<Rightarrow> nat option res" where
  "LastChildElement_link fuel is_elem h this = walk fuel (x_prev h) is_elem (x_last h this)"

definition NextSiblingElement :: "nat \<Rightarrow> (nat \<Rightarrow> bool) \<Rightarrow> links \<Rightarrow> nat \<Rightarrow> nat option res" where
  "NextSiblingElement fuel is_elem h this = walk fuel (x_next h) is_elem (x_next h this)"

definition PreviousSiblingElement :: "nat \<Rightarrow> (nat \<Rightarrow> bool) \<Rightarrow> links \<Rightarrow> nat \<Rightarrow> nat option res" where
  "PreviousSiblingElement fuel is_elem h this = walk fuel (x_prev h) is_elem (x_prev h this)"

fun count_loop :: "nat \<Rightarrow> (nat \<Rightarrow> bool) \<Rightarrow> links \<Rightarrow> nat option \<Rightarrow> nat \<Rightarrow> nat res" where
  "count_loop fuel is_elem h None count = Inr count"
| "count_loop 0 is_elem h (Some e) count = Inl Unfinished"
| "count_loop (Suc fuel) is_elem h (Some e) count =
     bindR (NextSiblingElement fuel is_elem h e) (\<lambda>e'. count_loop fuel is_elem h e' (count + 1))"

definition ChildElementCount_link :: "nat \<Rightarrow> (nat \<Rightarrow> bool) \<Rightarrow> links \<Rightarrow> nat \<Rightarrow> nat res" where
  "ChildElementCount_link fuel is_elem h this =
     bindR (FirstChildElement_link fuel is_elem h this) (\<lambda>e. count_loop fuel is_elem h e 0)"

section \<open>What they find\<close>

lemma walk_segment:
  assumes "segment prv nxt p ks None" "length ks \<le> fuel"
  shows "walk fuel nxt is_elem (hd_or None ks) = Inr (find is_elem ks)"
  using assms
proof (induction ks arbitrary: p fuel)
  case (Cons k ks)
  then show ?case by (cases fuel) auto
qed simp

lemma walk_segment_back:
  assumes "segment prv nxt None ks n" "length ks \<le> fuel"
  shows "walk fuel prv is_elem (last_or None ks) = Inr (find is_elem (rev ks))"
  using assms
proof (induction ks arbitrary: n fuel rule: rev_induct)
  case (snoc k ks)
  then show ?case by (cases fuel) auto
qed simp

lemma children_segment:
  assumes "represents h K"
  shows "segment (x_prev h) (x_next h) None (K x) None" "x_first h x = hd_or None (K x)" "x_last h x = last_or None (K x)"
  using assms by (auto simp: represents_def linked_def)

text \<open>
  The four functions that look for an element find the first one, in their direction, among the children or
  among the siblings on their side, and return null if there is none; they reach the end of the list.
\<close>

lemma sibling_elements:
  assumes "represents h K" and "K p = xs @ c # ys" and "length (K p) \<le> fuel"
  shows "FirstChildElement_link fuel is_elem h p = Inr (find is_elem (K p)) \<and>
    LastChildElement_link fuel is_elem h p = Inr (find is_elem (rev (K p))) \<and>
    NextSiblingElement fuel is_elem h c = Inr (find is_elem ys) \<and>
    PreviousSiblingElement fuel is_elem h c = Inr (find is_elem (rev xs))"
proof -
  note s = children_segment [OF assms(1), of p]
  have sx: "segment (x_prev h) (x_next h) None xs (Some c)" and sy: "segment (x_prev h) (x_next h) (Some c) ys None"
    and c: "x_prev h c = last_or None xs" "x_next h c = hd_or None ys"
    using s(1) assms(2) by auto
  have l: "length xs \<le> fuel" "length ys \<le> fuel" using assms(2,3) by auto
  show ?thesis
    using walk_segment [OF s(1) assms(3)] walk_segment_back [OF s(1) assms(3)] walk_segment [OF sy l(2)] walk_segment_back [OF sx l(1)]
    by (simp add: FirstChildElement_link_def LastChildElement_link_def NextSiblingElement_def PreviousSiblingElement_def s c)
qed

lemma sibling_elements_example:
  "NextSiblingElement 2 (\<lambda>n. n = 2) ex_links 1 = Inr (Some 2) \<and> PreviousSiblingElement 2 (\<lambda>n. n = 2) ex_links 1 = Inr None"
  using sibling_elements [OF ex_represents, of 0 "[]" 1 "[2]" 2 "\<lambda>n. n = 2"] by (simp add: ex_kids_def)

lemma count_loop_segment:
  assumes "segment prv nxt p ks None" "prv = x_prev h" "nxt = x_next h" "length ks < fuel"
  shows "bindR (walk fuel nxt is_elem (hd_or None ks)) (\<lambda>e. count_loop fuel is_elem h e n) = Inr (n + length (filter is_elem ks))"
  using assms
proof (induction ks arbitrary: p n fuel)
  case (Cons k ks)
  then obtain f where f: "fuel = Suc f" "length ks < f" by (cases fuel) auto
  have sg: "segment prv nxt (Some k) ks None" "nxt k = hd_or None ks" using Cons.prems(1) by auto
  show ?case
  proof (cases "is_elem k")
    case True
    then show ?thesis
      using Cons.IH [OF sg(1) Cons.prems(2,3) f(2), of "n + 1"] f(1) sg(2) Cons.prems(3)
      by (simp add: NextSiblingElement_def)
  next
    case False
    have "walk f nxt is_elem (hd_or None ks) = walk (Suc f) nxt is_elem (hd_or None ks)"
      using walk_segment [OF sg(1)] f(2) by simp
    then show ?thesis using Cons.IH [OF sg(1) Cons.prems(2,3), of "Suc f" n] f sg(2) False by simp
  qed
qed simp

text \<open>\<open>ChildElementCount\<close> is the number of children that are elements of the name asked for.\<close>

lemma ChildElementCount_counts:
  assumes "represents h K" and "length (K p) < fuel"
  shows "ChildElementCount_link fuel is_elem h p = Inr (length (filter is_elem (K p)))"
  using count_loop_segment [OF children_segment(1) [OF assms(1)] refl refl assms(2), of is_elem 0]
  by (simp add: ChildElementCount_link_def FirstChildElement_link_def children_segment(2) [OF assms(1)])

lemma ChildElementCount_counts_example: "ChildElementCount_link 3 (\<lambda>n. n = 2) ex_links 0 = Inr 1"
  using ChildElementCount_counts [OF ex_represents, of 0 3 "\<lambda>n. n = 2"] by (simp add: ex_kids_def)

end
