(* ===== verification/Zstore_XmlHandle.thy ===== *)
theory Zstore_XmlHandle
  imports Zstore_XmlNav
begin

text \<open>
  Handles (\<^verbatim>\<open>src/src/include/tinyxml2.h\<close>, \<open>XMLHandle\<close> and \<open>XMLConstHandle\<close>): a node pointer that may be null, with the steps of
  the navigation made safe by a test for null. A chain of steps is a list; it ends with a node or with null and never
  dereferences a null pointer, and it is the path through the lists of children that its steps describe.
\<close>

section \<open>Steps\<close>

type_synonym XMLHandle = "nat option"

definition Handle_FirstChild :: "links \<Rightarrow> XMLHandle \<Rightarrow> XMLHandle" where
  "Handle_FirstChild h n = (case n of Some x \<Rightarrow> x_first h x | None \<Rightarrow> None)"

definition Handle_LastChild :: "links \<Rightarrow> XMLHandle \<Rightarrow> XMLHandle" where
  "Handle_LastChild h n = (case n of Some x \<Rightarrow> x_last h x | None \<Rightarrow> None)"

definition Handle_PreviousSibling :: "links \<Rightarrow> XMLHandle \<Rightarrow> XMLHandle" where
  "Handle_PreviousSibling h n = (case n of Some x \<Rightarrow> x_prev h x | None \<Rightarrow> None)"

definition Handle_NextSibling :: "links \<Rightarrow> XMLHandle \<Rightarrow> XMLHandle" where
  "Handle_NextSibling h n = (case n of Some x \<Rightarrow> x_next h x | None \<Rightarrow> None)"

definition Handle_FirstChildElement :: "nat \<Rightarrow> (nat \<Rightarrow> bool) \<Rightarrow> links \<Rightarrow> XMLHandle \<Rightarrow> XMLHandle res" where
  "Handle_FirstChildElement fuel is_elem h n = (case n of Some x \<Rightarrow> FirstChildElement_link fuel is_elem h x | None \<Rightarrow> Inr None)"

definition Handle_LastChildElement :: "nat \<Rightarrow> (nat \<Rightarrow> bool) \<Rightarrow> links \<Rightarrow> XMLHandle \<Rightarrow> XMLHandle res" where
  "Handle_LastChildElement fuel is_elem h n = (case n of Some x \<Rightarrow> LastChildElement_link fuel is_elem h x | None \<Rightarrow> Inr None)"

definition Handle_PreviousSiblingElement :: "nat \<Rightarrow> (nat \<Rightarrow> bool) \<Rightarrow> links \<Rightarrow> XMLHandle \<Rightarrow> XMLHandle res" where
  "Handle_PreviousSiblingElement fuel is_elem h n = (case n of Some x \<Rightarrow> PreviousSiblingElement fuel is_elem h x | None \<Rightarrow> Inr None)"

definition Handle_NextSiblingElement :: "nat \<Rightarrow> (nat \<Rightarrow> bool) \<Rightarrow> links \<Rightarrow> XMLHandle \<Rightarrow> XMLHandle res" where
  "Handle_NextSiblingElement fuel is_elem h n = (case n of Some x \<Rightarrow> NextSiblingElement fuel is_elem h x | None \<Rightarrow> Inr None)"

text \<open>The casts keep the node if it is of the kind asked for.\<close>

definition Handle_cast :: "(nat \<Rightarrow> bool) \<Rightarrow> XMLHandle \<Rightarrow> nat option" where
  "Handle_cast kind n = (case n of Some x \<Rightarrow> if kind x then Some x else None | None \<Rightarrow> None)"

datatype nav_step =
    StepFirst | StepLast | StepPrev | StepNext
  | StepFirstElement "nat \<Rightarrow> bool" | StepLastElement "nat \<Rightarrow> bool"
  | StepPrevElement "nat \<Rightarrow> bool" | StepNextElement "nat \<Rightarrow> bool"

fun handle_step :: "nat \<Rightarrow> links \<Rightarrow> nav_step \<Rightarrow> XMLHandle \<Rightarrow> XMLHandle res" where
  "handle_step fuel h StepFirst n = Inr (Handle_FirstChild h n)"
| "handle_step fuel h StepLast n = Inr (Handle_LastChild h n)"
| "handle_step fuel h StepPrev n = Inr (Handle_PreviousSibling h n)"
| "handle_step fuel h StepNext n = Inr (Handle_NextSibling h n)"
| "handle_step fuel h (StepFirstElement P) n = Handle_FirstChildElement fuel P h n"
| "handle_step fuel h (StepLastElement P) n = Handle_LastChildElement fuel P h n"
| "handle_step fuel h (StepPrevElement P) n = Handle_PreviousSiblingElement fuel P h n"
| "handle_step fuel h (StepNextElement P) n = Handle_NextSiblingElement fuel P h n"

section \<open>The specification\<close>

text \<open>
  Siblings of a node in the lists of children: what follows it and, from near to far, what precedes it. A
  node in no list has none.
\<close>

definition siblings_after :: "(nat \<Rightarrow> nat list) \<Rightarrow> nat \<Rightarrow> nat option \<Rightarrow> nat list" where
  "siblings_after K x p = (case p of None \<Rightarrow> [] | Some q \<Rightarrow> tl (dropWhile (\<lambda>y. y \<noteq> x) (K q)))"

definition siblings_before :: "(nat \<Rightarrow> nat list) \<Rightarrow> nat \<Rightarrow> nat option \<Rightarrow> nat list" where
  "siblings_before K x p = (case p of None \<Rightarrow> [] | Some q \<Rightarrow> rev (takeWhile (\<lambda>y. y \<noteq> x) (K q)))"

fun spec_step :: "(nat \<Rightarrow> nat list) \<Rightarrow> (nat \<Rightarrow> nat option) \<Rightarrow> nav_step \<Rightarrow> nat \<Rightarrow> nat option" where
  "spec_step K par StepFirst x = find (\<lambda>_. True) (K x)"
| "spec_step K par StepLast x = find (\<lambda>_. True) (rev (K x))"
| "spec_step K par StepPrev x = find (\<lambda>_. True) (siblings_before K x (par x))"
| "spec_step K par StepNext x = find (\<lambda>_. True) (siblings_after K x (par x))"
| "spec_step K par (StepFirstElement P) x = find P (K x)"
| "spec_step K par (StepLastElement P) x = find P (rev (K x))"
| "spec_step K par (StepPrevElement P) x = find P (siblings_before K x (par x))"
| "spec_step K par (StepNextElement P) x = find P (siblings_after K x (par x))"

definition spec_chain :: "(nat \<Rightarrow> nat list) \<Rightarrow> (nat \<Rightarrow> nat option) \<Rightarrow> nav_step list \<Rightarrow> nat option \<Rightarrow> nat option" where
  "spec_chain K par steps n = fold (\<lambda>s n. Option.bind n (spec_step K par s)) steps n"

text \<open>The sibling pointers of a node that is in no list are null: it was created so or unlinked.\<close>

definition roots_alone :: "links \<Rightarrow> bool" where
  "roots_alone h \<longleftrightarrow> (\<forall>x. x_parent h x = None \<longrightarrow> x_prev h x = None \<and> x_next h x = None)"

lemma find_True: "find (\<lambda>_. True) ks = hd_or None ks"
  by (cases ks) simp_all

lemma hd_or_rev: "last_or None (rev ks) = hd_or None ks" "hd_or None (rev ks) = last_or None ks"
  by (cases ks; simp) (cases ks rule: rev_cases; simp)

lemma sibling_lists:
  assumes "represents h K" "roots_alone h"
  shows "\<exists>p. segment (x_prev h) (x_next h) p (siblings_after K x (x_parent h x)) None \<and> x_next h x = hd_or None (siblings_after K x (x_parent h x))"
    and "\<exists>n. segment (x_prev h) (x_next h) None (rev (siblings_before K x (x_parent h x))) n \<and>
      x_prev h x = last_or None (rev (siblings_before K x (x_parent h x)))"
proof -
  have "(\<exists>p. segment (x_prev h) (x_next h) p (siblings_after K x (x_parent h x)) None \<and> x_next h x = hd_or None (siblings_after K x (x_parent h x))) \<and>
    (\<exists>n. segment (x_prev h) (x_next h) None (rev (siblings_before K x (x_parent h x))) n \<and>
      x_prev h x = last_or None (rev (siblings_before K x (x_parent h x))))"
  proof (cases "x_parent h x")
    case None
    then show ?thesis using assms(2) by (simp add: siblings_after_def siblings_before_def roots_alone_def)
  next
    case (Some q)
    then have "x \<in> set (K q)" using represents_parent [OF assms(1)] by blast
    then obtain xs ys where K: "K q = xs @ x # ys" "x \<notin> set xs" by (meson split_list_first)
    then have a: "siblings_after K x (Some q) = ys" "siblings_before K x (Some q) = rev xs"
      by (simp_all add: siblings_after_def siblings_before_def dropWhile_append takeWhile_append)
    have "segment (x_prev h) (x_next h) None (xs @ x # ys) None" using children_segment(1) [OF assms(1), of q] K(1) by simp
    then show ?thesis using Some a by auto
  qed
  then show "\<exists>p. segment (x_prev h) (x_next h) p (siblings_after K x (x_parent h x)) None \<and> x_next h x = hd_or None (siblings_after K x (x_parent h x))"
    "\<exists>n. segment (x_prev h) (x_next h) None (rev (siblings_before K x (x_parent h x))) n \<and>
      x_prev h x = last_or None (rev (siblings_before K x (x_parent h x)))" by blast+
qed

lemma length_siblings:
  assumes "\<And>q. length (K q) \<le> fuel"
  shows "length (siblings_after K x p) \<le> fuel" "length (siblings_before K x p) \<le> fuel"
proof -
  have "length (tl (dropWhile P ks)) \<le> length ks" "length (takeWhile P ks) \<le> length ks" for P and ks :: "nat list"
    using length_dropWhile_le [of P ks] length_takeWhile_le [of P ks] by auto
  then show "length (siblings_after K x p) \<le> fuel" "length (siblings_before K x p) \<le> fuel"
    using assms le_trans by (cases p; simp add: siblings_after_def siblings_before_def; blast)+
qed

lemma handle_step_spec:
  assumes "represents h K" "roots_alone h" "\<And>q. length (K q) \<le> fuel"
  shows "handle_step fuel h s n = Inr (Option.bind n (spec_step K (x_parent h) s))"
proof (cases n)
  case None
  then show ?thesis
    by (cases s) (simp_all add: Handle_FirstChild_def Handle_LastChild_def Handle_PreviousSibling_def Handle_NextSibling_def
      Handle_FirstChildElement_def Handle_LastChildElement_def Handle_PreviousSiblingElement_def Handle_NextSiblingElement_def)
next
  case (Some x)
  note c = children_segment [OF assms(1), of x]
  obtain p where a: "segment (x_prev h) (x_next h) p (siblings_after K x (x_parent h x)) None" "x_next h x = hd_or None (siblings_after K x (x_parent h x))"
    using sibling_lists(1) [OF assms(1,2)] by blast
  obtain m where b: "segment (x_prev h) (x_next h) None (rev (siblings_before K x (x_parent h x))) m"
    "x_prev h x = last_or None (rev (siblings_before K x (x_parent h x)))" using sibling_lists(2) [OF assms(1,2)] by blast
  note l = length_siblings [of K fuel, OF assms(3), of x "x_parent h x"]
  note w = walk_segment [OF c(1) assms(3)] walk_segment_back [OF c(1) assms(3)] walk_segment [OF a(1) l(1)]
    walk_segment_back [OF b(1), of fuel]
  show ?thesis using w l Some a(2) b(2) c(2,3)
    by (cases s) (simp_all add: find_True hd_or_rev Handle_FirstChild_def Handle_LastChild_def Handle_PreviousSibling_def Handle_NextSibling_def
      Handle_FirstChildElement_def Handle_LastChildElement_def Handle_PreviousSiblingElement_def Handle_NextSiblingElement_def
      FirstChildElement_link_def LastChildElement_link_def NextSiblingElement_def PreviousSiblingElement_def)
qed

text \<open>
  A chain of handle steps never faults, whatever it meets, and ends at the node that the same steps reach in the
  lists of children, or at null as soon as one of them has no target.
\<close>

lemma handle_chain:
  assumes "represents h K" and "roots_alone h" and "\<And>q. length (K q) \<le> fuel"
  shows "foldR (handle_step fuel h) steps n = Inr (spec_chain K (x_parent h) steps n)"
  by (induction steps arbitrary: n) (simp_all add: spec_chain_def handle_step_spec [OF assms])

lemma handle_chain_example:
  "foldR (handle_step 2 ex_links) [StepFirst, StepNext, StepNext, StepFirst] (Some 0) = Inr None"
proof -
  have r: "roots_alone ex_links" by (auto simp: roots_alone_def ex_links_def)
  have l: "length (ex_kids q) \<le> 2" for q by (simp add: ex_kids_def)
  have "spec_chain ex_kids (x_parent ex_links) [StepFirst, StepNext, StepNext, StepFirst] (Some 0) = None"
    by (simp add: spec_chain_def ex_kids_def ex_links_def siblings_after_def)
  then show ?thesis by (simp only: handle_chain [OF ex_represents r l])
qed

end
