(* ===== verification/Zstore_XmlStr.thy ===== *)
theory Zstore_XmlStr
  imports Zstore_Interfaces
begin

text \<open>
  The ownership of strings in the XML library (\<^verbatim>\<open>src/src/tinyxml2.cpp\<close>, \<open>StrPair\<close>): a string range points into the
  buffer of the document, at a string that the caller keeps, or at memory of its own, which the flag
  \<open>NEEDS_DELETE\<close> tells. The state has all pairs of the process and the set of live \<^verbatim>\<open>new char[]\<close> blocks; a \<^verbatim>\<open>delete[]\<close> of
  anything else is a fault. \<open>step_system\<close> is interpreted for the sequences of operations.
\<close>

unbundle bit_operations_syntax

section \<open>Operations\<close>

definition NEEDS_FLUSH :: u32 where "NEEDS_FLUSH = 0x100"
definition NEEDS_DELETE :: u32 where "NEEDS_DELETE = 0x200"

record StrPair =
  sp_flags :: u32
  sp_start :: nat
  sp_end :: nat

record sp_state =
  sp_pairs :: "nat \<Rightarrow> StrPair"
  sp_live :: "nat set"

definition newStrPair :: StrPair where
  "newStrPair = \<lparr>sp_flags = 0, sp_start = 0, sp_end = 0\<rparr>"

definition owns :: "StrPair \<Rightarrow> bool" where
  "owns p \<longleftrightarrow> sp_flags p AND NEEDS_DELETE \<noteq> 0"

definition StrPair_Reset :: "nat \<Rightarrow> sp_state \<Rightarrow> sp_state res" where
  "StrPair_Reset this s =
     (let p = sp_pairs s this in
      bindR (if sp_flags p AND NEEDS_DELETE \<noteq> 0
             then (if sp_start p \<in> sp_live s then Inr (s\<lparr>sp_live := sp_live s - {sp_start p}\<rparr>) else Inl InvalidFree)
             else Inr s) (\<lambda>s.
        Inr (s\<lparr>sp_pairs := (sp_pairs s)(this := \<lparr>sp_flags = 0, sp_start = 0, sp_end = 0\<rparr>)\<rparr>)))"

definition StrPair_Set :: "nat \<Rightarrow> nat \<Rightarrow> nat \<Rightarrow> u32 \<Rightarrow> sp_state \<Rightarrow> sp_state res" where
  "StrPair_Set this start stop flags s =
     bindR (StrPair_Reset this s) (\<lambda>s.
       Inr (s\<lparr>sp_pairs := (sp_pairs s)(this := \<lparr>sp_flags = flags OR NEEDS_FLUSH, sp_start = start, sp_end = stop\<rparr>)\<rparr>))"

definition SetInternedStr :: "nat \<Rightarrow> nat \<Rightarrow> sp_state \<Rightarrow> sp_state res" where
  "SetInternedStr this str s =
     bindR (StrPair_Reset this s) (\<lambda>s.
       Inr (s\<lparr>sp_pairs := (sp_pairs s)(this := (sp_pairs s this)\<lparr>sp_start := str\<rparr>)\<rparr>))"

text \<open>\<open>block\<close> is the address that \<^verbatim>\<open>new char[len + 1]\<close> returns.\<close>

definition SetStr :: "nat \<Rightarrow> nat \<Rightarrow> nat \<Rightarrow> u32 \<Rightarrow> sp_state \<Rightarrow> sp_state res" where
  "SetStr this block len flags s =
     bindR (StrPair_Reset this s) (\<lambda>s.
       Inr (s\<lparr>sp_live := insert block (sp_live s),
              sp_pairs := (sp_pairs s)(this := \<lparr>sp_flags = flags OR NEEDS_DELETE, sp_start = block, sp_end = block + len\<rparr>)\<rparr>))"

definition TransferTo :: "nat \<Rightarrow> nat \<Rightarrow> sp_state \<Rightarrow> sp_state res" where
  "TransferTo this other s =
     (if this = other then Inr s
      else bindR (StrPair_Reset other s) (\<lambda>s.
        Inr (s\<lparr>sp_pairs := (sp_pairs s)(other := sp_pairs s this, this := \<lparr>sp_flags = 0, sp_start = 0, sp_end = 0\<rparr>)\<rparr>)))"

text \<open>
  What \<open>GetStr\<close> does to the fields: on its first call it clears all flags but the ownership, and a collapsed string starts
  \<open>skip\<close> characters later.
\<close>

definition GetStr_fields :: "nat \<Rightarrow> nat \<Rightarrow> sp_state \<Rightarrow> sp_state res" where
  "GetStr_fields this skip s =
     (let p = sp_pairs s this in
      if sp_flags p AND NEEDS_FLUSH \<noteq> 0
      then Inr (s\<lparr>sp_pairs := (sp_pairs s)(this :=
             p\<lparr>sp_flags := sp_flags p AND NEEDS_DELETE, sp_start := (if sp_flags p AND 4 \<noteq> 0 then sp_start p + skip else sp_start p)\<rparr>)\<rparr>)
      else Inr s)"

datatype sp_op =
    OpReset nat
  | OpSet nat nat nat u32
  | OpInterned nat nat
  | OpSetStr nat nat nat u32
  | OpTransfer nat nat
  | OpGetStr nat nat

fun sp_run :: "sp_op \<Rightarrow> sp_state \<Rightarrow> sp_state res" where
  "sp_run (OpReset i) s = StrPair_Reset i s"
| "sp_run (OpSet i a b f) s = StrPair_Set i a b f s"
| "sp_run (OpInterned i a) s = SetInternedStr i a s"
| "sp_run (OpSetStr i a n f) s = SetStr i a n f s"
| "sp_run (OpTransfer i j) s = TransferTo i j s"
| "sp_run (OpGetStr i k) s = GetStr_fields i k s"

text \<open>The callers pass modes of a string, which are below \<open>NEEDS_FLUSH\<close>, and \<^verbatim>\<open>new\<close> returns a block that is not in use.\<close>

fun sp_allowed :: "sp_op \<Rightarrow> sp_state \<Rightarrow> bool" where
  "sp_allowed (OpSet i a b f) s \<longleftrightarrow> f < NEEDS_FLUSH"
| "sp_allowed (OpSetStr i a n f) s \<longleftrightarrow> f < NEEDS_FLUSH \<and> a \<notin> sp_live s"
| "sp_allowed _ s \<longleftrightarrow> True"

definition sp_step :: "sp_state \<Rightarrow> sp_state \<Rightarrow> bool" where
  "sp_step s s' \<longleftrightarrow> (\<exists>op. sp_allowed op s \<and> sp_run op s = Inr s')"

definition sp_init :: sp_state where
  "sp_init = \<lparr>sp_pairs = (\<lambda>_. newStrPair), sp_live = {}\<rparr>"

section \<open>Ownership\<close>

text \<open>
  Every live block has one owner, and a pair that is still to be normalised owns nothing.
\<close>

definition sp_ok :: "(nat \<Rightarrow> StrPair) \<Rightarrow> nat set \<Rightarrow> bool" where
  "sp_ok P L \<longleftrightarrow>
     (\<forall>i j. owns (P i) \<longrightarrow> owns (P j) \<longrightarrow> sp_start (P i) = sp_start (P j) \<longrightarrow> i = j) \<and>
     (\<forall>a. a \<in> L \<longleftrightarrow> (\<exists>i. owns (P i) \<and> sp_start (P i) = a)) \<and>
     (\<forall>i. owns (P i) \<longrightarrow> sp_flags (P i) AND NEEDS_FLUSH = 0)"

definition sp_inv :: "sp_state \<Rightarrow> bool" where
  "sp_inv s \<longleftrightarrow> sp_ok (sp_pairs s) (sp_live s)"

lemma flag_bits:
  "(f AND NEEDS_DELETE = 0) = (\<not> bit f 9)" "(f AND NEEDS_FLUSH = 0) = (\<not> bit f 8)"
  using and_exp_eq_0_iff_not_bit [of f 9] and_exp_eq_0_iff_not_bit [of f 8]
  by (simp_all add: NEEDS_DELETE_def NEEDS_FLUSH_def)

lemma small_mode:
  assumes "f < NEEDS_FLUSH" shows "\<not> bit f 8" "\<not> bit f 9"
proof -
  have "unat f < 256" using assms by (simp add: NEEDS_FLUSH_def word_less_nat_alt)
  then have "\<not> bit (unat f) 8" "\<not> bit (unat f) 9" by (simp_all add: bit_iff_odd)
  then show "\<not> bit f 8" "\<not> bit f 9" by (simp_all add: bit_unsigned_iff)
qed

lemma owns_flags:
  "\<not> owns newStrPair" "\<not> owns \<lparr>sp_flags = 0, sp_start = a, sp_end = b\<rparr>" "owns \<lparr>sp_flags = f OR NEEDS_DELETE, sp_start = a, sp_end = b\<rparr>"
  "f < NEEDS_FLUSH \<Longrightarrow> \<not> owns \<lparr>sp_flags = f OR NEEDS_FLUSH, sp_start = a, sp_end = b\<rparr>"
  "f < NEEDS_FLUSH \<Longrightarrow> (f OR NEEDS_DELETE) AND NEEDS_FLUSH = 0"
  using small_mode [of f] by (simp_all add: owns_def newStrPair_def flag_bits bit_or_iff)
    (simp_all add: NEEDS_DELETE_def NEEDS_FLUSH_def bit_numeral_rec)

lemma Reset_ok:
  assumes "sp_inv s"
  obtains s' where "StrPair_Reset i s = Inr s'" "sp_inv s'" "sp_pairs s' = (sp_pairs s)(i := newStrPair)" "sp_live s' \<subseteq> sp_live s"
proof -
  let ?p = "sp_pairs s i"
  define s' where "s' = s\<lparr>sp_live := (if owns ?p then sp_live s - {sp_start ?p} else sp_live s), sp_pairs := (sp_pairs s)(i := newStrPair)\<rparr>"
  have "StrPair_Reset i s = Inr s'"
    using assms by (auto simp: StrPair_Reset_def Let_def s'_def owns_def sp_inv_def sp_ok_def newStrPair_def)
  moreover have "sp_inv s'"
    using assms owns_flags(1) unfolding sp_inv_def sp_ok_def s'_def by (simp, metis)
  ultimately show ?thesis by (rule that) (auto simp: s'_def)
qed


text \<open>Storing a pair that owns nothing, or one with a fresh block, after the reset.\<close>

lemma inv_put_unowned:
  assumes "sp_inv s" "\<not> owns (sp_pairs s i)" "\<not> owns p"
  shows "sp_inv (s\<lparr>sp_pairs := (sp_pairs s)(i := p)\<rparr>)"
  using assms unfolding sp_inv_def sp_ok_def by (simp, metis)

lemma inv_put_fresh:
  assumes "sp_inv s" "\<not> owns (sp_pairs s i)" "a \<notin> sp_live s" "f < NEEDS_FLUSH"
  shows "sp_inv (s\<lparr>sp_live := insert a (sp_live s), sp_pairs := (sp_pairs s)(i := \<lparr>sp_flags = f OR NEEDS_DELETE, sp_start = a, sp_end = b\<rparr>)\<rparr>)"
  using assms owns_flags(3) [of f a b] owns_flags(5) [OF assms(4)] unfolding sp_inv_def sp_ok_def by (simp, metis)

lemma inv_move:
  assumes "sp_inv s" "\<not> owns (sp_pairs s j)" "i \<noteq> j" "\<not> owns q"
  shows "sp_inv (s\<lparr>sp_pairs := (sp_pairs s)(j := sp_pairs s i, i := q)\<rparr>)"
proof -
  let ?P = "(sp_pairs s)(j := sp_pairs s i, i := q)"
  let ?g = "\<lambda>k. if k = j then i else k"
  have g: "owns (?P k) \<Longrightarrow> k \<noteq> i \<and> ?P k = sp_pairs s (?g k)" for k using assms(3,4) by auto
  have kept: "\<exists>k. owns (?P k) \<and> ?P k = sp_pairs s m" if "owns (sp_pairs s m)" for m
  proof (cases "m = i")
    case True
    then show ?thesis using that assms(3) by (intro exI [of _ j]) simp
  next
    case False
    then show ?thesis using that assms(2) by (intro exI [of _ m]) auto
  qed
  have inj: "k = l" if "owns (?P k)" "owns (?P l)" "sp_start (?P k) = sp_start (?P l)" for k l
  proof -
    have "?g k = ?g l" using g [OF that(1)] g [OF that(2)] that assms(1) unfolding sp_inv_def sp_ok_def by metis
    then show "k = l" using g [OF that(1)] g [OF that(2)] by (auto split: if_splits)
  qed
  have live: "a \<in> sp_live s \<longleftrightarrow> (\<exists>k. owns (?P k) \<and> sp_start (?P k) = a)" for a
  proof
    assume "a \<in> sp_live s"
    then obtain m where "owns (sp_pairs s m)" "sp_start (sp_pairs s m) = a" using assms(1) by (auto simp: sp_inv_def sp_ok_def)
    then show "\<exists>k. owns (?P k) \<and> sp_start (?P k) = a" using kept [of m] by metis
  next
    assume "\<exists>k. owns (?P k) \<and> sp_start (?P k) = a"
    then obtain k where "owns (?P k)" "sp_start (?P k) = a" by blast
    then show "a \<in> sp_live s" using g [of k] assms(1) unfolding sp_inv_def sp_ok_def by metis
  qed
  have flush: "sp_flags (?P k) AND NEEDS_FLUSH = 0" if "owns (?P k)" for k
  proof -
    have "\<exists>m. ?P k = sp_pairs s m" using g [OF that] by blast
    then obtain m where m: "?P k = sp_pairs s m" ..
    then have "owns (sp_pairs s m)" using that by (simp only:)
    then show ?thesis unfolding m using assms(1) by (simp add: sp_inv_def sp_ok_def)
  qed
  have "sp_ok ?P (sp_live s)" unfolding sp_ok_def
    by (intro conjI allI impI) (rule inj, assumption+, rule live, rule flush, assumption)
  then show ?thesis by (simp add: sp_inv_def)
qed

lemma inv_GetStr:
  assumes "sp_inv s" shows "\<exists>s'. GetStr_fields i k s = Inr s' \<and> sp_inv s'"
proof (cases "sp_flags (sp_pairs s i) AND NEEDS_FLUSH = 0")
  case True
  then show ?thesis using assms by (simp add: GetStr_fields_def)
next
  case False
  let ?p = "sp_pairs s i"
  have no: "\<not> owns ?p" using assms False by (auto simp: sp_inv_def sp_ok_def)
  have "\<not> owns (?p\<lparr>sp_flags := sp_flags ?p AND NEEDS_DELETE, sp_start := x\<rparr>)" for x
    using no by (simp add: owns_def)
  from inv_put_unowned [OF assms no this] False show ?thesis by (simp add: GetStr_fields_def Let_def)
qed

lemma sp_run_ok:
  assumes "sp_inv s" "sp_allowed op s"
  shows "\<exists>s'. sp_run op s = Inr s' \<and> sp_inv s'"
proof (cases op)
  case (OpReset i)
  obtain s' where "StrPair_Reset i s = Inr s'" "sp_inv s'" using Reset_ok [OF assms(1)] by blast
  then show ?thesis using OpReset by simp
next
  case (OpSet i a b f)
  obtain s' where s': "StrPair_Reset i s = Inr s'" "sp_inv s'" "sp_pairs s' = (sp_pairs s)(i := newStrPair)" using Reset_ok [OF assms(1)] by blast
  then show ?thesis using inv_put_unowned [OF s'(2), of i] owns_flags(1,4) OpSet assms(2) by (simp add: StrPair_Set_def)
next
  case (OpInterned i a)
  obtain s' where s': "StrPair_Reset i s = Inr s'" "sp_inv s'" "sp_pairs s' = (sp_pairs s)(i := newStrPair)" using Reset_ok [OF assms(1)] by blast
  then show ?thesis using inv_put_unowned [OF s'(2), of i] owns_flags(1,2) OpInterned by (simp add: SetInternedStr_def newStrPair_def)
next
  case (OpSetStr i a n f)
  obtain s' where s': "StrPair_Reset i s = Inr s'" "sp_inv s'" "sp_pairs s' = (sp_pairs s)(i := newStrPair)" "sp_live s' \<subseteq> sp_live s"
    using Reset_ok [OF assms(1)] by blast
  then show ?thesis using inv_put_fresh [OF s'(2), of i a f] owns_flags(1) OpSetStr assms(2) by (auto simp: SetStr_def)
next
  case (OpTransfer i j)
  obtain s' where s': "StrPair_Reset j s = Inr s'" "sp_inv s'" "sp_pairs s' = (sp_pairs s)(j := newStrPair)" using Reset_ok [OF assms(1)] by blast
  then show ?thesis using inv_move [OF s'(2), of j i] owns_flags(1,2) OpTransfer assms(1) by (auto simp: TransferTo_def)
next
  case (OpGetStr i k)
  then show ?thesis using inv_GetStr [OF assms(1)] by simp
qed

interpretation str_pairs: step_system sp_step sp_init sp_inv
proof
  show "sp_inv sp_init" using owns_flags(1) by (simp add: sp_inv_def sp_ok_def sp_init_def)
  show "sp_inv s'" if "sp_step s s'" "sp_inv s" for s s'
    using that sp_run_ok by (fastforce simp: sp_step_def)
qed

lemma Reset_all:
  assumes "sp_inv s"
  shows "\<exists>s'. foldR StrPair_Reset is s = Inr s' \<and> sp_inv s' \<and> sp_pairs s' = (\<lambda>i. if i \<in> set is then newStrPair else sp_pairs s i)"
  using assms
proof (induction "is" arbitrary: s)
  case (Cons i "is")
  obtain s1 where s1: "StrPair_Reset i s = Inr s1" "sp_inv s1" "sp_pairs s1 = (sp_pairs s)(i := newStrPair)" using Reset_ok [OF Cons.prems] by blast
  from Cons.IH [OF s1(2)] obtain s2 where "foldR StrPair_Reset is s1 = Inr s2" "sp_inv s2"
    "sp_pairs s2 = (\<lambda>k. if k \<in> set is then newStrPair else sp_pairs s1 k)" by blast
  then show ?case using s1 by (auto simp: fun_eq_iff)
qed (simp add: fun_eq_iff)

text \<open>
  (C22) Over any sequence of operations on string pairs every block of memory has exactly one owner, so that no
  operation frees a block twice, and when the pairs are destroyed no block is left.
\<close>

theorem StrPair_ownership:
  assumes "sp_step\<^sup>*\<^sup>* sp_init s" and "\<And>i. owns (sp_pairs s i) \<Longrightarrow> i \<in> set is"
  shows "(\<forall>a \<in> sp_live s. \<exists>!i. owns (sp_pairs s i) \<and> sp_start (sp_pairs s i) = a) \<and>
    (\<forall>op. sp_allowed op s \<longrightarrow> (\<exists>s'. sp_run op s = Inr s')) \<and>
    (\<exists>s'. foldR StrPair_Reset is s = Inr s' \<and> sp_live s' = {})"
proof -
  have inv: "sp_inv s" using str_pairs.inv_reachable [OF assms(1)] .
  obtain s' where s': "foldR StrPair_Reset is s = Inr s'" "sp_inv s'" "sp_pairs s' = (\<lambda>i. if i \<in> set is then newStrPair else sp_pairs s i)"
    using Reset_all [OF inv] by blast
  then have "\<not> owns (sp_pairs s' i)" for i using owns_flags(1) assms(2) by auto
  then have "sp_live s' = {}" using s'(2) by (auto simp: sp_inv_def sp_ok_def)
  moreover have "\<forall>a \<in> sp_live s. \<exists>!i. owns (sp_pairs s i) \<and> sp_start (sp_pairs s i) = a" using inv by (metis sp_inv_def sp_ok_def)
  ultimately show ?thesis using s'(1) sp_run_ok [OF inv] by blast
qed

theorem StrPair_ownership_witness:
  "\<exists>s s'. sp_run (OpSetStr 1 100 3 0) sp_init = Inr s \<and> sp_live s = {100} \<and> foldR StrPair_Reset [1] s = Inr s' \<and> sp_live s' = {}"
proof -
  have al: "sp_allowed (OpSetStr 1 100 3 0) sp_init" by (simp add: sp_init_def NEEDS_FLUSH_def)
  define s where "s = \<lparr>sp_pairs = (\<lambda>_. newStrPair)(1 := \<lparr>sp_flags = NEEDS_DELETE, sp_start = 100, sp_end = 103\<rparr>), sp_live = {100}\<rparr>"
  have run: "sp_run (OpSetStr 1 100 3 0) sp_init = Inr s"
    by (simp add: SetStr_def StrPair_Reset_def sp_init_def s_def newStrPair_def Let_def fun_upd_def fun_eq_iff)
  have st: "sp_step\<^sup>*\<^sup>* sp_init s" using al run by (intro r_into_rtranclp) (auto simp only: sp_step_def)
  have "\<And>i. owns (sp_pairs s i) \<Longrightarrow> i \<in> set [1]" using owns_flags(1) by (auto simp: s_def split: if_splits)
  from StrPair_ownership [OF st this] run show ?thesis by (auto simp: s_def)
qed

end
