(* ===== verification/Zstore_XmlVisit.thy ===== *)
theory Zstore_XmlVisit
  imports Zstore_XmlPrint
begin

text \<open>
  The visitor interface of the XML library (\<^verbatim>\<open>src/src/include/tinyxml2.h\<close>, \<open>XMLVisitor\<close>; the \<open>Accept\<close> methods of
  \<^verbatim>\<open>src/src/tinyxml2.cpp\<close>). A visitor is a function from the event to a transformer of its state that returns the
  boolean of the visitor method. \<open>Zstore_XmlPrint\<close> prints by going through all nodes; here it is shown that this is what
  \<open>Accept\<close> does with the printer as its visitor, in which order a visitor sees a document, and what its answers stop.
\<close>

section \<open>Visitors\<close>

datatype visit_event =
    VisitEnterDocument | VisitExitDocument
  | VisitEnter XMLNode | VisitExit XMLNode
  | Visit XMLNode

type_synonym 'v visitor = "visit_event \<Rightarrow> 'v \<Rightarrow> (bool \<times> 'v) res"

definition XMLVisitor :: "'v visitor" where
  "XMLVisitor e s = Inr (True, s)"

fun accept_node :: "'v visitor \<Rightarrow> XMLNode \<Rightarrow> 'v \<Rightarrow> (bool \<times> 'v) res"
and accept_children :: "'v visitor \<Rightarrow> XMLNode list \<Rightarrow> 'v \<Rightarrow> 'v res" where
  "accept_node visitor (XMLElement name as ks) s =
     bindR (visitor (VisitEnter (XMLElement name as ks)) s) (\<lambda>(go, s).
     bindR (if go then accept_children visitor ks s else Inr s) (\<lambda>s.
       visitor (VisitExit (XMLElement name as ks)) s))"
| "accept_node visitor n s = visitor (Visit n) s"
| "accept_children visitor [] s = Inr s"
| "accept_children visitor (n # ns) s =
     bindR (accept_node visitor n s) (\<lambda>(go, s). if go then accept_children visitor ns s else Inr s)"

definition XMLDocument_Accept :: "'v visitor \<Rightarrow> XMLDocument \<Rightarrow> 'v \<Rightarrow> (bool \<times> 'v) res" where
  "XMLDocument_Accept visitor doc s =
     bindR (visitor VisitEnterDocument s) (\<lambda>(go, s).
     bindR (if go then accept_children visitor (docKids doc) s else Inr s) (\<lambda>s.
       visitor VisitExitDocument s))"

section \<open>The printer as a visitor\<close>

definition Visit_text :: "string \<Rightarrow> bool \<Rightarrow> XMLPrinter \<Rightarrow> bool \<times> XMLPrinter" where
  "Visit_text v cdata pr = (True, PushText v cdata pr)"

definition Visit_comment :: "string \<Rightarrow> XMLPrinter \<Rightarrow> bool \<times> XMLPrinter" where
  "Visit_comment v pr = (True, PushComment v pr)"

definition Visit_declaration :: "string \<Rightarrow> XMLPrinter \<Rightarrow> bool \<times> XMLPrinter" where
  "Visit_declaration v pr = (True, PushDeclaration v pr)"

definition Visit_unknown :: "string \<Rightarrow> XMLPrinter \<Rightarrow> bool \<times> XMLPrinter" where
  "Visit_unknown v pr = (True, PushUnknown v pr)"

definition printer_visitor :: "XMLDocument \<Rightarrow> XMLPrinter visitor" where
  "printer_visitor doc e pr =
     (case e of
        VisitEnterDocument \<Rightarrow> Inr (True, VisitEnter_document doc pr)
      | VisitExitDocument \<Rightarrow> XMLVisitor e pr
      | VisitEnter n \<Rightarrow> Inr (True, VisitEnter_element (Name n) (attrs n) pr)
      | VisitExit n \<Rightarrow> bindR (VisitExit_element pr) (\<lambda>pr. Inr (True, pr))
      | Visit n \<Rightarrow> Inr (case n of
            XMLText v cdata \<Rightarrow> Visit_text v cdata pr
          | XMLComment v \<Rightarrow> Visit_comment v pr
          | XMLDeclaration v \<Rightarrow> Visit_declaration v pr
          | XMLUnknown v \<Rightarrow> Visit_unknown v pr
          | XMLElement _ _ _ \<Rightarrow> (True, pr)))"

lemmas printer_visits = printer_visitor_def Visit_text_def Visit_comment_def Visit_declaration_def Visit_unknown_def
  XMLVisitor_def

lemma accept_printer:
  "accept_node (printer_visitor doc) n pr = bindR (Accept n pr) (\<lambda>pr. Inr (True, pr))"
  "accept_children (printer_visitor doc) ns pr = Accept_kids ns pr"
proof (induction n pr and ns pr rule: Accept_Accept_kids.induct)
  case (1 name as ks pr)
  then show ?case by (simp add: printer_visits bindR_def split: sum.split)
next
  case (7 n ns pr)
  then show ?case by (auto simp: bindR_def split: sum.split)
qed (simp_all add: printer_visits bindR_def)


section \<open>The order of a visit\<close>

text \<open>The events of a document in document order.\<close>

fun node_events :: "XMLNode \<Rightarrow> visit_event list" where
  "node_events (XMLElement name as ks) =
     VisitEnter (XMLElement name as ks) # concat (map node_events ks) @ [VisitExit (XMLElement name as ks)]"
| "node_events n = [Visit n]"

definition document_events :: "XMLDocument \<Rightarrow> visit_event list" where
  "document_events doc = VisitEnterDocument # concat (map node_events (docKids doc)) @ [VisitExitDocument]"

text \<open>A visitor that writes down the events and answers by a predicate.\<close>

definition recorder :: "(visit_event \<Rightarrow> bool) \<Rightarrow> visit_event list visitor" where
  "recorder p e seen = Inr (p e, seen @ [e])"

lemma accept_recorder_all:
  "accept_node (recorder (\<lambda>_. True)) n seen = Inr (True, seen @ node_events n)"
  "accept_children (recorder (\<lambda>_. True)) ns seen = Inr (seen @ concat (map node_events ns))"
  by (induction "recorder (\<lambda>_. True)" n seen and "recorder (\<lambda>_. True)" ns seen rule: accept_node_accept_children.induct)
    (simp_all add: recorder_def bindR_def)

text \<open>
  A visitor that always answers true sees every node of the document once, in document order, an element
  before and after its children.
\<close>

lemma visit_in_document_order:
  "XMLDocument_Accept (recorder (\<lambda>_. True)) doc [] = Inr (True, document_events doc)"
  by (simp add: XMLDocument_Accept_def recorder_def accept_recorder_all document_events_def bindR_def)

text \<open>
  A visitor that answers false when it enters an element \<open>e\<close> skips the children of \<open>e\<close>; the siblings that follow are
  decided by the answer when it leaves \<open>e\<close>, not by this one.
\<close>

lemma refused_element_siblings:
  assumes "ToElement e" and "\<not> p (VisitEnter e)" and "p (VisitExit e)"
  shows "accept_children (recorder p) (e # ns) seen = accept_children (recorder p) ns (seen @ [VisitEnter e, VisitExit e])"
  using assms by (cases e) (simp_all add: recorder_def bindR_def ToElement_def)

lemma refused_element_siblings_example:
  "accept_children (recorder (\<lambda>e. e \<noteq> VisitEnter (XMLElement ''a'' [] [XMLComment ''b''])))
     [XMLElement ''a'' [] [XMLComment ''b''], XMLText ''c'' False] [] =
   Inr [VisitEnter (XMLElement ''a'' [] [XMLComment ''b'']), VisitExit (XMLElement ''a'' [] [XMLComment ''b'']), Visit (XMLText ''c'' False)]"
  using refused_element_siblings [of "XMLElement ''a'' [] [XMLComment ''b'']"
      "\<lambda>e. e \<noteq> VisitEnter (XMLElement ''a'' [] [XMLComment ''b''])" "[XMLText ''c'' False]" "[]"]
  by (simp add: ToElement_def recorder_def)

end
