(* ===== verification/Zstore_XmlErr.thy ===== *)
theory Zstore_XmlErr
  imports Zstore_XmlNum
begin

text \<open>
  Error reports of the XML library (\<^verbatim>\<open>src/src/tinyxml2.cpp\<close>): the table of error names, which has to match the
  enumeration, and the text that \<open>SetError\<close> composes in a buffer of 1000 bytes and \<open>ErrorStr\<close> returns.
\<close>

section \<open>Names\<close>

text \<open>The number of an enumerator.\<close>

fun error_number :: "XMLError \<Rightarrow> nat" where
  "error_number XML_SUCCESS = 0"
| "error_number XML_NO_ATTRIBUTE = 1"
| "error_number XML_WRONG_ATTRIBUTE_TYPE = 2"
| "error_number XML_ERROR_FILE_NOT_FOUND = 3"
| "error_number XML_ERROR_FILE_COULD_NOT_BE_OPENED = 4"
| "error_number XML_ERROR_FILE_READ_ERROR = 5"
| "error_number XML_ERROR_PARSING_ELEMENT = 6"
| "error_number XML_ERROR_PARSING_ATTRIBUTE = 7"
| "error_number XML_ERROR_PARSING_TEXT = 8"
| "error_number XML_ERROR_PARSING_CDATA = 9"
| "error_number XML_ERROR_PARSING_COMMENT = 10"
| "error_number XML_ERROR_PARSING_DECLARATION = 11"
| "error_number XML_ERROR_PARSING_UNKNOWN = 12"
| "error_number XML_ERROR_EMPTY_DOCUMENT = 13"
| "error_number XML_ERROR_MISMATCHED_ELEMENT = 14"
| "error_number XML_ERROR_PARSING = 15"
| "error_number XML_CAN_NOT_CONVERT_TEXT = 16"
| "error_number XML_NO_TEXT_NODE = 17"
| "error_number XML_ELEMENT_DEPTH_EXCEEDED = 18"

definition errorNames :: "string list" where
  "errorNames = [''XML_SUCCESS'', ''XML_NO_ATTRIBUTE'', ''XML_WRONG_ATTRIBUTE_TYPE'', ''XML_ERROR_FILE_NOT_FOUND'',
     ''XML_ERROR_FILE_COULD_NOT_BE_OPENED'', ''XML_ERROR_FILE_READ_ERROR'', ''XML_ERROR_PARSING_ELEMENT'',
     ''XML_ERROR_PARSING_ATTRIBUTE'', ''XML_ERROR_PARSING_TEXT'', ''XML_ERROR_PARSING_CDATA'', ''XML_ERROR_PARSING_COMMENT'',
     ''XML_ERROR_PARSING_DECLARATION'', ''XML_ERROR_PARSING_UNKNOWN'', ''XML_ERROR_EMPTY_DOCUMENT'', ''XML_ERROR_MISMATCHED_ELEMENT'',
     ''XML_ERROR_PARSING'', ''XML_CAN_NOT_CONVERT_TEXT'', ''XML_NO_TEXT_NODE'', ''XML_ELEMENT_DEPTH_EXCEEDED'']"

definition ErrorIDToName :: "XMLError \<Rightarrow> string res" where
  "ErrorIDToName err =
     (if error_number err < length errorNames then Inr (errorNames ! error_number err) else Inl OutOfBounds)"

section \<open>Messages\<close>

text \<open>\<^verbatim>\<open>snprintf\<close> into \<open>n\<close> bytes keeps all but one for the terminator; \<^verbatim>\<open>%x\<close> prints hexadecimal digits.\<close>

definition snprintf :: "nat \<Rightarrow> string \<Rightarrow> string" where
  "snprintf n s = take (n - 1) s"

fun hex_string :: "nat \<Rightarrow> string" where
  "hex_string n = (if n < 16 then [''0123456789abcdef'' ! n] else hex_string (n div 16) @ [''0123456789abcdef'' ! (n mod 16)])"

declare hex_string.simps [simp del]

definition ERROR_BUFFER_SIZE :: nat where "ERROR_BUFFER_SIZE = 1000"

definition error_header :: "string \<Rightarrow> XMLError \<Rightarrow> int \<Rightarrow> string" where
  "error_header name err lineNum =
     ''Error='' @ name @ '' ErrorID='' @ dec_string (error_number err) @ '' (0x'' @ hex_string (error_number err) @
     '') Line number='' @ int_string lineNum"

text \<open>\<open>message\<close> is the formatted rest, or \<open>None\<close> for a null format. The result is the new error string.\<close>

definition SetError_str :: "XMLError \<Rightarrow> int \<Rightarrow> string option \<Rightarrow> string res" where
  "SetError_str err lineNum message =
     bindR (ErrorIDToName err) (\<lambda>name.
       let buffer = snprintf ERROR_BUFFER_SIZE (error_header name err lineNum) in
       Inr (case message of
              None \<Rightarrow> buffer
            | Some m \<Rightarrow>
                let buffer = buffer @ snprintf (ERROR_BUFFER_SIZE - length buffer) '': ''
                in buffer @ snprintf (ERROR_BUFFER_SIZE - length buffer) m))"

definition ErrorName :: "XMLDocument \<Rightarrow> string res" where
  "ErrorName doc = ErrorIDToName (errorID doc)"

section \<open>The report names the error\<close>

lemma error_names:
  "\<exists>name. ErrorIDToName e = Inr name \<and> 0 < length name \<and> length name \<le> 34"
  by (cases e) (simp_all add: ErrorIDToName_def errorNames_def)

lemma error_number_less: "error_number e < 19"
  by (cases e) simp_all

lemma hex_string_short: "n < 256 \<Longrightarrow> length (hex_string n) \<le> 2"
  by (subst hex_string.simps) (auto simp: hex_string.simps [of "n div 16"])

text \<open>The names of two errors differ, so a name identifies its error.\<close>

lemma ErrorIDToName_inj: "ErrorIDToName e = ErrorIDToName e' \<Longrightarrow> e = e'"
proof -
  assume eq: "ErrorIDToName e = ErrorIDToName e'"
  have d: "distinct errorNames" "length errorNames = 19" by (simp_all add: errorNames_def)
  have "error_number e = error_number e'"
    using eq error_number_less [of e] error_number_less [of e'] d nth_eq_iff_index_eq [OF d(1)] by (simp add: ErrorIDToName_def)
  then show "e = e'" by (cases e; cases e'; simp)
qed

lemma dec_string_digits: "n < 10 ^ Suc k \<Longrightarrow> length (dec_string n) \<le> Suc k"
proof (induction k arbitrary: n)
  case 0
  then show ?case by (subst dec_string.simps) simp
next
  case (Suc k)
  then have "n div 10 < 10 ^ Suc k" by (simp add: div_less_iff_less_mult)
  from Suc.IH [OF this] show ?case by (subst dec_string.simps) simp
qed

lemma error_header_short:
  assumes "- (2 ^ 31) \<le> lineNum" "lineNum < 2 ^ 31" "length name \<le> 34"
  shows "length (error_header name e lineNum) \<le> 100"
proof -
  have "nat (- lineNum) < 10 ^ Suc 9" "nat lineNum < 10 ^ Suc 9" using assms(1,2) by simp_all
  then have "length (int_string lineNum) \<le> 11"
    using dec_string_digits [of "nat (- lineNum)" 9] dec_string_digits [of "nat lineNum" 9] by (auto simp: int_string_def)
  moreover have "length (dec_string (error_number e)) \<le> 2" "length (hex_string (error_number e)) \<le> 2"
    using error_number_less [of e] dec_string_digits [of "error_number e" 1] hex_string_short [of "error_number e"] by simp_all
  ultimately show ?thesis using assms(3) by (simp add: error_header_def)
qed

text \<open>
  The report of an error names it, whatever the line, and is cut at the end of its message only: the buffer always holds
  the name, the number and the line.
\<close>

lemma SetError_reports:
  assumes "- (2 ^ 31) \<le> lineNum" and "lineNum < 2 ^ 31"
  shows "\<exists>name. ErrorIDToName e = Inr name \<and> name \<noteq> [] \<and> SetError_str e lineNum None = Inr (error_header name e lineNum) \<and>
    SetError_str e lineNum (Some m) = Inr (take 999 (error_header name e lineNum @ '': '' @ m))"
proof -
  obtain name where n: "ErrorIDToName e = Inr name" "0 < length name" "length name \<le> 34" using error_names by blast
  have h: "length (error_header name e lineNum) \<le> 100" by (rule error_header_short [OF assms n(3)])
  then have "999 - length (error_header name e lineNum) = Suc (Suc (997 - length (error_header name e lineNum)))" by simp
  then show ?thesis using n(1,2) h by (auto simp: SetError_str_def snprintf_def ERROR_BUFFER_SIZE_def Let_def)
qed

lemma SetError_reports_example:
  "\<exists>name. ErrorIDToName XML_ERROR_PARSING = Inr name \<and> name \<noteq> [] \<and> SetError_str XML_ERROR_PARSING 7 None = Inr (error_header name XML_ERROR_PARSING 7)"
  using SetError_reports [of 7 XML_ERROR_PARSING] by auto

end
