(* ===== verification/Spec2Isabelle.thy ===== *)
theory Spec2Isabelle
  imports Zstore_Init Zstore_Phase2 Zstore_Async Zstore_Entries Zstore_Files
    Zstore_Listing Zstore_XmlFile Zstore_XmlNum Zstore_XmlLinks Zstore_XmlMem Zstore_XmlQuirks
    Zstore_XmlLife Zstore_XmlHandle Zstore_XmlStr Zstore_XmlVisit Zstore_XmlErr
begin

text \<open>
  A verification development of Zstore, an object store with an S3-like HTTP interface that keeps
  every object as three replicas on zoned NVMe devices.

  \<^bold>\<open>The program.\<close> A gateway process accepts HTTP requests (\<^verbatim>\<open>src/src/http_server.cc\<close>), maps the
  hash of an object's key to the places of its replicas (the object map of the controller,
  \<^verbatim>\<open>src/src/zstore_controller.cc\<close>), takes request contexts from a pool and awaits device commands
  (\<^verbatim>\<open>src/src/common.cc\<close>) that an I/O thread submits through SPDK. Devices and zones are
  \<^verbatim>\<open>src/src/device.cc\<close> and \<^verbatim>\<open>src/src/zone.cc\<close>, the layout of objects and chunk lists is
  \<^verbatim>\<open>src/src/object.cc\<close>. Several gateways elect a leader over ZooKeeper, which runs checkpoints and
  garbage collection as transactions (again in the controller), and they exchange keys over RDMA
  (\<^verbatim>\<open>src/src/rdma_common.cc\<close>, \<^verbatim>\<open>src/src/rdma_utils.cc\<close>). \<^verbatim>\<open>src/src/main.cc\<close> starts a gateway. List responses are built and printed with the XML library
  \<^verbatim>\<open>src/src/tinyxml2.cpp\<close> (\<^verbatim>\<open>src/src/include/tinyxml2.h\<close>), which the repository contains.

  \<^bold>\<open>Conventions\<close> (theory \<open>Zstore_Prelude\<close>). A fallible function returns \<open>fault + 'a\<close>: every failed
  assertion, exception, null dereference, access out of bounds and \<^verbatim>\<open>exit\<close> is an \<open>Inl\<close>. \<open>okR m P\<close> says that
  \<open>m\<close> does not fault and its value satisfies \<open>P\<close>. Integers have the width of the source (\<open>u8\<close> to
  \<open>u64\<close>), \<^verbatim>\<open>int\<close> fields that cannot wrap are integers. Memory that the code copies by bytes is a list of bytes with checked reads
  and writes. What the code calls but does not contain is a parameter: SPDK's answers
  (\<open>io_outcome\<close>, \<open>spdk_env\<close>, zone reports), SHA-256 and the clock (\<open>http_env\<close>), the ZooKeeper client
  (\<open>zookeeper\<close>), the verbs library (\<open>rdma_env\<close> and the list of calls), random numbers and fresh memory.

  \<^bold>\<open>The theories and the code.\<close>
  \<^item> \<open>Zstore_Conf\<close>: the static configuration, rounding and result codes
    (\<^verbatim>\<open>include/configuration.h\<close>, \<^verbatim>\<open>include/utils.h\<close>).
  \<^item> \<open>Zstore_Device\<close>: \<^verbatim>\<open>Zone\<close> and \<^verbatim>\<open>Device\<close>; zone positions, opening and returning zones, zone reports and
    the zone header reader.
  \<^item> \<open>Zstore_Object\<close>: hash strings, the object's byte format, chunk lists, splitting and merging.
  \<^item> \<open>Zstore_Types\<close> and \<open>Zstore_Pool\<close>: request contexts and \<^verbatim>\<open>RequestContextPool\<close>, with the atomic
    steps of concurrent requests.
  \<^item> \<open>Zstore_Controller\<close>: the state of \<^verbatim>\<open>ZstoreController\<close>, device lookup, \<^verbatim>\<open>PopulateDevHash\<close>,
    \<^verbatim>\<open>PutObject\<close>, \<^verbatim>\<open>GetObject\<close>, \<^verbatim>\<open>DeleteObject\<close>, listing and the population loops.
  \<^item> \<open>Zstore_Io\<close>: the request builders and the coroutines that await a command.
  \<^item> \<open>Zstore_Async\<close>: below them, the wrappers that send a message to the I/O thread, the thread's loop
    and the completion handlers, as a step relation over an explicit heap of closures and handlers.
  \<^item> \<open>Zstore_Http\<close> and \<open>Zstore_Requests\<close>: \<^verbatim>\<open>awaitable_on_request\<close> on every branch, and what its requests and sessions
    do.
  \<^item> \<open>Zstore_Gc\<close>: the map dump, the selection of objects to move and the workloads of a checkpoint.
  \<^item> \<open>Zstore_Zk\<close>: election and transaction nodes, the watchers, \<^verbatim>\<open>Checkpoint\<close>.
  \<^item> \<open>Zstore_Phase2\<close>: \<^verbatim>\<open>WaitForPhase2\<close> and \<^verbatim>\<open>ReleaseKey\<close> as steps of threads.
  \<^item> \<open>Zstore_Rdma\<close>: the event loop with its callbacks and both sides of the protocol.
  \<^item> \<open>Zstore_Store\<close>: the abstract object store and the simulation.
  \<^item> \<open>Zstore_Listen\<close> and \<open>Zstore_Entries\<close>: \<^verbatim>\<open>do_listen\<close> with its interleaved sessions, and the shape of
    the object map that they keep.
  \<^item> \<open>Zstore_Files\<close>: \<^verbatim>\<open>writeString\<close> and \<^verbatim>\<open>readString\<close>.
  \<^item> \<open>Zstore_Init\<close>: \<^verbatim>\<open>SetParameters\<close>, device registration, \<^verbatim>\<open>ConfigureSpdkQpairs\<close>, \<^verbatim>\<open>Init\<close>, \<^verbatim>\<open>main\<close>.

  \<^bold>\<open>The XML library.\<close> A pointer into a buffer is the text that follows it, a null result is \<open>None\<close> or the error that was set.
  \<^item> \<open>Zstore_Xml\<close>: character classes, UTF-8, character references, in-place normalisation of strings, the document tree as a
    \<^verbatim>\<open>datatype\<close> with its operations.
  \<^item> \<open>Zstore_XmlStr\<close>: who owns the memory of a \<^verbatim>\<open>StrPair\<close>.
  \<^item> \<open>Zstore_XmlParse\<close> and \<open>Zstore_XmlShape\<close>: \<^verbatim>\<open>Identify\<close>, the \<^verbatim>\<open>ParseDeep\<close> methods and \<^verbatim>\<open>Parse\<close>; that they end and what they build.
  \<^item> \<open>Zstore_XmlPrint\<close>, \<open>Zstore_XmlRound\<close> and \<open>Zstore_XmlVisit\<close>: \<^verbatim>\<open>XMLPrinter\<close>, the round trip through the parser, and the visitor interface.
  \<^item> \<open>Zstore_XmlNum\<close> and \<open>Zstore_XmlErr\<close>: numbers and booleans in attributes and texts; error names and reports.
  \<^item> \<open>Zstore_XmlLinks\<close>, \<open>Zstore_XmlNav\<close>, \<open>Zstore_XmlHandle\<close>, \<open>Zstore_XmlDelete\<close> and \<open>Zstore_XmlLife\<close>: the pointers between nodes as maps from addresses;
    insertion, navigation, \<^verbatim>\<open>XMLHandle\<close>, deletion and \<^verbatim>\<open>Clear\<close>.
  \<^item> \<open>Zstore_XmlMem\<close>: \<^verbatim>\<open>DynArray\<close>, \<^verbatim>\<open>MemPoolT\<close> and the buffer of the printer.
  \<^item> \<open>Zstore_XmlFile\<close>: \<^verbatim>\<open>LoadFile\<close> and \<^verbatim>\<open>SaveFile\<close>. \<open>Zstore_XmlQuirks\<close>: inputs that are treated in unexpected ways.
  \<^item> \<open>Zstore_Listing\<close>: the list response as a client parses it.

  \<^bold>\<open>Interfaces\<close> (theory \<open>Zstore_Interfaces\<close>). \<open>codec\<close> (fixed-width byte formats, interpreted for log
  entries, integers and chunks), \<open>zone_allocator\<close> (interpreted for \<^verbatim>\<open>Device\<close>), \<open>context_pool\<close> (for
  \<^verbatim>\<open>RequestContextPool\<close> and for \<^verbatim>\<open>MemPoolT\<close>), \<open>object_map\<close> (for the controller's map), \<open>simulation\<close> (a fallible server
  implements a specification; for the request handler and for the listener), \<open>step_system\<close> and its extension \<open>draining\<close>
  (interleaved steps with an invariant, and work that can be finished; for the waiting threads, the I/O thread and the owners of
  strings). \<open>text_value\<close> of \<open>Zstore_XmlNum\<close> is the contract of a pair of conversions, for each of five types.

  \<^bold>\<open>What is shown.\<close> For requests: a small PUT stores three replicas on different devices; no session
  leaks a context whatever fails; every sequence of PUT, GET and DELETE requests is answered as an
  abstract set of keys answers it, also when sessions interleave and by a gateway that has just been
  started; every run keeps the map well formed; what the handler does not do (GET bodies, large PUTs, list bodies). For shared state: contexts are exclusive and
  conserved under every interleaving; every awaited operation is resumed exactly once, no cell is
  freed twice or lost, and the awaited call is what the loop computes; waiters are released, but only one for each key. For data: round trips of objects, chunk
  lists and hashes, and the sizes for which the reader leaves its buffer. For placement: the 120
  device triples and the closed form of populated positions. For clusters: the least sequence number
  leads, checkpoints of leader and follower, garbage collection terminates and returns its contexts,
  flow control and life cycle of RDMA connections, and the two ways in which they go wrong. For XML: parsing ends on every input with a
  well-formed tree or an error and no tree; what is printed or saved is parsed back, and a client reads the keys from a list response;
  normalisation stays in its range; numbers survive; pointer operations act on lists of children as
  specified, but for one insertion that dereferences null; nodes, strings and pool items are freed once and handed out once.

  \<^bold>\<open>Bounds and fuel.\<close> In the gateway three loops have fuel. \<open>getNodeData\<close> reads again until the buffer is large
  enough; it is shown that two rounds suffice for every node with data. \<open>GetZoneHeaders\<close> asks for
  reports until all zones are seen; with good reports one round for each zone suffices. \<open>EraseWholeDevice\<close> polls until its completion
  arrives; it returns for some fuel exactly when the command was accepted and is completed. All
  three say so (\<open>None\<close> or a fault) when the fuel ends. In the XML library the parser has fuel for its nesting, one more
  than the length of the input, which is shown to be enough; walking over siblings needs as much as there are siblings, and
  deleting a tree twice the number of its nodes. Small objects are those that fit the configured chunk. The loops of the
  I/O thread and of the listening threads do not end and are step relations or folds over events.

  \<^bold>\<open>Not modelled.\<close> Logging and printing, core pinning, sleeping and the cleanup at exit have no effect that a theorem
  could mention. \<^verbatim>\<open>ResetZone\<close> and \<^verbatim>\<open>FinishZone\<close> of a device are empty. The attributes of RDMA queue pairs are constants that no
  code reads. In the XML library the conversions of \<^verbatim>\<open>float\<close> and \<^verbatim>\<open>double\<close>, which are those of the C library, the line numbers of
  the parser, the assertions of debug builds and user data are left out. The programs under \<^verbatim>\<open>src/examples\<close> and the tests are not linked into the gateway.
\<close>

section \<open>A gateway from its start\<close>



end
